(* ===== verification/Rqc_Prelude.thy ===== *)
theory Rqc_Prelude
  imports Main "HOL-Library.Word" "HOL-Library.Monad_Syntax"
begin

unbundle bit_operations_syntax

text \<open>
  Shared vocabulary of the development.

  \<^item> The integer types of the C sources: \<open>byte\<close> (\<open>unsigned char\<close>), \<open>u32\<close>
    (\<open>unsigned\<close>, \<open>uint32_t\<close>, and the bits of \<open>int\<close>) and \<open>u64\<close> (\<open>uint64_t\<close>). Sizes and
    pointer differences inside one buffer are \<open>nat\<close>.
  \<^item> Results: a C function that returns a negative code is modelled by a value of a sum
    type. \<open>Err e\<close> is a \<open>return e\<close> with \<open>e \<noteq> RQC_OK\<close>; \<open>Inl Fault\<close> is an access outside
    the buffer that the C code would perform (undefined behaviour), which the model makes
    visible so that its absence is a theorem. The constants of
    \<open>include/rquic/rqc_errno.h\<close> are abbreviations for their values.
  \<^item> Memory: a buffer is a \<open>byte list\<close> of its allocated size. \<open>overwrite\<close> overwrites a part of
    it; \<open>wr_mem\<close> is a \<open>memcpy\<close> through a cursor \<open>(buffer, offset)\<close>, which advances the
    offset and fails (\<open>None\<close>) where it would leave the buffer.
  \<^item> \<open>be_bytes n v\<close> are the \<open>n\<close> low bytes of \<open>v\<close> in network order, what \<open>bswap_64\<close> or
    \<open>htonl\<close> followed by \<open>memcpy\<close> leaves in memory on a little-endian host.
\<close>

named_theorems buf_simps \<open>reading back what was written into a buffer\<close>
named_theorems len_simps \<open>lengths of encodings\<close>

type_synonym byte = "8 word"
type_synonym u32 = "32 word"
type_synonym u64 = "64 word"

subsection \<open>Error codes and results\<close>

abbreviation "RQC_ENOBUF \<equiv> (600 :: int)"
abbreviation "RQC_EVINTREAD \<equiv> (601 :: int)"
abbreviation "RQC_ENULLPTR \<equiv> (602 :: int)"
abbreviation "RQC_EMALLOC \<equiv> (603 :: int)"
abbreviation "RQC_EILLPKT \<equiv> (604 :: int)"
abbreviation "RQC_EILLTP \<equiv> (605 :: int)"
abbreviation "RQC_EILLFRAME \<equiv> (606 :: int)"
abbreviation "RQC_ESYS \<equiv> (610 :: int)"
abbreviation "RQC_EPARAM \<equiv> (612 :: int)"
abbreviation "RQC_ESTATE \<equiv> (613 :: int)"
abbreviation "RQC_ELIMIT \<equiv> (614 :: int)"
abbreviation "RQC_EPROTO \<equiv> (615 :: int)"
abbreviation "RQC_EVERSION \<equiv> (625 :: int)"
abbreviation "RQC_EIGNORE_PKT \<equiv> (627 :: int)"
abbreviation "RQC_EGENERATE_CID \<equiv> (628 :: int)"
abbreviation "RQC_ECONN_NO_AVAIL_CID \<equiv> (629 :: int)"
abbreviation "RQC_ECONN_CID_NOT_FOUND \<equiv> (630 :: int)"
abbreviation "RQC_ECID_STATE \<equiv> (631 :: int)"
abbreviation "RQC_EACTIVE_CID_LIMIT \<equiv> (632 :: int)"
abbreviation "RQC_OK \<equiv> (0 :: int)"
abbreviation "RQC_ERROR \<equiv> (-1 :: int)"

datatype rqc_fail = Ret int | Fault

type_synonym 'a res = "rqc_fail + 'a"

abbreviation Err :: "int \<Rightarrow> 'a res" where
  "Err e \<equiv> Inl (Ret e)"

text \<open>Sequencing of fallible steps: the first failure is returned.\<close>

definition res_bind :: "'a res \<Rightarrow> ('a \<Rightarrow> 'b res) \<Rightarrow> 'b res" where
  "res_bind r f = (case r of Inl e \<Rightarrow> Inl e | Inr x \<Rightarrow> f x)"

lemma res_bind_simps [simp]: "res_bind (Inl e) f = Inl e" "res_bind (Inr x) f = f x"
  by (simp_all add: res_bind_def)

lemma res_bind_eq_Inr: "res_bind r f = Inr y \<longleftrightarrow> (\<exists>x. r = Inr x \<and> f x = Inr y)"
  by (cases r) auto

lemma res_bind_eq_Inl: "res_bind r f = Inl e \<longleftrightarrow> r = Inl e \<or> (\<exists>x. r = Inr x \<and> f x = Inl e)"
  by (cases r) auto

lemma res_bind_cong [fundef_cong]:
  "r = r' \<Longrightarrow> (\<And>x. r' = Inr x \<Longrightarrow> f x = f' x) \<Longrightarrow> res_bind r f = res_bind r' f'"
  by (cases r') auto

text \<open>
  A postcondition for a fallible computation that must not fault: \<open>res_post P r\<close> allows any
  error code, and wants \<open>P\<close> of a result. The rules walk through a chain of \<open>res_bind\<close>.
\<close>

named_theorems res_rules \<open>postconditions of the reading primitives\<close>

definition res_post :: "('a \<Rightarrow> bool) \<Rightarrow> 'a res \<Rightarrow> bool" where
  "res_post P r \<longleftrightarrow> (case r of Inl e \<Rightarrow> e \<noteq> Fault | Inr x \<Rightarrow> P x)"

lemma res_post_Inr [simp]: "res_post P (Inr x) \<longleftrightarrow> P x"
  by (simp add: res_post_def)

lemma res_post_Err [simp]: "res_post P (Err e)"
  by (simp add: res_post_def)

lemma res_post_bind:
  "res_post Q r \<Longrightarrow> (\<And>x. Q x \<Longrightarrow> res_post P (f x)) \<Longrightarrow> res_post P (res_bind r f)"
  by (cases r) (auto simp: res_post_def)

lemma res_post_mono: "res_post Q r \<Longrightarrow> (\<And>x. Q x \<Longrightarrow> P x) \<Longrightarrow> res_post P r"
  by (cases r) (auto simp: res_post_def)

lemma res_post_if: "(c \<Longrightarrow> res_post P r) \<Longrightarrow> (\<not> c \<Longrightarrow> res_post P r') \<Longrightarrow> res_post P (if c then r else r')"
  by simp

lemma res_postD: "res_post P r \<Longrightarrow> r \<noteq> Inl Fault" "res_post P r \<Longrightarrow> r = Inr x \<Longrightarrow> P x"
  by (auto simp: res_post_def)

subsection \<open>Memory\<close>

definition overwrite :: "'a list \<Rightarrow> nat \<Rightarrow> 'a list \<Rightarrow> 'a list" where
  "overwrite buf off bs = take off buf @ bs @ drop (off + length bs) buf"

type_synonym wcur = "byte list \<times> nat"

definition wr_mem :: "byte list \<Rightarrow> wcur \<Rightarrow> wcur option" where
  "wr_mem bs c = (case c of (buf, p) \<Rightarrow>
     if p + length bs \<le> length buf then Some (overwrite buf p bs, p + length bs) else None)"

text \<open>\<open>holds_at buf p bs\<close>: the bytes of \<open>bs\<close> are in the buffer from offset \<open>p\<close> on.\<close>

definition holds_at :: "'a list \<Rightarrow> nat \<Rightarrow> 'a list \<Rightarrow> bool" where
  "holds_at buf p bs \<longleftrightarrow> p + length bs \<le> length buf \<and> take (length bs) (drop p buf) = bs"

lemma length_overwrite [simp]:
  "off + length bs \<le> length buf \<Longrightarrow> length (overwrite buf off bs) = length buf"
  by (simp add: overwrite_def)

lemma overwrite_Nil [simp]: "overwrite buf off [] = buf"
  by (simp add: overwrite_def)

lemma take_overwrite [simp]:
  "off + length bs \<le> length buf \<Longrightarrow> take off (overwrite buf off bs) = take off buf"
  by (simp add: overwrite_def)

lemma drop_overwrite:
  "off + length bs \<le> length buf \<Longrightarrow>
   drop (off + length bs) (overwrite buf off bs) = drop (off + length bs) buf"
  by (simp add: overwrite_def)

lemma nth_overwrite:
  "off + length bs \<le> length buf \<Longrightarrow> i < length buf \<Longrightarrow>
   overwrite buf off bs ! i =
     (if i < off then buf ! i else if i < off + length bs then bs ! (i - off) else buf ! i)"
  by (auto simp: overwrite_def nth_append min_def)

lemma overwrite_overwrite:
  assumes "off + length bs + length cs \<le> length buf"
  shows "overwrite (overwrite buf off bs) (off + length bs) cs = overwrite buf off (bs @ cs)"
proof -
  have "min (length buf) off = off" and "drop (off + length bs) buf = drop (length bs) (drop off buf)"
    using assms by (simp_all add: drop_drop add.commute)
  then show ?thesis
    using assms by (simp add: overwrite_def drop_drop add.commute add.left_commute)
qed

lemma holds_at_overwrite [buf_simps]:
  "off + length bs \<le> length buf \<Longrightarrow> holds_at (overwrite buf off bs) off bs"
  by (simp add: holds_at_def overwrite_def)

lemma holds_at_append:
  "holds_at buf p (bs @ cs) \<longleftrightarrow> holds_at buf p bs \<and> holds_at buf (p + length bs) cs"
  (is "?l \<longleftrightarrow> ?r")
proof
  assume l: ?l
  then have t: "take (length bs + length cs) (drop p buf) = bs @ cs"
    by (simp add: holds_at_def)
  have "take (length bs) (drop p buf) = take (length bs) (take (length bs + length cs) (drop p buf))"
    by simp
  also have "\<dots> = bs" by (simp add: t)
  finally have 1: "take (length bs) (drop p buf) = bs" .
  have "take (length cs) (drop (p + length bs) buf) =
      drop (length bs) (take (length bs + length cs) (drop p buf))"
    by (simp add: drop_take add.commute)
  also have "\<dots> = cs" by (simp add: t)
  finally show ?r using 1 l by (simp add: holds_at_def)
next
  assume ?r
  then show ?l
    by (simp add: holds_at_def take_add add.commute)
qed

lemma holds_at_Nil [simp]: "holds_at buf p [] \<longleftrightarrow> p \<le> length buf"
  by (simp add: holds_at_def)

lemma holds_at_Cons:
  "holds_at buf p (b # bs) \<longleftrightarrow> p < length buf \<and> buf ! p = b \<and> holds_at buf (Suc p) bs"
proof (cases "p < length buf")
  case True
  then have "drop p buf = buf ! p # drop (Suc p) buf" by (rule Cons_nth_drop_Suc [symmetric])
  then show ?thesis using True by (auto simp: holds_at_def)
qed (auto simp: holds_at_def)

lemma holds_at_nth: "holds_at buf p bs \<Longrightarrow> i < length bs \<Longrightarrow> buf ! (p + i) = bs ! i"
  by (auto simp: holds_at_def) (metis nth_drop nth_take le_add1 le_trans)

lemma holds_at_length: "holds_at buf p bs \<Longrightarrow> p + length bs \<le> length buf"
  by (simp add: holds_at_def)

lemma holds_at_iff_nth:
  "holds_at buf p bs \<longleftrightarrow> p + length bs \<le> length buf \<and> (\<forall>i < length bs. buf ! (p + i) = bs ! i)"
  by (auto simp: holds_at_def list_eq_iff_nth_eq)

lemma holds_at_overwrite_other:
  "holds_at buf p bs \<Longrightarrow> q + length cs \<le> length buf \<Longrightarrow> p + length bs \<le> q \<or> q + length cs \<le> p \<Longrightarrow>
   holds_at (overwrite buf q cs) p bs"
  by (auto simp: holds_at_iff_nth nth_overwrite)

lemma holds_at_update:
  "holds_at buf p (b # bs) \<Longrightarrow> holds_at (buf[p := x]) p (x # bs)"
  by (auto simp: holds_at_iff_nth nth_list_update nth_Cons split: nat.splits)

lemma wr_mem_Some [simp]:
  "p + length bs \<le> length buf \<Longrightarrow> wr_mem bs (buf, p) = Some (overwrite buf p bs, p + length bs)"
  by (simp add: wr_mem_def)

lemma wr_mem_None [simp]: "\<not> p + length bs \<le> length buf \<Longrightarrow> wr_mem bs (buf, p) = None"
  by (simp add: wr_mem_def)

text \<open>Consecutive writes through a cursor are one write.\<close>

lemma wr_mem_bind [simp]: "Option.bind (wr_mem bs c) (wr_mem cs) = wr_mem (bs @ cs) c"
  by (cases c) (auto simp: wr_mem_def overwrite_overwrite add.assoc)

lemma wr_mem_bind_bind [simp]:
  "Option.bind (wr_mem bs c) (\<lambda>x. Option.bind (wr_mem cs x) f) = Option.bind (wr_mem (bs @ cs) c) f"
  by (metis wr_mem_bind bind_assoc)

lemma wr_mem_bind_if [simp]:
  "Option.bind (wr_mem bs c) (\<lambda>x. if cs \<noteq> [] then wr_mem cs x else Some x) = wr_mem (bs @ cs) c"
  by (cases "cs = []") simp_all

subsection \<open>Network byte order\<close>

definition be_bytes :: "nat \<Rightarrow> u64 \<Rightarrow> byte list" where
  "be_bytes n v = rev (map (\<lambda>i. ucast (drop_bit (8 * i) v)) [0..<n])"

definition be_value :: "byte list \<Rightarrow> u64" where
  "be_value bs = foldl (\<lambda>acc b. push_bit 8 acc OR ucast b) 0 bs"

lemma length_be_bytes [simp, len_simps]: "length (be_bytes n v) = n"
  by (simp add: be_bytes_def)

lemma be_bytes_simps [simp]:
  "be_bytes 1 v = [ucast v]"
  "be_bytes (Suc 0) v = [ucast v]"
  "be_bytes 2 v = [ucast (drop_bit 8 v), ucast v]"
  "be_bytes 4 v = [ucast (drop_bit 24 v), ucast (drop_bit 16 v), ucast (drop_bit 8 v), ucast v]"
  "be_bytes 8 v = [ucast (drop_bit 56 v), ucast (drop_bit 48 v), ucast (drop_bit 40 v),
     ucast (drop_bit 32 v), ucast (drop_bit 24 v), ucast (drop_bit 16 v), ucast (drop_bit 8 v), ucast v]"
  by (simp_all add: be_bytes_def upt_rec numeral_eq_Suc)

lemma drop_be_bytes: "m \<le> n \<Longrightarrow> drop (n - m) (be_bytes n v) = be_bytes m v"
  by (simp add: be_bytes_def drop_rev take_map)

lemma less_power_iff_bits: "v < 2 ^ n \<longleftrightarrow> (\<forall>i\<ge>n. \<not> bit v i)" if "n < 64" for v :: u64
proof -
  have "v < 2 ^ n \<longleftrightarrow> v AND mask n = v"
    using that by (simp add: mask_eq_iff word_2p_lem word_size)
  also have "\<dots> \<longleftrightarrow> (\<forall>i. bit v i \<longrightarrow> i < n)"
    using bit_imp_le_length [of v] by (auto simp: bit_eq_iff bit_simps)
  also have "\<dots> \<longleftrightarrow> (\<forall>i\<ge>n. \<not> bit v i)"
    by (metis not_less)
  finally show ?thesis .
qed

lemma be_bytes_Suc: "be_bytes (Suc n) v = be_bytes n (drop_bit 8 v) @ [ucast v]"
proof -
  have "map (\<lambda>i. ucast (drop_bit (8 * i) v) :: byte) [0..<Suc n]
      = ucast v # map (\<lambda>i. ucast (drop_bit (8 * i) (drop_bit 8 v))) [0..<n]"
    by (simp add: upt_conv_Cons map_Suc_upt [symmetric] drop_bit_drop_bit add.commute del: upt_Suc)
  then show ?thesis by (simp add: be_bytes_def del: upt_Suc)
qed

lemma be_value_snoc: "be_value (bs @ [b]) = push_bit 8 (be_value bs) OR ucast b"
  by (simp add: be_value_def)

lemma be_value_be_bytes: "be_value (be_bytes n v) = take_bit (8 * n) v"
proof (induction n arbitrary: v)
  case 0
  then show ?case by (simp add: be_bytes_def be_value_def)
next
  case (Suc n)
  have "push_bit 8 (take_bit (8 * n) (drop_bit 8 v)) OR ucast (ucast v :: byte) = take_bit (8 * Suc n) v"
    by (rule bit_word_eqI) (auto simp: bit_simps)
  with Suc show ?case by (simp add: be_bytes_Suc be_value_snoc)
qed

text \<open>A field of \<open>m\<close> bits below a tag: the two parts can be read back.\<close>

lemma drop_bit_or_push_bit:
  "v < 2 ^ m \<Longrightarrow> m < 64 \<Longrightarrow> drop_bit m (v OR push_bit m t) = drop_bit m (push_bit m t)" for v :: u64
  by (rule bit_word_eqI) (auto simp: bit_simps less_power_iff_bits)

lemma take_bit_or_push_bit:
  "v < 2 ^ m \<Longrightarrow> m < 64 \<Longrightarrow> take_bit m (v OR push_bit m t) = v" for v :: u64
  by (rule bit_word_eqI) (auto simp: bit_simps less_power_iff_bits)

text \<open>Sizes that fit.\<close>

lemma unat_of_nat_small: "i < 2 ^ 64 \<Longrightarrow> unat (of_nat i :: u64) = i"
  by (simp add: unat_of_nat)

lemma unat_add_of_nat: "unat c + n < 2 ^ 64 \<Longrightarrow> unat (c + of_nat n :: u64) = unat c + n"
  by (subst unat_add_lem [THEN iffD1]) (simp_all add: unat_of_nat_small)

lemma uint_of_nat_small: "i < 2 ^ 64 \<Longrightarrow> uint (of_nat i :: u64) = int i"
  using unat_of_nat_small [of i] by (simp add: uint_nat)

lemma of_nat_less_62: "n < 2 ^ 62 \<Longrightarrow> (of_nat n :: u64) < 2 ^ 62"
  by (simp add: word_less_nat_alt unat_of_nat)

end
