(* ===== verification/Rqc_Ring_Array.thy ===== *)
theory Rqc_Ring_Array
  imports Rqc_Prelude
begin

text \<open>
  The ring array of \<open>src/common/utils/ringarray/rqc_ring_array.c\<close> and \<open>rqc_pow2_upper\<close> of
  \<open>src/common/rqc_common.h\<close>.

  An element slot is \<open>'e option\<close> (\<open>None\<close>: memory never written), \<open>ra_buf\<close> is the list of the
  slots that were allocated, and a returned \<open>void *\<close> is the index of the slot, \<open>None\<close> for
  \<open>NULL\<close>. The callers store into the slot they got: \<open>ra_store\<close>. All counters are \<open>uint64_t\<close>,
  so \<open>(offset - 1) & mask\<close> wraps as in C. The contract is that of a bounded double-ended
  queue (locale \<open>bounded_deque\<close>); the abstraction \<open>ra_items\<close> reads the slots in order.
\<close>

subsection \<open>Powers of two\<close>

function pow2_loop :: "nat \<Rightarrow> nat \<Rightarrow> nat" where
  "pow2_loop m n = (if 0 < m \<and> m < n then pow2_loop (2 * m) n else m)"
  by pat_completeness auto
termination
  by (relation "measure (\<lambda>(m, n). n - m)") auto

declare pow2_loop.simps [simp del]

text \<open>
  The loop \<open>for (; m < n; m = m << 1)\<close> runs only below \<open>n \<le> 2 ^ 63\<close>, where the shift does not
  lose a bit, so it is a doubling of natural numbers.
\<close>

definition rqc_pow2_upper :: "u64 \<Rightarrow> u64" where
  "rqc_pow2_upper n =
     (if n > 0x8000000000000000 then 0 else of_nat (pow2_loop 1 (unat n)))"

lemma pow2_loop_power:
  "m = 2 ^ i \<Longrightarrow> m < 2 * n \<or> m = 1 \<Longrightarrow>
   \<exists>j\<ge>i. pow2_loop m n = 2 ^ j \<and> n \<le> 2 ^ j \<and> (2 ^ j < 2 * n \<or> j = 0)"
proof (induction m n arbitrary: i rule: pow2_loop.induct)
  case (1 m n)
  show ?case
  proof (cases "m < n")
    case True
    have "\<exists>j\<ge>Suc i. pow2_loop (2 * m) n = 2 ^ j \<and> n \<le> 2 ^ j \<and> (2 ^ j < 2 * n \<or> j = 0)"
      by (rule "1.IH") (use True "1.prems" in auto)
    then obtain j where "j \<ge> Suc i" "pow2_loop (2 * m) n = 2 ^ j" "n \<le> 2 ^ j" "2 ^ j < 2 * n \<or> j = 0"
      by blast
    moreover have "pow2_loop m n = pow2_loop (2 * m) n"
      using True "1.prems" by (subst pow2_loop.simps) simp
    ultimately show ?thesis by (intro exI [of _ j]) simp
  next
    case False
    then have "pow2_loop m n = m" by (simp add: pow2_loop.simps [of m n])
    with False "1.prems" show ?thesis by (intro exI [of _ i]) auto
  qed
qed

lemma rqc_pow2_upper_spec:
  assumes "n \<le> 0x8000000000000000"
  shows "\<exists>k\<le>63. rqc_pow2_upper n = 2 ^ k \<and> unat n \<le> 2 ^ k \<and> (2 ^ k < 2 * unat n \<or> k = 0)"
proof -
  obtain k where k: "pow2_loop 1 (unat n) = 2 ^ k" "unat n \<le> 2 ^ k" "2 ^ k < 2 * unat n \<or> k = 0"
    using pow2_loop_power [of 1 0 "unat n"] by auto
  have n: "unat n \<le> 2 ^ 63" using assms by (simp add: word_le_nat_alt)
  have "k \<le> 63"
  proof (rule ccontr)
    assume "\<not> k \<le> 63"
    then have "(2 :: nat) ^ 64 \<le> 2 ^ k" by (intro power_increasing) auto
    with k n \<open>\<not> k \<le> 63\<close> show False by simp
  qed
  with k assms show ?thesis by (auto simp: rqc_pow2_upper_def not_less)
qed

subsection \<open>State and operations\<close>

record 'e rqc_rarray =
  ra_buf :: "'e option list"
  ra_esize :: u64
  ra_cap :: u64
  ra_count :: u64
  ra_offset :: u64
  ra_mask :: u64

text \<open>
  \<open>rqc_malloc(n * esize)\<close>: the product wraps at 64 bits, so the block has room for
  \<open>ra_slots\<close> elements; \<open>ok\<close> says whether the allocation succeeds.
\<close>

definition ra_slots :: "u64 \<Rightarrow> u64 \<Rightarrow> nat" where
  "ra_slots cap esize = unat (cap * esize) div unat esize"

definition rqc_rarray_create :: "bool \<Rightarrow> u64 \<Rightarrow> u64 \<Rightarrow> 'e rqc_rarray option" where
  "rqc_rarray_create ok cap esize =
     (if esize \<noteq> 0 then
        (let array_cap = rqc_pow2_upper cap
         in if array_cap = 0 then None
            else if \<not> ok then None
            else Some \<lparr>ra_buf = replicate (ra_slots array_cap esize) None, ra_esize = esize,
                       ra_cap = array_cap, ra_count = 0, ra_offset = 0, ra_mask = array_cap - 1\<rparr>)
      else if \<not> ok then None
      else Some \<lparr>ra_buf = [], ra_esize = esize, ra_cap = 0, ra_count = 0, ra_offset = 0,
                 ra_mask = 0 - 1\<rparr>)"

definition rqc_rarray_check_range :: "'e rqc_rarray \<Rightarrow> u64 \<Rightarrow> bool" where
  "rqc_rarray_check_range ra offset =
     (let eoffset = (ra_offset ra + ra_count ra) AND ra_mask ra
      in if ra_offset ra \<ge> eoffset then
           (if ra_count ra = 0 then False else offset \<ge> ra_offset ra \<or> offset < eoffset)
         else offset \<ge> ra_offset ra \<and> offset < eoffset)"

definition rqc_rarray_get :: "'e rqc_rarray \<Rightarrow> u64 \<Rightarrow> nat option" where
  "rqc_rarray_get ra idx =
     (if idx \<ge> ra_cap ra then None
      else let offset = (idx + ra_offset ra) AND ra_mask ra
           in if \<not> rqc_rarray_check_range ra offset then None else Some (unat offset))"

definition rqc_rarray_size :: "'e rqc_rarray \<Rightarrow> u64" where
  "rqc_rarray_size ra = ra_count ra"

definition rqc_rarray_full :: "'e rqc_rarray \<Rightarrow> bool" where
  "rqc_rarray_full ra \<longleftrightarrow> ra_count ra \<ge> ra_cap ra"

definition rqc_rarray_front :: "'e rqc_rarray \<Rightarrow> nat option" where
  "rqc_rarray_front ra = (if ra_count ra = 0 then None else Some (unat (ra_offset ra)))"

definition rqc_rarray_push :: "'e rqc_rarray \<Rightarrow> nat option \<times> 'e rqc_rarray" where
  "rqc_rarray_push ra =
     (if ra_count ra \<ge> ra_cap ra then (None, ra)
      else let slot = (ra_offset ra + ra_count ra) AND ra_mask ra
           in (Some (unat slot), ra\<lparr>ra_count := ra_count ra + 1\<rparr>))"

definition rqc_rarray_push_front :: "'e rqc_rarray \<Rightarrow> nat option \<times> 'e rqc_rarray" where
  "rqc_rarray_push_front ra =
     (if ra_count ra \<ge> ra_cap ra then (None, ra)
      else let off = (ra_offset ra - 1) AND ra_mask ra
           in (Some (unat off), ra\<lparr>ra_count := ra_count ra + 1, ra_offset := off\<rparr>))"

definition rqc_rarray_pop_front :: "'e rqc_rarray \<Rightarrow> bool \<times> 'e rqc_rarray" where
  "rqc_rarray_pop_front ra =
     (if ra_count ra = 0 then (False, ra)
      else (True, ra\<lparr>ra_offset := (ra_offset ra + 1) AND ra_mask ra, ra_count := ra_count ra - 1\<rparr>))"

definition rqc_rarray_pop_back :: "'e rqc_rarray \<Rightarrow> bool \<times> 'e rqc_rarray" where
  "rqc_rarray_pop_back ra =
     (if ra_count ra = 0 then (False, ra) else (True, ra\<lparr>ra_count := ra_count ra - 1\<rparr>))"

definition rqc_rarray_pop_from :: "'e rqc_rarray \<Rightarrow> u64 \<Rightarrow> bool \<times> 'e rqc_rarray" where
  "rqc_rarray_pop_from ra idx =
     (if ra_count ra \<le> idx then (False, ra) else (True, ra\<lparr>ra_count := idx\<rparr>))"

text \<open>
  \<open>rqc_rarray_resize\<close>. A \<open>memcpy\<close> whose source range leaves the old block is a \<open>Fault\<close>;
  \<open>copy_slots dst d src s n\<close> is \<open>memcpy(dst + d, src + s, n)\<close> in elements.
\<close>

definition copy_slots :: "'a list \<Rightarrow> nat \<Rightarrow> 'a list \<Rightarrow> nat \<Rightarrow> nat \<Rightarrow> 'a list option" where
  "copy_slots dst d src s n =
     (if s + n \<le> length src \<and> d + n \<le> length dst then Some (overwrite dst d (take n (drop s src)))
      else None)"

definition ra_relocate :: "'e option list \<Rightarrow> 'e rqc_rarray \<Rightarrow> 'e option list option" where
  "ra_relocate fresh ra =
     (let off = unat (ra_offset ra);
          endw = (ra_offset ra + ra_count ra) AND ra_mask ra
      in if endw \<ge> ra_offset ra then
           copy_slots fresh 0 (ra_buf ra) off (unat (ra_count ra))
         else
           do { b \<leftarrow> copy_slots fresh 0 (ra_buf ra) off (unat (ra_cap ra) - off);
                copy_slots b (unat (ra_cap ra) - off) (ra_buf ra) 0 (unat endw) })"

definition rqc_rarray_resize :: "bool \<Rightarrow> 'e rqc_rarray \<Rightarrow> u64 \<Rightarrow> 'e rqc_rarray res" where
  "rqc_rarray_resize ok ra cap =
     (if cap < ra_count ra then Err (- RQC_EPARAM)
      else if cap \<le> ra_cap ra then Inr ra
      else
        let array_cap = rqc_pow2_upper cap
        in if array_cap = 0 then Err (- RQC_EMALLOC)
           else if \<not> ok then Err (- RQC_EMALLOC)
           else
             let fresh = replicate (ra_slots array_cap (ra_esize ra)) None;
                 filled = (if ra_cap ra = 0 then Some fresh else ra_relocate fresh ra)
             in (case filled of
                   None \<Rightarrow> Inl Fault
                 | Some b \<Rightarrow> Inr (ra\<lparr>ra_buf := b, ra_cap := array_cap, ra_mask := array_cap - 1,
                                      ra_offset := 0\<rparr>)))"

text \<open>\<open>rqc_rarray_reinit\<close> zeroes the block; \<open>zero\<close> is the all-zero element.\<close>

definition rqc_rarray_reinit :: "'e \<Rightarrow> 'e rqc_rarray \<Rightarrow> 'e rqc_rarray" where
  "rqc_rarray_reinit zero ra =
     ra\<lparr>ra_buf := map (\<lambda>i. if i < unat (ra_cap ra) then Some zero else ra_buf ra ! i) [0..<length (ra_buf ra)],
        ra_count := 0, ra_offset := 0\<rparr>"

text \<open>The store of a caller into the slot that \<open>push\<close> or \<open>push_front\<close> returned.\<close>

definition ra_store :: "'e rqc_rarray \<Rightarrow> nat \<Rightarrow> 'e \<Rightarrow> 'e rqc_rarray" where
  "ra_store ra slot x = ra\<lparr>ra_buf := (ra_buf ra)[slot := Some x]\<rparr>"

subsection \<open>Invariant and abstraction\<close>

definition ra_inv :: "'e rqc_rarray \<Rightarrow> bool" where
  "ra_inv ra \<longleftrightarrow>
     (\<exists>k\<le>63. ra_cap ra = 2 ^ k) \<and> ra_mask ra = ra_cap ra - 1 \<and>
     ra_count ra \<le> ra_cap ra \<and> ra_offset ra < ra_cap ra \<and>
     length (ra_buf ra) = unat (ra_cap ra)"

definition ra_items :: "'e rqc_rarray \<Rightarrow> 'e option list" where
  "ra_items ra =
     map (\<lambda>i. ra_buf ra ! ((unat (ra_offset ra) + i) mod unat (ra_cap ra))) [0..<unat (ra_count ra)]"

subsection \<open>Index arithmetic\<close>

lemma mod_below_double: "x < 2 * c \<Longrightarrow> x mod c = (if x < c then x else x - c)" for x c :: nat
  by (auto simp: mod_if)

lemma unat_and_mask: "k \<le> 63 \<Longrightarrow> unat (x AND (2 ^ k - 1)) = unat x mod 2 ^ k" for x :: u64
proof -
  have "x AND (2 ^ k - 1) = take_bit k x" by (simp add: take_bit_eq_mask mask_eq_exp_minus_1)
  then have "unat (x AND (2 ^ k - 1)) = take_bit k (unat x)" by (simp only: unsigned_take_bit_eq)
  then show ?thesis by (simp add: take_bit_eq_mod)
qed

lemma unat_pow2: "k \<le> 63 \<Longrightarrow> unat (2 ^ k :: u64) = 2 ^ k"
proof -
  assume "k \<le> 63"
  then have "(2 :: nat) ^ k \<le> 2 ^ 63" by (intro power_increasing) auto
  moreover have "(2 ^ k :: u64) = of_nat (2 ^ k)" by simp
  ultimately show ?thesis by (simp only: unat_of_nat) simp
qed

lemma mod_64_mod: "k \<le> 63 \<Longrightarrow> x mod 18446744073709551616 mod 2 ^ k = x mod (2 ^ k :: nat)"
proof -
  assume "k \<le> 63"
  then have "(2 :: nat) ^ k dvd 2 ^ 64" by (intro le_imp_power_dvd) simp
  then show ?thesis by (simp add: mod_mod_cancel)
qed

lemma ra_inv_cap:
  assumes "ra_inv ra"
  obtains k where "k \<le> 63" "ra_cap ra = 2 ^ k" "unat (ra_cap ra) = 2 ^ k"
proof -
  from assms obtain k where k: "k \<le> 63" "ra_cap ra = 2 ^ k" by (auto simp: ra_inv_def)
  then have "unat (ra_cap ra) = 2 ^ k" by (simp add: unat_pow2)
  with k show ?thesis by (rule that)
qed

lemma ra_index:
  assumes "ra_inv ra"
  shows "unat ((ra_offset ra + x) AND ra_mask ra) = (unat (ra_offset ra) + unat x) mod unat (ra_cap ra)"
proof -
  obtain k where k: "k \<le> 63" "ra_cap ra = 2 ^ k" "unat (ra_cap ra) = 2 ^ k"
    using assms by (rule ra_inv_cap)
  then show ?thesis using assms by (simp add: ra_inv_def unat_and_mask unat_word_ariths mod_64_mod)
qed

lemma ra_index_pred:
  assumes "ra_inv ra"
  shows "unat ((ra_offset ra - 1) AND ra_mask ra) = (unat (ra_offset ra) + (unat (ra_cap ra) - 1)) mod unat (ra_cap ra)"
proof -
  obtain k where k: "k \<le> 63" "ra_cap ra = 2 ^ k" "unat (ra_cap ra) = 2 ^ k"
    using assms by (rule ra_inv_cap)
  have "unat (- 1 :: u64) mod 2 ^ k = unat (- 1 AND (2 ^ k - 1) :: u64)"
    using k(1) by (simp only: unat_and_mask)
  also have "\<dots> = 2 ^ k - 1"
    using k(1) unat_pow2 [of k] by (simp add: unat_minus_one)
  finally have m1: "unat (- 1 :: u64) mod 2 ^ k = 2 ^ k - 1" .
  have "ra_offset ra - 1 = ra_offset ra + - 1" by simp
  then have "unat ((ra_offset ra - 1) AND ra_mask ra) = (unat (ra_offset ra) + unat (- 1 :: u64)) mod 2 ^ k"
    using ra_index [OF assms, of "- 1"] by (simp only: k(3))
  then show ?thesis using m1 k(3) by (metis mod_add_right_eq)
qed

lemma ra_inv_nat:
  assumes "ra_inv ra"
  shows "0 < unat (ra_cap ra)" "unat (ra_count ra) \<le> unat (ra_cap ra)"
    "unat (ra_offset ra) < unat (ra_cap ra)" "length (ra_buf ra) = unat (ra_cap ra)"
    "unat (ra_cap ra) \<le> 2 ^ 63"
proof -
  obtain k where k: "k \<le> 63" "ra_cap ra = 2 ^ k" "unat (ra_cap ra) = 2 ^ k"
    using assms by (rule ra_inv_cap)
  show "0 < unat (ra_cap ra)" using k by simp
  have "(2 :: nat) ^ k \<le> 2 ^ 63" using k(1) by (intro power_increasing) auto
  then show "unat (ra_cap ra) \<le> 2 ^ 63" using k by simp
qed (use assms in \<open>simp_all add: ra_inv_def word_le_nat_alt word_less_nat_alt\<close>)

subsection \<open>The operations on the abstract queue\<close>

lemma length_ra_items [simp]: "length (ra_items ra) = unat (ra_count ra)"
  by (simp add: ra_items_def)

lemma ra_items_nth:
  "i < unat (ra_count ra) \<Longrightarrow>
   ra_items ra ! i = ra_buf ra ! ((unat (ra_offset ra) + i) mod unat (ra_cap ra))"
  by (simp add: ra_items_def)

lemma range_check_nat:
  assumes "o' < c" "n \<le> c" "i < (c :: nat)"
  shows "(if o' \<ge> (o' + n) mod c
          then n \<noteq> 0 \<and> ((i + o') mod c \<ge> o' \<or> (i + o') mod c < (o' + n) mod c)
          else (i + o') mod c \<ge> o' \<and> (i + o') mod c < (o' + n) mod c) \<longleftrightarrow> i < n"
proof -
  have "(o' + n) mod c = (if o' + n < c then o' + n else o' + n - c)"
    "(i + o') mod c = (if i + o' < c then i + o' else i + o' - c)"
    using assms by (intro mod_below_double; linarith)+
  with assms show ?thesis by auto
qed

lemma rqc_rarray_get_spec:
  assumes inv: "ra_inv ra"
  shows "rqc_rarray_get ra idx =
    (if unat idx < unat (ra_count ra) then Some ((unat (ra_offset ra) + unat idx) mod unat (ra_cap ra)) else None)"
proof (cases "idx < ra_cap ra")
  case False
  then have "\<not> unat idx < unat (ra_count ra)"
    using ra_inv_nat(2) [OF inv] by (simp add: word_less_nat_alt)
  with False show ?thesis by (simp add: rqc_rarray_get_def not_less)
next
  case True
  let ?off = "(idx + ra_offset ra) AND ra_mask ra"
  have off: "unat ?off = (unat idx + unat (ra_offset ra)) mod unat (ra_cap ra)"
    using ra_index [OF inv, of idx] by (simp add: add.commute)
  have e: "unat ((ra_offset ra + ra_count ra) AND ra_mask ra)
      = (unat (ra_offset ra) + unat (ra_count ra)) mod unat (ra_cap ra)"
    by (rule ra_index [OF inv])
  have z: "ra_count ra = 0 \<longleftrightarrow> unat (ra_count ra) = 0" by (simp add: unat_eq_zero)
  have i: "unat idx < unat (ra_cap ra)" using True by (simp add: word_less_nat_alt)
  have "rqc_rarray_check_range ra ?off \<longleftrightarrow> unat idx < unat (ra_count ra)"
    unfolding rqc_rarray_check_range_def Let_def word_le_nat_alt word_less_nat_alt e off z
    using range_check_nat [OF ra_inv_nat(3) [OF inv] ra_inv_nat(2) [OF inv] i] by (auto split: if_splits)
  moreover have "\<not> ra_cap ra \<le> idx" using True by (simp add: not_le)
  ultimately show ?thesis using off by (simp add: rqc_rarray_get_def Let_def add.commute)
qed

lemma unat_Suc_count: "ra_inv ra \<Longrightarrow> unat (ra_count ra + 1) = Suc (unat (ra_count ra))"
  using ra_inv_nat [of ra] by (simp add: unat_word_ariths)

lemma not_full_nat: "\<not> ra_cap ra \<le> ra_count ra \<longleftrightarrow> unat (ra_count ra) < unat (ra_cap ra)"
  by (simp add: word_le_nat_alt not_le)

lemma mod_neq_in_window:
  assumes "i < n" "n < (c :: nat)"
  shows "(a + i) mod c \<noteq> (a + n) mod c"
proof
  assume "(a + i) mod c = (a + n) mod c"
  then have "c dvd (a + n) - (a + i)"
    by (metis mod_eq_dvd_iff_nat add_le_cancel_left assms(1) less_imp_le)
  with assms show False by (auto dest: dvd_imp_le)
qed

lemma rqc_rarray_push_spec:
  assumes inv: "ra_inv ra" and nf: "\<not> rqc_rarray_full ra"
  shows "\<exists>slot ra'. rqc_rarray_push ra = (Some slot, ra') \<and> ra_inv (ra_store ra' slot x) \<and>
    ra_cap ra' = ra_cap ra \<and> ra_items (ra_store ra' slot x) = ra_items ra @ [Some x]"
proof -
  let ?c = "unat (ra_cap ra)" and ?n = "unat (ra_count ra)" and ?o = "unat (ra_offset ra)"
  let ?s = "unat ((ra_offset ra + ra_count ra) AND ra_mask ra)"
  let ?ra = "ra_store (ra\<lparr>ra_count := ra_count ra + 1\<rparr>) ?s x"
  note c = ra_inv_nat [OF inv] and s = ra_index [OF inv, of "ra_count ra"]
  have n: "?n < ?c" using nf by (simp add: rqc_rarray_full_def word_le_nat_alt)
  have "ra_inv ?ra"
    using inv n by (simp add: ra_inv_def ra_store_def word_le_nat_alt unat_Suc_count [OF inv])
  moreover have "ra_items ?ra = ra_items ra @ [Some x]"
  proof (rule nth_equalityI)
    fix i assume "i < length (ra_items ?ra)"
    then have i: "i \<le> ?n" by (simp add: ra_store_def unat_Suc_count [OF inv])
    show "ra_items ?ra ! i = (ra_items ra @ [Some x]) ! i"
      using i n c s mod_neq_in_window [of i ?n ?c ?o]
      by (auto simp: ra_items_nth nth_append ra_store_def unat_Suc_count [OF inv] le_less)
  qed (simp add: ra_store_def unat_Suc_count [OF inv])
  moreover have "rqc_rarray_push ra = (Some ?s, ra\<lparr>ra_count := ra_count ra + 1\<rparr>)"
    using nf by (simp add: rqc_rarray_push_def rqc_rarray_full_def Let_def)
  ultimately show ?thesis by (metis rqc_rarray.select_convs(3) rqc_rarray.surjective rqc_rarray.update_convs(4))
qed

lemma rqc_rarray_push_front_spec:
  assumes inv: "ra_inv ra" and nf: "\<not> rqc_rarray_full ra"
  shows "\<exists>slot ra'. rqc_rarray_push_front ra = (Some slot, ra') \<and> ra_inv (ra_store ra' slot x) \<and>
    ra_cap ra' = ra_cap ra \<and> ra_items (ra_store ra' slot x) = Some x # ra_items ra"
proof -
  let ?c = "unat (ra_cap ra)" and ?n = "unat (ra_count ra)" and ?o = "unat (ra_offset ra)"
  let ?w = "(ra_offset ra - 1) AND ra_mask ra"
  let ?ra' = "ra\<lparr>ra_count := ra_count ra + 1, ra_offset := ?w\<rparr>"
  let ?ra = "ra_store ?ra' (unat ?w) x"
  note c = ra_inv_nat [OF inv] and w = ra_index_pred [OF inv]
  have n: "?n < ?c" using nf by (simp add: rqc_rarray_full_def word_le_nat_alt)
  have wc: "unat ?w < ?c" using c w by simp
  have step: "(unat ?w + Suc i) mod ?c = (?o + i) mod ?c" for i
  proof -
    have "(unat ?w + Suc i) mod ?c = (?o + (?c - 1) + Suc i) mod ?c" by (simp only: w mod_add_left_eq)
    also have "\<dots> = (?o + i + ?c) mod ?c" using c(1) by (simp add: ac_simps)
    finally show ?thesis by simp
  qed
  have "ra_inv ?ra"
    using inv n wc by (simp add: ra_inv_def ra_store_def word_le_nat_alt word_less_nat_alt unat_Suc_count [OF inv])
  moreover have "ra_items ?ra = Some x # ra_items ra"
  proof (rule nth_equalityI)
    fix i assume "i < length (ra_items ?ra)"
    then have i: "i \<le> ?n" by (simp add: ra_store_def unat_Suc_count [OF inv])
    show "ra_items ?ra ! i = (Some x # ra_items ra) ! i"
    proof (cases i)
      case 0
      then show ?thesis using wc c by (simp add: ra_items_nth ra_store_def unat_Suc_count [OF inv])
    next
      case (Suc j)
      then have "(?o + j) mod ?c \<noteq> unat ?w"
        using i n mod_neq_in_window [of 0 i ?c "unat ?w"] wc step [of j] by auto
      with Suc i show ?thesis
        by (simp add: ra_items_nth ra_store_def unat_Suc_count [OF inv] step [simplified])
    qed
  qed (simp add: ra_store_def unat_Suc_count [OF inv])
  moreover have "rqc_rarray_push_front ra = (Some (unat ?w), ?ra')"
    using nf by (simp add: rqc_rarray_push_front_def rqc_rarray_full_def Let_def)
  moreover have "ra_cap ?ra' = ra_cap ra" by simp
  ultimately show ?thesis by blast
qed

lemma unat_pred_count: "ra_count ra \<noteq> 0 \<Longrightarrow> unat (ra_count ra - 1) = unat (ra_count ra) - 1"
  by (rule unat_minus_one)

lemma rqc_rarray_pop_front_spec:
  assumes inv: "ra_inv ra"
  shows "case rqc_rarray_pop_front ra of (ok, ra') \<Rightarrow>
    ra_inv ra' \<and> (ok \<longleftrightarrow> ra_items ra \<noteq> []) \<and> ra_cap ra' = ra_cap ra \<and> ra_items ra' = tl (ra_items ra)"
proof (cases "ra_count ra = 0")
  case True
  then show ?thesis using inv by (simp add: rqc_rarray_pop_front_def ra_items_def)
next
  case False
  let ?ra = "ra\<lparr>ra_offset := (ra_offset ra + 1) AND ra_mask ra, ra_count := ra_count ra - 1\<rparr>"
  note c = ra_inv_nat [OF inv] and o = ra_index [OF inv, of 1] and n = unat_pred_count [OF False]
  have "ra_inv ?ra" using inv c o n
    by (simp add: ra_inv_def word_le_nat_alt word_less_nat_alt)
  moreover have "ra_items ?ra = tl (ra_items ra)"
    using o n by (intro nth_equalityI) (auto simp: ra_items_nth nth_tl mod_add_left_eq)
  moreover have "ra_items ra \<noteq> []" using False by (simp add: ra_items_def unat_eq_zero)
  ultimately show ?thesis using False by (simp add: rqc_rarray_pop_front_def)
qed

lemma rqc_rarray_pop_from_spec:
  assumes inv: "ra_inv ra"
  shows "case rqc_rarray_pop_from ra idx of (ok, ra') \<Rightarrow>
    ra_inv ra' \<and> (ok \<longleftrightarrow> unat idx < length (ra_items ra)) \<and> ra_cap ra' = ra_cap ra \<and>
    ra_items ra' = take (unat idx) (ra_items ra)"
  using inv
  by (auto simp: rqc_rarray_pop_from_def ra_inv_def word_le_nat_alt ra_items_def take_map not_le min_def
      split: if_splits intro!: nth_equalityI)

lemma rqc_rarray_pop_back_spec:
  assumes inv: "ra_inv ra"
  shows "case rqc_rarray_pop_back ra of (ok, ra') \<Rightarrow>
    ra_inv ra' \<and> (ok \<longleftrightarrow> ra_items ra \<noteq> []) \<and> ra_cap ra' = ra_cap ra \<and> ra_items ra' = butlast (ra_items ra)"
proof (cases "ra_count ra = 0")
  case True
  then show ?thesis using inv by (simp add: rqc_rarray_pop_back_def ra_items_def)
next
  case False
  note n = unat_pred_count [OF False]
  have "ra_items (ra\<lparr>ra_count := ra_count ra - 1\<rparr>) = butlast (ra_items ra)"
    using n by (intro nth_equalityI) (auto simp: ra_items_nth nth_butlast)
  moreover have "ra_items ra \<noteq> []" using False by (simp add: ra_items_def unat_eq_zero)
  ultimately show ?thesis using False inv n
    by (auto simp: rqc_rarray_pop_back_def ra_inv_def word_le_nat_alt intro: le_trans [OF diff_le_self])
qed

lemma rqc_rarray_create_spec:
  assumes "esize \<noteq> 0" "cap \<le> 0x8000000000000000"
    "unat (rqc_pow2_upper cap) * unat esize < 2 ^ 64"
  shows "\<exists>ra. rqc_rarray_create True cap esize = Some ra \<and> ra_inv ra \<and> ra_items ra = [] \<and>
    unat cap \<le> unat (ra_cap ra)"
proof -
  obtain k where k: "k \<le> 63" "rqc_pow2_upper cap = 2 ^ k" "unat cap \<le> 2 ^ k"
    using rqc_pow2_upper_spec [OF assms(2)] by blast
  have u: "unat (2 ^ k :: u64) = 2 ^ k" using k(1) by (rule unat_pow2)
  have nz: "(2 :: u64) ^ k \<noteq> 0"
  proof
    assume "(2 :: u64) ^ k = 0"
    with u have "(2 :: nat) ^ k = 0" by simp
    then show False by simp
  qed
  have "ra_slots (2 ^ k) esize = 2 ^ k"
    using assms(1,3) u by (simp add: ra_slots_def k(2) unat_word_ariths unat_eq_zero)
  then show ?thesis
    using assms(1) k nz u
    by (auto simp: rqc_rarray_create_def Let_def ra_inv_def ra_items_def word_less_nat_alt)
qed

text \<open>
  Resizing keeps the queue, provided the array is not both full and rotated; in that one
  case \<open>end\<close> equals \<open>offset\<close>, the first branch is taken, and its \<open>memcpy\<close> runs past the block.
\<close>

lemma resize_copies:
  assumes inv: "ra_inv ra" and ok: "unat (ra_count ra) < unat (ra_cap ra) \<or> ra_offset ra = 0"
    and len: "unat (ra_cap ra) \<le> length fresh"
  shows "\<exists>b. ra_relocate fresh ra = Some b \<and> length b = length fresh \<and>
    take (unat (ra_count ra)) b = ra_items ra"
proof -
  let ?c = "unat (ra_cap ra)" and ?n = "unat (ra_count ra)" and ?buf = "ra_buf ra"
  define off endw where "off = unat (ra_offset ra)" and "endw = (ra_offset ra + ra_count ra) AND ra_mask ra"
  note defs = ra_relocate_def Let_def off_def [symmetric] endw_def [symmetric]
  note c = ra_inv_nat [OF inv, folded off_def]
  have e: "unat endw = (off + ?n) mod ?c" unfolding endw_def off_def by (rule ra_index [OF inv])
  have e': "unat endw = (if off + ?n < ?c then off + ?n else off + ?n - ?c)"
    using c unfolding e by (intro mod_below_double) linarith
  show ?thesis
  proof (cases "endw \<ge> ra_offset ra")
    case True
    then have "off \<le> unat endw" by (simp add: word_le_nat_alt off_def)
    then have fit: "off + ?n \<le> ?c" using e' c ok by (auto simp: off_def split: if_splits)
    have "take ?n (take ?n (drop off ?buf) @ drop ?n fresh) = ra_items ra"
      using fit c by (intro nth_equalityI) (auto simp: ra_items_nth off_def mod_if)
    then show ?thesis
      using True fit c len by (simp add: defs copy_slots_def overwrite_def)
  next
    case False
    then have lt: "unat endw < off" by (simp add: word_le_nat_alt off_def)
    then have wrap: "?c \<le> off + ?n" "unat endw = off + ?n - ?c" using e' by (auto split: if_splits)
    let ?b = "drop off ?buf @ drop (?c - off) fresh"
    have b: "copy_slots fresh 0 ?buf off (?c - off) = Some ?b" and lb: "length ?b = length fresh"
      using c len by (simp_all add: copy_slots_def overwrite_def)
    let ?b2 = "overwrite ?b (?c - off) (take (unat endw) ?buf)"
    have b2: "copy_slots ?b (?c - off) ?buf 0 (unat endw) = Some ?b2"
      using lb c len lt by (simp add: copy_slots_def)
    have l2: "length ?b2 = length fresh" using lb c len lt by (subst length_overwrite) auto
    have "take ?n ?b2 = ra_items ra"
    proof (rule nth_equalityI)
      show "length (take ?n ?b2) = length (ra_items ra)" using l2 c len by simp
    next
      fix i assume "i < length (take ?n ?b2)"
      then have i: "i < ?n" "i < length fresh" using l2 by auto
      have "(off + i) mod ?c = (if off + i < ?c then off + i else off + i - ?c)"
        using c i by (intro mod_below_double) linarith
      then show "take ?n ?b2 ! i = ra_items ra ! i"
        using i c wrap lt lb len
        by (auto simp: ra_items_nth off_def [symmetric] nth_overwrite nth_append add.commute)
    qed
    with b b2 l2 False show ?thesis by (simp add: defs)
  qed
qed

lemma rqc_rarray_resize_grow:
  fixes ra :: "'e rqc_rarray"
  assumes inv: "ra_inv ra" and ok: "unat (ra_count ra) < unat (ra_cap ra) \<or> ra_offset ra = 0"
    and cap: "ra_cap ra < cap" "cap \<le> 0x8000000000000000"
    and es: "ra_esize ra \<noteq> 0" "unat (rqc_pow2_upper cap) * unat (ra_esize ra) < 2 ^ 64"
  shows "\<exists>ra'. rqc_rarray_resize True ra cap = Inr ra' \<and> ra_inv ra' \<and> ra_items ra' = ra_items ra \<and>
    unat cap \<le> unat (ra_cap ra')"
proof -
  obtain k where k: "k \<le> 63" "rqc_pow2_upper cap = 2 ^ k" "unat cap \<le> 2 ^ k"
    using rqc_pow2_upper_spec [OF cap(2)] by blast
  have u: "unat (2 ^ k :: u64) = 2 ^ k" using k(1) by (rule unat_pow2)
  then have nz: "(2 :: u64) ^ k \<noteq> 0" by (metis power_not_zero unat_0 zero_neq_numeral)
  have sl: "ra_slots (2 ^ k) (ra_esize ra) = 2 ^ k"
    using es u by (simp add: ra_slots_def k(2) unat_word_ariths unat_eq_zero)
  have lt: "unat (ra_cap ra) < unat cap" using cap(1) by (simp add: word_less_nat_alt)
  note c = ra_inv_nat [OF inv]
  have nz': "ra_cap ra \<noteq> 0" using c(1) by (simp add: unat_eq_zero [symmetric])
  have ord: "\<not> cap < ra_count ra" "\<not> cap \<le> ra_cap ra"
    using c(2) lt by (simp_all add: word_less_nat_alt word_le_nat_alt)
  let ?fresh = "replicate (2 ^ k) None :: 'e option list"
  have "unat (ra_cap ra) \<le> length ?fresh" using lt k(3) by simp
  from resize_copies [OF inv ok this] obtain b where b: "ra_relocate ?fresh ra = Some b"
    "length b = length ?fresh" "take (unat (ra_count ra)) b = ra_items ra" by blast
  let ?ra = "ra\<lparr>ra_buf := b, ra_cap := 2 ^ k, ra_mask := 2 ^ k - 1, ra_offset := 0\<rparr>"
  have "rqc_rarray_resize True ra cap = Inr ?ra"
    using ord nz nz' sl b(1) by (simp add: rqc_rarray_resize_def k(2) Let_def)
  moreover have "ra_inv ?ra"
    using k u b(2) lt c(2) by (auto simp: ra_inv_def word_le_nat_alt word_less_nat_alt)
  moreover have "ra_items ?ra = ra_items ra"
    unfolding b(3) [symmetric] using k u b(2) lt c(2)
    by (intro nth_equalityI) (auto simp: ra_items_nth)
  ultimately show ?thesis using k(3) u by (intro exI [of _ ?ra]) simp
qed

lemma rqc_rarray_resize_full_rotated:
  assumes inv: "ra_inv ra" and full: "rqc_rarray_full ra" and rot: "ra_offset ra \<noteq> 0"
    and cap: "ra_cap ra < cap" "cap \<le> 0x8000000000000000"
  shows "rqc_rarray_resize True ra cap = Inl Fault"
proof -
  note c = ra_inv_nat [OF inv]
  obtain k where k: "k \<le> 63" "rqc_pow2_upper cap = 2 ^ k"
    using rqc_pow2_upper_spec [OF cap(2)] by blast
  have nz: "(2 :: u64) ^ k \<noteq> 0" using unat_pow2 [OF k(1)] by (metis power_not_zero unat_0 zero_neq_numeral)
  have n: "unat (ra_count ra) = unat (ra_cap ra)"
    using full c(2) by (simp add: rqc_rarray_full_def word_le_nat_alt)
  have "unat (ra_offset ra + ra_count ra AND ra_mask ra) = unat (ra_offset ra)"
    using ra_index [OF inv, of "ra_count ra"] n c(3) by simp
  then have "ra_offset ra + ra_count ra AND ra_mask ra = ra_offset ra" by (simp only: word_unat_eq_iff)
  moreover have "0 < unat (ra_offset ra)" using rot by (simp add: unat_gt_0)
  moreover have "ra_cap ra \<noteq> 0" using c(1) by (simp add: unat_eq_zero [symmetric])
  moreover have "\<not> cap < ra_count ra" "\<not> cap \<le> ra_cap ra"
    using c(2) cap(1) by (simp_all add: word_less_nat_alt word_le_nat_alt)
  ultimately show ?thesis
    using n c(4) nz by (simp add: rqc_rarray_resize_def ra_relocate_def k(2) Let_def copy_slots_def)
qed

subsection \<open>The contract\<close>

text \<open>
  What the callers rely on: a queue of bounded length whose newest element is in front,
  which can drop its oldest element, be cut at an index, and be read at an index.
\<close>

locale bounded_deque =
  fixes inv :: "'d \<Rightarrow> bool" and items :: "'d \<Rightarrow> 'a list" and capacity :: "'d \<Rightarrow> nat"
    and full :: "'d \<Rightarrow> bool" and put_front :: "'d \<Rightarrow> 'a \<Rightarrow> 'd option"
    and drop_back :: "'d \<Rightarrow> 'd" and cut :: "'d \<Rightarrow> nat \<Rightarrow> 'd" and at :: "'d \<Rightarrow> nat \<Rightarrow> 'a option"
  assumes cap_pos: "inv d \<Longrightarrow> 0 < capacity d"
    and cap_bound: "inv d \<Longrightarrow> length (items d) \<le> capacity d"
    and full_iff: "inv d \<Longrightarrow> full d \<longleftrightarrow> length (items d) = capacity d"
    and put_front_ok: "inv d \<Longrightarrow> \<not> full d \<Longrightarrow>
      \<exists>d'. put_front d x = Some d' \<and> inv d' \<and> items d' = x # items d \<and> capacity d' = capacity d"
    and drop_back_ok: "inv d \<Longrightarrow>
      inv (drop_back d) \<and> items (drop_back d) = butlast (items d) \<and> capacity (drop_back d) = capacity d"
    and cut_ok: "inv d \<Longrightarrow> i < length (items d) \<Longrightarrow>
      inv (cut d i) \<and> items (cut d i) = take i (items d) \<and> capacity (cut d i) = capacity d"
    and at_ok: "inv d \<Longrightarrow> i < length (items d) \<Longrightarrow> at d i = Some (items d ! i)"
begin

text \<open>Making room by dropping the oldest element keeps the most recent ones.\<close>

lemma put_latest:
  assumes "inv d"
  shows "\<exists>d'. put_front (if full d then drop_back d else d) x = Some d' \<and> inv d' \<and>
    items d' = take (capacity d) (x # items d) \<and> capacity d' = capacity d"
proof (cases "full d")
  case False
  then have "length (items d) < capacity d" using assms cap_bound full_iff le_neq_implies_less by blast
  then have "take (capacity d) (x # items d) = x # items d" by (intro take_all) simp
  then show ?thesis using put_front_ok [OF assms False, of x] False by auto
next
  case True
  let ?d = "drop_back d"
  have len: "length (items d) = capacity d" using True assms full_iff by simp
  have d: "inv ?d" "items ?d = butlast (items d)" "capacity ?d = capacity d" using drop_back_ok [OF assms] by auto
  then have "\<not> full ?d" using full_iff [of ?d] len cap_pos [OF assms] by simp
  from put_front_ok [OF d(1) this, of x] show ?thesis
    using True d len cap_pos [OF assms] by (auto simp: take_Cons' butlast_conv_take)
qed

end

definition ra_live :: "'e rqc_rarray \<Rightarrow> bool" where
  "ra_live ra \<longleftrightarrow> ra_inv ra \<and> None \<notin> set (ra_items ra)"

definition ra_entries :: "'e rqc_rarray \<Rightarrow> 'e list" where
  "ra_entries ra = map the (ra_items ra)"

definition ra_put_front :: "'e rqc_rarray \<Rightarrow> 'e \<Rightarrow> 'e rqc_rarray option" where
  "ra_put_front ra x =
     (case rqc_rarray_push_front ra of (None, _) \<Rightarrow> None | (Some slot, ra') \<Rightarrow> Some (ra_store ra' slot x))"

definition ra_at :: "'e rqc_rarray \<Rightarrow> nat \<Rightarrow> 'e option" where
  "ra_at ra i = (case rqc_rarray_get ra (of_nat i) of None \<Rightarrow> None | Some slot \<Rightarrow> ra_buf ra ! slot)"

lemma length_ra_entries [simp]: "length (ra_entries ra) = unat (ra_count ra)"
  by (simp add: ra_entries_def)

lemma index_small: "ra_inv ra \<Longrightarrow> i < unat (ra_count ra) \<Longrightarrow> unat (of_nat i :: u64) = i"
  using ra_inv_nat [of ra] by (simp add: unat_of_nat)

interpretation ring: bounded_deque ra_live ra_entries "\<lambda>ra. unat (ra_cap ra)" rqc_rarray_full
  ra_put_front "\<lambda>ra. snd (rqc_rarray_pop_back ra)" "\<lambda>ra i. snd (rqc_rarray_pop_from ra (of_nat i))" ra_at
proof unfold_locales
  fix ra :: "'e rqc_rarray" and x :: 'e and i :: nat
  assume live: "ra_live ra"
  then have inv: "ra_inv ra" by (simp add: ra_live_def)
  show "0 < unat (ra_cap ra)" "length (ra_entries ra) \<le> unat (ra_cap ra)"
    using ra_inv_nat [OF inv] by simp_all
  then show "rqc_rarray_full ra \<longleftrightarrow> length (ra_entries ra) = unat (ra_cap ra)"
    by (auto simp: rqc_rarray_full_def word_le_nat_alt)
  { assume "\<not> rqc_rarray_full ra"
    from rqc_rarray_push_front_spec [OF inv this, of x] live
    show "\<exists>d'. ra_put_front ra x = Some d' \<and> ra_live d' \<and> ra_entries d' = x # ra_entries ra \<and>
        unat (ra_cap d') = unat (ra_cap ra)"
      by (auto simp: ra_put_front_def ra_live_def ra_entries_def) (simp add: ra_store_def) }
  show "ra_live (snd (rqc_rarray_pop_back ra)) \<and>
      ra_entries (snd (rqc_rarray_pop_back ra)) = butlast (ra_entries ra) \<and>
      unat (ra_cap (snd (rqc_rarray_pop_back ra))) = unat (ra_cap ra)"
    using rqc_rarray_pop_back_spec [OF inv] live
    by (auto simp: ra_live_def ra_entries_def map_butlast split: prod.splits dest: in_set_butlastD)
  assume i: "i < length (ra_entries ra)"
  then have u: "unat (of_nat i :: u64) = i" using index_small [OF inv] by simp
  show "ra_live (snd (rqc_rarray_pop_from ra (of_nat i))) \<and>
      ra_entries (snd (rqc_rarray_pop_from ra (of_nat i))) = take i (ra_entries ra) \<and>
      unat (ra_cap (snd (rqc_rarray_pop_from ra (of_nat i)))) = unat (ra_cap ra)"
    using rqc_rarray_pop_from_spec [OF inv, of "of_nat i"] live u
    by (auto simp: ra_live_def ra_entries_def take_map split: prod.splits dest: in_set_takeD)
  have "ra_items ra ! i \<noteq> None" using live i by (auto simp: ra_live_def in_set_conv_nth)
  then show "ra_at ra i = Some (ra_entries ra ! i)"
    using i u by (auto simp: ra_at_def rqc_rarray_get_spec [OF inv] ra_entries_def ra_items_nth)
qed


subsection \<open>Properties\<close>

text \<open>
  C10: reading, pushing and popping a ring array behave as on a double-ended queue: \<open>get\<close> finds
  the element at an index exactly when the index is below the size; a push at either end
  fails exactly when the array is full and otherwise stores at that end; the pops remove the
  first, the last, or every element from an index on, and report whether there was one.
\<close>

theorem rqc_rarray_refines_deque:
  assumes "ra_inv ra"
  shows "map_option (\<lambda>slot. ra_buf ra ! slot) (rqc_rarray_get ra idx) =
      (if unat idx < length (ra_items ra) then Some (ra_items ra ! unat idx) else None) \<and>
    (case rqc_rarray_push ra of
        (None, ra') \<Rightarrow> length (ra_items ra) = unat (ra_cap ra) \<and> ra' = ra
      | (Some slot, ra') \<Rightarrow> length (ra_items ra) < unat (ra_cap ra) \<and> ra_inv (ra_store ra' slot x) \<and>
          ra_items (ra_store ra' slot x) = ra_items ra @ [Some x]) \<and>
    (case rqc_rarray_push_front ra of
        (None, ra') \<Rightarrow> length (ra_items ra) = unat (ra_cap ra) \<and> ra' = ra
      | (Some slot, ra') \<Rightarrow> length (ra_items ra) < unat (ra_cap ra) \<and> ra_inv (ra_store ra' slot x) \<and>
          ra_items (ra_store ra' slot x) = Some x # ra_items ra) \<and>
    (case rqc_rarray_pop_front ra of (ok, ra') \<Rightarrow>
      ra_inv ra' \<and> (ok \<longleftrightarrow> ra_items ra \<noteq> []) \<and> ra_items ra' = tl (ra_items ra)) \<and>
    (case rqc_rarray_pop_back ra of (ok, ra') \<Rightarrow>
      ra_inv ra' \<and> (ok \<longleftrightarrow> ra_items ra \<noteq> []) \<and> ra_items ra' = butlast (ra_items ra)) \<and>
    (case rqc_rarray_pop_from ra idx of (ok, ra') \<Rightarrow>
      ra_inv ra' \<and> (ok \<longleftrightarrow> unat idx < length (ra_items ra)) \<and> ra_items ra' = take (unat idx) (ra_items ra))"
    (is "?get \<and> ?push \<and> ?push_front \<and> ?pop_front \<and> ?pop_back \<and> ?pop_from")
proof (intro conjI)
  show ?get using rqc_rarray_get_spec [OF assms, of idx] by (simp add: ra_items_nth)
  have full: "rqc_rarray_full ra \<longleftrightarrow> length (ra_items ra) = unat (ra_cap ra)"
    "length (ra_items ra) \<le> unat (ra_cap ra)"
    using ra_inv_nat [OF assms] by (auto simp: rqc_rarray_full_def word_le_nat_alt)
  show ?push
  proof (cases "rqc_rarray_full ra")
    case True
    then show ?thesis using full by (simp add: rqc_rarray_push_def rqc_rarray_full_def)
  qed (use full rqc_rarray_push_spec [OF assms, of x] in auto)
  show ?push_front
  proof (cases "rqc_rarray_full ra")
    case True
    then show ?thesis using full by (simp add: rqc_rarray_push_front_def rqc_rarray_full_def)
  qed (use full rqc_rarray_push_front_spec [OF assms, of x] in auto)
qed (use rqc_rarray_pop_front_spec [OF assms] rqc_rarray_pop_back_spec [OF assms]
    rqc_rarray_pop_from_spec [OF assms, of idx] in \<open>auto split: prod.splits\<close>)

definition ra_example :: "nat rqc_rarray" where
  "ra_example = \<lparr>ra_buf = [Some 5, None, None, Some 4], ra_esize = 8, ra_cap = 4, ra_count = 2, ra_offset = 3, ra_mask = 3\<rparr>"

lemma ra_example_ok: "ra_inv ra_example" "ra_items ra_example = [Some 4, Some 5]"
  by (auto simp: ra_inv_def ra_example_def ra_items_def upt_rec intro!: exI [of _ 2])

theorem rqc_rarray_refines_deque_witness:
  "ra_items (snd (rqc_rarray_pop_front ra_example)) = [Some 5] \<and>
   ra_items (snd (rqc_rarray_pop_from ra_example 1)) = [Some 4]"
  using rqc_rarray_refines_deque [OF ra_example_ok(1), of 1 6]
  by (auto simp: ra_example_ok(2) split: prod.splits)

text \<open>
  Growing a well-formed array that is not both full and rotated succeeds (when memory is
  available and the size does not overflow), keeps its elements in order and gives at least
  the requested capacity.
\<close>

theorem rqc_rarray_resize_correct:
  assumes "ra_inv ra" and "\<not> rqc_rarray_full ra \<or> ra_offset ra = 0"
    and "ra_cap ra < cap" and "cap \<le> 0x8000000000000000"
    and "ra_esize ra \<noteq> 0" and "unat (rqc_pow2_upper cap) * unat (ra_esize ra) < 2 ^ 64"
  shows "\<exists>ra'. rqc_rarray_resize True ra cap = Inr ra' \<and> ra_inv ra' \<and> ra_items ra' = ra_items ra \<and>
    unat cap \<le> unat (ra_cap ra')"
  using assms by (intro rqc_rarray_resize_grow) (auto simp: rqc_rarray_full_def word_le_nat_alt)

theorem rqc_rarray_resize_correct_witness:
  "\<exists>ra'. rqc_rarray_resize True ra_example 6 = Inr ra' \<and> ra_items ra' = [Some 4, Some 5] \<and> 6 \<le> unat (ra_cap ra')"
proof -
  have "rqc_pow2_upper 6 = 8" by (simp add: rqc_pow2_upper_def pow2_loop.simps)
  then show ?thesis
    using rqc_rarray_resize_correct [OF ra_example_ok(1), of 6]
    by (auto simp: ra_example_ok(2)) (auto simp: ra_example_def rqc_rarray_full_def)
qed

text \<open>
  C11: growing an array that is full and whose first element is not in slot 0 copies past the
  end of the old block: \<open>end\<close> equals \<open>offset\<close>, so the branch for a contiguous array is taken.
\<close>

theorem rqc_rarray_resize_overrun:
  assumes "ra_inv ra" and "rqc_rarray_full ra" and "ra_offset ra \<noteq> 0"
    and "ra_cap ra < cap" and "cap \<le> 0x8000000000000000"
  shows "rqc_rarray_resize True ra cap = Inl Fault"
  using assms by (rule rqc_rarray_resize_full_rotated)

theorem rqc_rarray_resize_overrun_witness:
  "rqc_rarray_resize True
     \<lparr>ra_buf = [Some 5, Some (6 :: nat), Some 7, Some 4], ra_esize = 8, ra_cap = 4, ra_count = 4, ra_offset = 3, ra_mask = 3\<rparr> 6
   = Inl Fault"
  by (rule rqc_rarray_resize_overrun)
    (auto simp: ra_inv_def rqc_rarray_full_def intro!: exI [of _ 2])

end
