(* ===== verification/Rqc_Vint.thy ===== *)
theory Rqc_Vint
  imports Rqc_Prelude
begin

text \<open>
  Variable-length integers: \<open>src/common/utils/vint/rqc_variable_len_int.{h,c}\<close> and the
  incremental parser \<open>rqc_discrete_int_parser.c\<close>.

  The 2-bit and length macros, the two encoders (\<open>rqc_vint_write\<close>, used by the frame
  generators, and \<open>rqc_put_varint\<close>, used by the transport parameters), the decoder
  \<open>rqc_vint_read\<close> and the byte-at-a-time decoder \<open>rqc_discrete_vint_parse\<close>. The lemmas
  show that the two encoders agree, that decoding inverts encoding, and that the decoder
  never looks past \<open>end\<close>.
\<close>

subsection \<open>The macros of the header\<close>

text \<open>\<open>rqc_vint_get_2bit(val)\<close> compares the C value of its argument, whatever its type.\<close>

definition rqc_vint_get_2bit :: "int \<Rightarrow> nat" where
  "rqc_vint_get_2bit val =
     (if val \<ge> 2 ^ 6 then 1 else 0) + (if val \<ge> 2 ^ 14 then 1 else 0) + (if val \<ge> 2 ^ 30 then 1 else 0)"

definition rqc_vint_usable_bits :: "nat \<Rightarrow> nat" where
  "rqc_vint_usable_bits two_bit = 2 ^ (3 + two_bit) - 2"

definition rqc_vint_len :: "nat \<Rightarrow> nat" where
  "rqc_vint_len two_bit = 2 ^ two_bit"

definition rqc_vint_len_by_val :: "int \<Rightarrow> nat" where
  "rqc_vint_len_by_val val = 2 ^ rqc_vint_get_2bit val"

text \<open>
  \<open>rqc_vint_write(dst, val, two_bit, len)\<close> builds \<open>buf_\<close>, swaps its bytes and copies the
  last \<open>len\<close> of the eight bytes to \<open>dst\<close>. \<open>rqc_vint_bytes\<close> is what it copies.
\<close>

definition rqc_vint_bytes :: "u64 \<Rightarrow> nat \<Rightarrow> nat \<Rightarrow> byte list" where
  "rqc_vint_bytes val two_bit len =
     (let buf = val OR push_bit (rqc_vint_usable_bits two_bit) (of_nat two_bit)
      in drop (8 - len) (be_bytes 8 buf))"

definition rqc_vint_write :: "byte list \<Rightarrow> nat \<Rightarrow> u64 \<Rightarrow> nat \<Rightarrow> nat \<Rightarrow> byte list option" where
  "rqc_vint_write buf dst val two_bit len =
     map_option fst (wr_mem (rqc_vint_bytes val two_bit len) (buf, dst))"

text \<open>
  The idiom \<open>rqc_vint_write(dst, v, bits, rqc_vint_len(bits)); dst += rqc_vint_len(bits);\<close>
  and the store \<open>*dst++ = b\<close>, through a cursor.
\<close>

definition wr_vint :: "u64 \<Rightarrow> nat \<Rightarrow> wcur \<Rightarrow> wcur option" where
  "wr_vint val bits c = wr_mem (rqc_vint_bytes val bits (rqc_vint_len bits)) c"

definition wr_u8 :: "byte \<Rightarrow> wcur \<Rightarrow> wcur option" where
  "wr_u8 b c = wr_mem [b] c"

subsection \<open>Decoding\<close>

text \<open>
  \<open>rqc_vint_read(p, end, valp)\<close>: \<open>None\<close> is the return value \<open>-1\<close>, \<open>Some (v, n)\<close> stores
  \<open>v\<close> and returns \<open>n\<close>. In the two- and four-byte cases C computes in \<open>int\<close> and converts the
  result to \<open>uint64_t\<close>.
\<close>

definition vint_val2 :: "byte \<Rightarrow> byte \<Rightarrow> u64" where
  "vint_val2 b0 b1 = scast (push_bit 8 ((ucast b0 :: u32) AND 63) OR ucast b1)"

definition vint_val4 :: "byte \<Rightarrow> byte \<Rightarrow> byte \<Rightarrow> byte \<Rightarrow> u64" where
  "vint_val4 b0 b1 b2 b3 =
     scast (push_bit 24 ((ucast b0 :: u32) AND 63) OR push_bit 16 (ucast b1) OR push_bit 8 (ucast b2) OR ucast b3)"

definition rqc_vint_read :: "byte list \<Rightarrow> nat \<Rightarrow> nat \<Rightarrow> (u64 \<times> nat) option" where
  "rqc_vint_read buf p end =
     (if p \<ge> end then None
      else if drop_bit 6 (buf ! p) = 0 then Some (ucast (buf ! p), 1)
      else if drop_bit 6 (buf ! p) = 1 then
        (if p + 1 \<ge> end then None
         else Some (vint_val2 (buf ! p) (buf ! (p + 1)), 2))
      else if drop_bit 6 (buf ! p) = 2 then
        (if p + 3 \<ge> end then None
         else Some (vint_val4 (buf ! p) (buf ! (p + 1)) (buf ! (p + 2)) (buf ! (p + 3)), 4))
      else
        (if p + 7 \<ge> end then None
         else Some (be_value (take 8 (drop p buf)) AND (push_bit 62 1 - 1), 8)))"

definition rqc_get_varint_len :: "byte \<Rightarrow> nat" where
  "rqc_get_varint_len b = 2 ^ unat (drop_bit 6 b)"

definition rqc_get_varint_fb :: "byte \<Rightarrow> u64" where
  "rqc_get_varint_fb b = ucast (b AND 63)"

subsection \<open>The second encoder\<close>

definition rqc_put_varint_len :: "u64 \<Rightarrow> nat" where
  "rqc_put_varint_len n =
     (if n < 64 then 1 else if n < 16384 then 2 else if n < 1073741824 then 4 else 8)"

definition rqc_put_uint16be :: "u64 \<Rightarrow> byte list" where
  "rqc_put_uint16be n = be_bytes 2 n"

definition rqc_put_uint32be :: "u64 \<Rightarrow> byte list" where
  "rqc_put_uint32be n = be_bytes 4 n"

definition rqc_put_uint64be :: "u64 \<Rightarrow> byte list" where
  "rqc_put_uint64be n = be_bytes 8 n"

text \<open>\<open>*p |= m\<close> on the first byte just written.\<close>

definition or_first :: "byte \<Rightarrow> byte list \<Rightarrow> byte list" where
  "or_first m bs = (case bs of [] \<Rightarrow> [] | b # t \<Rightarrow> (b OR m) # t)"

text \<open>
  \<open>rqc_put_varint\<close> writes at \<open>p\<close> and returns the advanced pointer, or \<open>NULL\<close> for a value of
  more than 62 bits. A pointer is \<open>Some (buffer, offset)\<close> or \<open>None\<close> for \<open>NULL\<close>; the outer
  \<open>option\<close> is \<open>None\<close> for a store through \<open>NULL\<close> or outside the buffer.
\<close>

definition rqc_put_varint_bytes :: "u64 \<Rightarrow> byte list option" where
  "rqc_put_varint_bytes n =
     (if n < 64 then Some [ucast n]
      else if n < 16384 then Some (or_first 0x40 (rqc_put_uint16be n))
      else if n < 1073741824 then Some (or_first 0x80 (rqc_put_uint32be n))
      else if n \<ge> 4611686018427387904 then None
      else Some (or_first 0xc0 (rqc_put_uint64be n)))"

definition rqc_put_varint :: "wcur option \<Rightarrow> u64 \<Rightarrow> wcur option option" where
  "rqc_put_varint p n =
     (case rqc_put_varint_bytes n of
        None \<Rightarrow> Some None
      | Some bs \<Rightarrow> (case p of None \<Rightarrow> None | Some c \<Rightarrow> map_option Some (wr_mem bs c)))"

subsection \<open>The incremental decoders\<close>

text \<open>
  \<open>rqc_discrete_int_pctx_t\<close> and the two parsers of \<open>rqc_discrete_int_parser.c\<close>. The input
  buffer \<open>(p, sz)\<close> is the list of its bytes; the result is the returned count, the context
  and \<open>*fin\<close>.
\<close>

record rqc_discrete_int_pctx =
  vi :: u64
  left :: nat

definition rqc_discrete_int_pctx_clear :: "rqc_discrete_int_pctx \<Rightarrow> rqc_discrete_int_pctx" where
  "rqc_discrete_int_pctx_clear pctx = pctx\<lparr>vi := 0, left := 0\<rparr>"

definition shift_in :: "u64 \<Rightarrow> byte list \<Rightarrow> u64" where
  "shift_in v bs = foldl (\<lambda>acc b. push_bit 8 acc + ucast b) v bs"

definition rqc_discrete_vint_parse ::
  "byte list \<Rightarrow> rqc_discrete_int_pctx \<Rightarrow> nat \<times> rqc_discrete_int_pctx \<times> bool" where
  "rqc_discrete_vint_parse p pctx =
     (case p of
        [] \<Rightarrow> (0, pctx, False)
      | b # rest \<Rightarrow>
          (let first = (left pctx = 0);
               pctx1 = (if first
                        then pctx\<lparr>vi := rqc_get_varint_fb b, left := rqc_get_varint_len b - 1\<rparr>
                        else pctx);
               pos = (if first then rest else p);
               cnt = min (left pctx1) (length pos);
               pctx2 = pctx1\<lparr>vi := shift_in (vi pctx1) (take cnt pos), left := left pctx1 - cnt\<rparr>
           in ((if first then 1 else 0) + cnt, pctx2, left pctx2 = 0)))"

definition rqc_fixed_len_int_parse ::
  "byte list \<Rightarrow> nat \<Rightarrow> rqc_discrete_int_pctx \<Rightarrow> nat \<times> rqc_discrete_int_pctx \<times> bool" where
  "rqc_fixed_len_int_parse p len pctx =
     (if p = [] then (0, pctx, False)
      else let pctx1 = (if left pctx = 0 then pctx\<lparr>left := len\<rparr> else pctx);
               cnt = min (left pctx1) (length p);
               pctx2 = pctx1\<lparr>vi := shift_in (vi pctx1) (take cnt p), left := left pctx1 - cnt\<rparr>
           in (cnt, pctx2, left pctx2 = 0))"

subsection \<open>Lemmas: encoding and decoding\<close>

lemma rqc_vint_len_simps [simp]:
  "rqc_vint_len 0 = 1" "rqc_vint_len 1 = 2" "rqc_vint_len (Suc 0) = 2" "rqc_vint_len 2 = 4" "rqc_vint_len 3 = 8"
  by (simp_all add: rqc_vint_len_def)

lemma rqc_vint_usable_bits_simps [simp]:
  "rqc_vint_usable_bits 0 = 6" "rqc_vint_usable_bits 1 = 14" "rqc_vint_usable_bits (Suc 0) = 14"
  "rqc_vint_usable_bits 2 = 30" "rqc_vint_usable_bits 3 = 62"
  by (simp_all add: rqc_vint_usable_bits_def)

lemma rqc_vint_get_2bit_le [simp]: "rqc_vint_get_2bit x \<le> 3"
  by (simp add: rqc_vint_get_2bit_def)

lemma two_bit_cases:
  assumes "b \<le> (3 :: nat)"
  obtains "b = 0" | "b = 1" | "b = 2" | "b = 3"
  using assms by linarith

lemma rqc_vint_bytes_eq:
  "b \<le> 3 \<Longrightarrow> rqc_vint_bytes v b (rqc_vint_len b)
     = be_bytes (rqc_vint_len b) (v OR push_bit (rqc_vint_usable_bits b) (of_nat b))"
  by (erule two_bit_cases) (simp_all add: rqc_vint_bytes_def Let_def)

lemma length_rqc_vint_bytes [simp, len_simps]:
  "b \<le> 3 \<Longrightarrow> length (rqc_vint_bytes v b (rqc_vint_len b)) = rqc_vint_len b"
  by (simp add: rqc_vint_bytes_eq)

lemma mask_6_u32: "(63 :: u32) = mask 6"
  by (simp add: mask_eq_exp_minus_1)

lemma mask_62_u64: "(push_bit 62 1 - 1 :: u64) = mask 62" "(4611686018427387903 :: u64) = mask 62"
  by (simp_all add: mask_eq_exp_minus_1 push_bit_eq_mult)

lemma vint_tag: "drop_bit 6 (ucast (drop_bit k w) :: byte) = ucast (take_bit 2 (drop_bit (k + 6) w))"
  for w :: u64
  by (rule bit_word_eqI) (auto simp: bit_simps ac_simps)

lemma vint_tag_0: "drop_bit 6 (ucast w :: byte) = ucast (take_bit 2 (drop_bit 6 w))" for w :: u64
  using vint_tag [of 0 w] by simp

lemma vint_value_2: "vint_val2 (ucast (drop_bit 8 w)) (ucast w) = take_bit 14 w"
  unfolding vint_val2_def by (rule bit_word_eqI) (auto simp: bit_simps mask_6_u32 min_def)

lemma vint_value_4:
  "vint_val4 (ucast (drop_bit 24 w)) (ucast (drop_bit 16 w)) (ucast (drop_bit 8 w)) (ucast w) = take_bit 30 w"
proof (rule bit_word_eqI)
  show "bit (vint_val4 (ucast (drop_bit 24 w)) (ucast (drop_bit 16 w)) (ucast (drop_bit 8 w)) (ucast w)) n
      = bit (take_bit 30 w) n" for n
    unfolding vint_val4_def by (cases "n < 16"; auto simp: bit_simps mask_6_u32 min_def)
qed

lemma byte_bit_lt: "bit (b :: byte) i \<Longrightarrow> i < 8"
  using bit_imp_le_length [of b i] by simp

text \<open>
  The general read-back law: any value that fits the usable bits of its tag, minimal
  encoding or not (the STREAM length field is always two bytes long).
\<close>

lemma rqc_vint_read_bytes:
  assumes b: "b \<le> 3" and v: "v < 2 ^ rqc_vint_usable_bits b"
    and at: "holds_at buf p (rqc_vint_bytes v b (rqc_vint_len b))"
    and e: "p + rqc_vint_len b \<le> end"
  shows "rqc_vint_read buf p end = Some (v, rqc_vint_len b)"
proof -
  define w where "w = v OR push_bit (rqc_vint_usable_bits b) (of_nat b :: u64)"
  have at': "holds_at buf p (be_bytes (rqc_vint_len b) w)"
    using at b by (simp add: rqc_vint_bytes_eq w_def)
  have tk: "take (rqc_vint_len b) (drop p buf) = be_bytes (rqc_vint_len b) w"
    using at' by (simp add: holds_at_def)
  have "rqc_vint_usable_bits b < 64"
    using b by (rule two_bit_cases) simp_all
  with v have lo: "take_bit (rqc_vint_usable_bits b) w = v"
    and hi: "drop_bit (rqc_vint_usable_bits b) w
           = drop_bit (rqc_vint_usable_bits b) (push_bit (rqc_vint_usable_bits b) (of_nat b))"
    unfolding w_def by (rule take_bit_or_push_bit, rule drop_bit_or_push_bit)
  from b show ?thesis
  proof (rule two_bit_cases)
    assume [simp]: "b = 0"
    have [simp]: "buf ! p = ucast w" using at' by (simp add: holds_at_Cons)
    have "\<forall>i\<ge>6. \<not> bit v i" using v less_power_iff_bits [of 6 v] by simp
    then have "n < 8" if "bit v n" for n using that by (cases "n < 8") auto
    moreover have "w = v" by (simp add: w_def)
    ultimately have "ucast (ucast w :: byte) = w"
      by (intro bit_word_eqI) (auto simp: bit_simps)
    with \<open>w = v\<close> show ?thesis
      using e hi by (simp add: rqc_vint_read_def vint_tag_0)
  next
    assume [simp]: "b = 1"
    have [simp]: "buf ! p = ucast (drop_bit 8 w)" "buf ! Suc p = ucast w"
      using at' by (simp_all add: holds_at_Cons)
    show ?thesis
      using e hi lo by (simp add: rqc_vint_read_def vint_tag vint_value_2)
  next
    assume [simp]: "b = 2"
    have "holds_at buf p [ucast (drop_bit 24 w), ucast (drop_bit 16 w), ucast (drop_bit 8 w), ucast w]"
      using at' by simp
    then have [simp]: "buf ! p = ucast (drop_bit 24 w)" "buf ! Suc p = ucast (drop_bit 16 w)"
      "buf ! (p + 2) = ucast (drop_bit 8 w)" "buf ! Suc (Suc p) = ucast (drop_bit 8 w)"
      "buf ! (p + 3) = ucast w"
      by (simp_all add: holds_at_Cons numeral_2_eq_2 numeral_3_eq_3)
    show ?thesis
      using e hi lo by (simp add: rqc_vint_read_def vint_tag vint_value_4)
  next
    assume [simp]: "b = 3"
    have [simp]: "buf ! p = ucast (drop_bit 56 w)"
      using at' by (simp add: holds_at_Cons)
    have "be_value (take 8 (drop p buf)) AND (push_bit 62 1 - 1) = v"
      using tk lo by (simp add: be_value_be_bytes mask_62_u64 flip: take_bit_eq_mask del: be_bytes_simps)
    then show ?thesis
      using e hi by (simp add: rqc_vint_read_def vint_tag)
  qed
qed

text \<open>The minimal encoding that every caller of \<open>rqc_vint_write\<close> with \<open>rqc_vint_get_2bit\<close> emits.\<close>

definition vint_enc :: "u64 \<Rightarrow> byte list" where
  "vint_enc v = (let bits = rqc_vint_get_2bit (uint v) in rqc_vint_bytes v bits (rqc_vint_len bits))"

lemma wr_vint_enc: "wr_vint v (rqc_vint_get_2bit (uint v)) c = wr_mem (vint_enc v) c"
  by (simp add: wr_vint_def vint_enc_def Let_def)

lemma length_vint_enc [simp, len_simps]: "length (vint_enc v) = rqc_vint_len (rqc_vint_get_2bit (uint v))"
  by (simp add: vint_enc_def Let_def)

lemma rqc_vint_get_2bit_uint:
  "rqc_vint_get_2bit (uint v) = (if v < 64 then 0 else if v < 16384 then 1 else if v < 1073741824 then 2 else 3)"
  for v :: u64
  by (auto simp: rqc_vint_get_2bit_def word_less_def not_le)

lemma vint_fits: "v < 2 ^ 62 \<Longrightarrow> v < 2 ^ rqc_vint_usable_bits (rqc_vint_get_2bit (uint v))" for v :: u64
  by (simp add: rqc_vint_get_2bit_uint)

lemma rqc_vint_read_enc [buf_simps]:
  "v < 2 ^ 62 \<Longrightarrow> holds_at buf p (vint_enc v) \<Longrightarrow> p + length (vint_enc v) \<le> end \<Longrightarrow>
   rqc_vint_read buf p end = Some (v, length (vint_enc v))"
  using rqc_vint_read_bytes [OF rqc_vint_get_2bit_le vint_fits, of v buf p "end"]
  by (simp add: vint_enc_def Let_def)

lemma vint_len_pos [simp]: "0 < rqc_vint_len b"
  by (simp add: rqc_vint_len_def)

lemma vint_enc_len_bounds: "1 \<le> length (vint_enc v)" "length (vint_enc v) \<le> 8"
  by (simp_all add: rqc_vint_get_2bit_uint)

text \<open>What a successful read tells: the number of bytes and the range of the value.\<close>

lemma rqc_vint_read_Some:
  assumes "rqc_vint_read buf p end = Some (v, n)"
  shows "n \<in> {1, 2, 4, 8}" "p + n \<le> end" "p < end"
  using assms by (auto simp: rqc_vint_read_def split: if_splits)

lemma rqc_vint_read_bound:
  assumes "rqc_vint_read buf p end = Some (v, n)"
  shows "v < 2 ^ 62"
proof -
  have "\<forall>i\<ge>62. \<not> bit v i"
    using assms by (auto simp: rqc_vint_read_def vint_val2_def vint_val4_def mask_62_u64 mask_6_u32
        bit_simps min_def dest!: byte_bit_lt split: if_splits)
  then show ?thesis using less_power_iff_bits [of 62 v] by simp
qed

text \<open>The decoder looks only at bytes before \<open>end\<close>.\<close>

lemma rqc_vint_read_local:
  assumes "take e buf = take e buf'" "e \<le> length buf" "e \<le> length buf'"
  shows "rqc_vint_read buf p e = rqc_vint_read buf' p e"
proof -
  have nth: "buf ! i = buf' ! i" if "i < e" for i
    using that assms(1) by (metis nth_take)
  have "take 8 (drop p buf) = take 8 (drop p buf')" if "p + 7 < e"
    using that assms(2,3) by (intro nth_equalityI) (auto simp: nth)
  then show ?thesis
    by (auto simp: rqc_vint_read_def nth)
qed

subsection \<open>The two encoders agree\<close>

lemma rqc_put_varint_len_eq: "rqc_put_varint_len n = rqc_vint_len_by_val (uint n)"
  by (simp add: rqc_put_varint_len_def rqc_vint_len_by_val_def rqc_vint_get_2bit_uint)

lemma ucast_or: "ucast (a OR b :: u64) = (ucast a OR ucast b :: byte)"
  by (rule bit_word_eqI) (auto simp: bit_simps)

lemma or_vanishing: "c = 0 \<Longrightarrow> a OR c = (a :: byte)"
  by simp

lemma rqc_put_varint_bytes_eq:
  "rqc_put_varint_bytes n = (if n < 2 ^ 62 then Some (vint_enc n) else None)"
  unfolding rqc_put_varint_bytes_def vint_enc_def rqc_vint_get_2bit_uint
  by (auto simp: rqc_vint_bytes_eq or_first_def rqc_put_uint16be_def rqc_put_uint32be_def
      rqc_put_uint64be_def ucast_or or_vanishing word_less_def word_le_def)

subsection \<open>The incremental decoder agrees with the one-shot decoder\<close>

text \<open>
  A caller that receives the bytes in pieces calls the parser once per piece and keeps the
  context. \<open>parse_chunks\<close> is that caller: the context and \<open>fin\<close> after the last piece.
\<close>

fun parse_chunks :: "rqc_discrete_int_pctx \<Rightarrow> byte list list \<Rightarrow> rqc_discrete_int_pctx \<times> bool" where
  "parse_chunks pctx [] = (pctx, False)"
| "parse_chunks pctx [c] = (case rqc_discrete_vint_parse c pctx of (_, pctx', fin) \<Rightarrow> (pctx', fin))"
| "parse_chunks pctx (c # cs) = (case rqc_discrete_vint_parse c pctx of (_, pctx', _) \<Rightarrow> parse_chunks pctx' cs)"

text \<open>The context once the non-empty prefix \<open>pre\<close> of an encoding of \<open>n\<close> bytes has been consumed.\<close>

definition pctx_after :: "nat \<Rightarrow> byte list \<Rightarrow> rqc_discrete_int_pctx" where
  "pctx_after n pre =
     \<lparr>vi = shift_in (rqc_get_varint_fb (hd pre)) (tl pre), left = n - length pre\<rparr>"

lemma shift_in_append: "shift_in v (a @ b) = shift_in (shift_in v a) b"
  by (simp add: shift_in_def)

lemma parse_first_chunk:
  assumes "c \<noteq> []" "left pctx = 0" "n = rqc_get_varint_len (hd c)" "length c \<le> n"
  shows "rqc_discrete_vint_parse c pctx = (length c, pctx_after n c, length c = n)"
  using assms
  by (cases c) (auto simp: rqc_discrete_vint_parse_def pctx_after_def Let_def min_def)

lemma parse_next_chunk:
  assumes "pre \<noteq> []" "length pre < n" "length pre + length c \<le> n"
  shows "rqc_discrete_vint_parse c (pctx_after n pre)
       = (length c, pctx_after n (pre @ c), c \<noteq> [] \<and> length pre + length c = n)"
  using assms
  by (cases c; cases pre) (auto simp: rqc_discrete_vint_parse_def pctx_after_def Let_def min_def shift_in_append)

lemma parse_next_chunks:
  assumes "pre \<noteq> []" "length pre < n" "length pre + length (concat cs) = n" "cs \<noteq> []" "last cs \<noteq> []"
  shows "parse_chunks (pctx_after n pre) cs = (pctx_after n (pre @ concat cs), True)"
  using assms
proof (induction cs arbitrary: pre)
  case (Cons c cs)
  show ?case
  proof (cases cs)
    case Nil
    with Cons.prems show ?thesis by (simp add: parse_next_chunk)
  next
    case (Cons d ds)
    have "0 < length (concat cs)"
      using Cons Cons.prems(5) last_in_set [of cs] by auto
    with Cons.prems have lt: "length (pre @ c) < n" and len: "length pre + length c \<le> n" by auto
    have "parse_chunks (pctx_after n (pre @ c)) cs = (pctx_after n ((pre @ c) @ concat cs), True)"
      using Cons Cons.prems lt by (intro Cons.IH) auto
    then show ?thesis using Cons Cons.prems len by (simp add: parse_next_chunk)
  qed
qed simp

lemma shift_in_OR: "shift_in v bs = foldl (\<lambda>acc b. push_bit 8 acc OR ucast b) v bs"
proof -
  have "push_bit 8 acc + ucast b = push_bit 8 acc OR (ucast b :: u64)" for acc and b :: byte
    by (intro disjunctive_add) (auto simp: bit_simps dest: byte_bit_lt)
  then show ?thesis by (simp add: shift_in_def)
qed

lemma mask_6_byte: "(63 :: byte) = mask 6"
  by (simp add: mask_eq_exp_minus_1)

lemma tag_byte_and:
  fixes v :: u64
  assumes "v < 2 ^ (k + 6)" "k + 6 < 64"
  shows "ucast (drop_bit k (v OR push_bit (k + 6) t)) AND 63 = (ucast (drop_bit k v) :: byte)"
proof -
  have "n < 6" if "bit v (k + n)" for n
    using assms that less_power_iff_bits [of "k + 6" v] by (auto simp: not_le [symmetric])
  then show ?thesis
    by (intro bit_word_eqI) (auto simp: bit_simps mask_6_byte)
qed

lemma low_byte_or: "j + 8 \<le> m \<Longrightarrow> (ucast (drop_bit j (v OR push_bit m t)) :: byte) = ucast (drop_bit j v)"
  for v :: u64
  by (rule bit_word_eqI) (auto simp: bit_simps)

lemma low_byte_or_0: "8 \<le> m \<Longrightarrow> (ucast (v OR push_bit m t) :: byte) = ucast v" for v :: u64
  using low_byte_or [of 0 m v t] by simp

lemma untag_bytes:
  assumes b: "b \<le> 3" and v: "v < 2 ^ rqc_vint_usable_bits b"
  defines "enc \<equiv> rqc_vint_bytes v b (rqc_vint_len b)"
  shows "(hd enc AND 63) # tl enc = be_bytes (rqc_vint_len b) v"
proof -
  have enc: "enc = be_bytes (rqc_vint_len b) (v OR push_bit (rqc_vint_usable_bits b) (of_nat b))"
    using b by (simp add: enc_def rqc_vint_bytes_eq)
  define t :: u64 where "t = of_nat b"
  note [simp] = enc [folded t_def] and [simp del] = drop_bit_or
  from b show ?thesis
  proof (rule two_bit_cases)
    assume "b = 0"
    then show ?thesis using v tag_byte_and [of v 0 t] by simp
  next
    assume "b = 1"
    then show ?thesis using v tag_byte_and [of v 8 t] by (simp add: low_byte_or_0)
  next
    assume "b = 2"
    then show ?thesis using v tag_byte_and [of v 24 t] by (simp add: low_byte_or low_byte_or_0)
  next
    assume "b = 3"
    then show ?thesis using v tag_byte_and [of v 56 t] by (simp add: low_byte_or low_byte_or_0)
  qed
qed

lemma tag_of_bytes:
  assumes b: "b \<le> 3" and v: "v < 2 ^ rqc_vint_usable_bits b"
  shows "drop_bit 6 (hd (rqc_vint_bytes v b (rqc_vint_len b))) = of_nat b"
proof -
  have "rqc_vint_usable_bits b < 64" using b by (rule two_bit_cases) simp_all
  note hi = drop_bit_or_push_bit [OF v this, of "of_nat b"]
  show ?thesis
    unfolding rqc_vint_bytes_eq [OF b] using b
    by (rule two_bit_cases) (use hi in \<open>simp_all add: vint_tag vint_tag_0\<close>)
qed

lemma rqc_get_varint_len_tag: "drop_bit 6 b = of_nat k \<Longrightarrow> k \<le> 3 \<Longrightarrow> rqc_get_varint_len b = rqc_vint_len k"
  by (auto simp: rqc_get_varint_len_def rqc_vint_len_def unat_of_nat)

lemma pctx_after_enc:
  assumes b: "b \<le> 3" and v: "v < 2 ^ rqc_vint_usable_bits b"
  defines "enc \<equiv> rqc_vint_bytes v b (rqc_vint_len b)"
  shows "pctx_after (rqc_vint_len b) enc = \<lparr>vi = v, left = 0\<rparr>"
proof -
  have "shift_in (rqc_get_varint_fb (hd enc)) (tl enc) = be_value ((hd enc AND 63) # tl enc)"
    by (simp add: shift_in_OR be_value_def rqc_get_varint_fb_def)
  also have "\<dots> = take_bit (8 * rqc_vint_len b) v"
    using untag_bytes [OF b v] by (simp add: enc_def be_value_be_bytes del: be_bytes_simps)
  also have "\<dots> = v"
  proof (rule bit_word_eqI)
    have "rqc_vint_usable_bits b < 64" "rqc_vint_usable_bits b \<le> 8 * rqc_vint_len b"
      using b by (rule two_bit_cases; simp)+
    moreover from this v have "\<forall>i\<ge>rqc_vint_usable_bits b. \<not> bit v i"
      by (simp add: less_power_iff_bits)
    ultimately have "n < 8 * rqc_vint_len b" if "bit v n" for n
      using that by (metis le_trans not_le)
    then show "bit (take_bit (8 * rqc_vint_len b) v) n = bit v n" for n
      by (auto simp: bit_simps)
  qed
  finally show ?thesis using b by (simp add: pctx_after_def enc_def)
qed

lemma parse_chunks_enc:
  assumes b: "b \<le> 3" and v: "v < 2 ^ rqc_vint_usable_bits b"
    and cs: "cs \<noteq> []" "[] \<notin> set cs" "concat cs = rqc_vint_bytes v b (rqc_vint_len b)"
    and l: "left pctx = 0"
  shows "parse_chunks pctx cs = (\<lparr>vi = v, left = 0\<rparr>, True)"
proof -
  obtain c ds where c: "cs = c # ds" "c \<noteq> []" using cs by (cases cs) auto
  have hd: "hd c = hd (concat cs)" using c by (cases c) auto
  let ?n = "rqc_vint_len b"
  have n: "?n = rqc_get_varint_len (hd c)"
    using tag_of_bytes [OF b v] b by (simp add: hd cs(3) rqc_get_varint_len_tag)
  have len: "length c + length (concat ds) = ?n"
    using arg_cong [OF cs(3), of length] b by (simp add: c del: length_concat)
  note first = parse_first_chunk [OF c(2) l n]
  note after = pctx_after_enc [OF b v, folded cs(3)]
  show ?thesis
  proof (cases ds)
    case Nil
    with first len after show ?thesis by (simp add: c)
  next
    case (Cons d es)
    then have "last ds \<noteq> []" "0 < length (concat ds)"
      using cs(2) c last_in_set [of ds] by (metis list.distinct(1) list.set_intros(2), auto)
    moreover from this len have "length c < ?n" by linarith
    ultimately show ?thesis
      using Cons first len after parse_next_chunks [of c ?n ds] c by (simp del: length_concat concat.simps)
        (simp add: c)
  qed
qed

subsection \<open>The codec as an interface\<close>

text \<open>
  What the frame and parameter codecs rely on: a variable-length encoding, and a reader with
  an explicit end that inverts it, advances by the bytes it consumed, and stays inside the
  buffer. \<open>read_seq\<close> is the shape of their loops: \<open>k\<close> reads one after the other.
\<close>

type_synonym vint_reader = "byte list \<Rightarrow> nat \<Rightarrow> nat \<Rightarrow> (u64 \<times> nat) option"

fun read_seq :: "vint_reader \<Rightarrow> byte list \<Rightarrow> nat \<Rightarrow> nat \<Rightarrow> nat \<Rightarrow> (u64 list \<times> nat) option" where
  "read_seq rd buf p e 0 = Some ([], p)"
| "read_seq rd buf p e (Suc k) = do {
     (v, n) \<leftarrow> rd buf p e;
     (vs, q) \<leftarrow> read_seq rd buf (p + n) e k;
     Some (v # vs, q) }"

locale vint_codec =
  fixes enc :: "u64 \<Rightarrow> byte list" and rd :: vint_reader
  assumes enc_len: "1 \<le> length (enc v)" "length (enc v) \<le> 8"
    and rd_enc: "v < 2 ^ 62 \<Longrightarrow> holds_at buf p (enc v) \<Longrightarrow> p + length (enc v) \<le> e \<Longrightarrow>
      rd buf p e = Some (v, length (enc v))"
    and rd_inside: "rd buf p e = Some (v, n) \<Longrightarrow> 1 \<le> n \<and> p + n \<le> e"
    and rd_range: "rd buf p e = Some (v, n) \<Longrightarrow> v < 2 ^ 62"
    and rd_local: "take e buf = take e buf' \<Longrightarrow> e \<le> length buf \<Longrightarrow> e \<le> length buf' \<Longrightarrow>
      rd buf p e = rd buf' p e"
begin

lemma read_seq_enc:
  "\<forall>v \<in> set vs. v < 2 ^ 62 \<Longrightarrow> holds_at buf p (concat (map enc vs)) \<Longrightarrow>
   p + length (concat (map enc vs)) \<le> e \<Longrightarrow>
   read_seq rd buf p e (length vs) = Some (vs, p + length (concat (map enc vs)))"
  by (induction vs arbitrary: p) (auto simp: holds_at_append rd_enc add.assoc)

lemma read_seq_inside:
  "read_seq rd buf p e k = Some (vs, q) \<Longrightarrow> p \<le> e \<Longrightarrow> length vs = k \<and> p + k \<le> q \<and> q \<le> e"
proof (induction k arbitrary: p vs)
  case (Suc k)
  then obtain v n ws where "rd buf p e = Some (v, n)" "read_seq rd buf (p + n) e k = Some (ws, q)" "vs = v # ws"
    by (auto simp: bind_eq_Some_conv)
  with Suc.IH [of "p + n" ws] rd_inside [of buf p e v n] show ?case by auto
qed simp

lemma read_seq_local:
  "take e buf = take e buf' \<Longrightarrow> e \<le> length buf \<Longrightarrow> e \<le> length buf' \<Longrightarrow>
   read_seq rd buf p e k = read_seq rd buf' p e k"
  by (induction k arbitrary: p) (simp_all add: rd_local [of e buf buf'])

end

interpretation vc: vint_codec vint_enc rqc_vint_read
proof unfold_locales
  fix v show "1 \<le> length (vint_enc v)" "length (vint_enc v) \<le> 8" by (rule vint_enc_len_bounds)+
next
  fix v buf p e
  assume "v < 2 ^ 62" "holds_at buf p (vint_enc v)" "p + length (vint_enc v) \<le> e"
  then show "rqc_vint_read buf p e = Some (v, length (vint_enc v))" by (rule rqc_vint_read_enc)
next
  fix buf p e v n
  assume *: "rqc_vint_read buf p e = Some (v, n)"
  show "1 \<le> n \<and> p + n \<le> e" using rqc_vint_read_Some [OF *] by auto
  show "v < 2 ^ 62" by (rule rqc_vint_read_bound [OF *])
next
  fix e p and buf buf' :: "byte list"
  assume "take e buf = take e buf'" "e \<le> length buf" "e \<le> length buf'"
  then show "rqc_vint_read buf p e = rqc_vint_read buf' p e" by (rule rqc_vint_read_local)
qed


subsection \<open>Properties\<close>

text \<open>
  C1: a value below \<open>2 ^ 62\<close> written with \<open>rqc_vint_write\<close> and its minimal length into a buffer
  with room for it is read back by \<open>rqc_vint_read\<close>, which consumes exactly the bytes written;
  the buffer is unchanged elsewhere.
\<close>

theorem rqc_vint_roundtrip:
  assumes "v < 2 ^ 62" and "len = rqc_vint_len_by_val (uint v)"
    and "dst + len \<le> length buf" and "dst + len \<le> end"
  shows "\<exists>buf'. rqc_vint_write buf dst v (rqc_vint_get_2bit (uint v)) len = Some buf' \<and>
    length buf' = length buf \<and> take dst buf' = take dst buf \<and> drop (dst + len) buf' = drop (dst + len) buf \<and>
    rqc_vint_read buf' dst end = Some (v, len)"
proof -
  have len: "length (vint_enc v) = len" using assms(2) by (simp add: rqc_vint_len_by_val_def rqc_vint_len_def)
  let ?buf = "overwrite buf dst (vint_enc v)"
  have w: "rqc_vint_write buf dst v (rqc_vint_get_2bit (uint v)) len = Some ?buf"
    using assms(2,3) len by (simp add: rqc_vint_write_def vint_enc_def Let_def rqc_vint_len_by_val_def rqc_vint_len_def)
  have "rqc_vint_read ?buf dst end = Some (v, len)"
    using assms len by (simp add: rqc_vint_read_enc holds_at_overwrite)
  with w len assms(3) show ?thesis by (auto simp: drop_overwrite [of dst "vint_enc v" buf, simplified len])
qed

theorem rqc_vint_roundtrip_witness:
  "\<exists>buf'. rqc_vint_write [0, 0, 0, 0, 7] 1 300 (rqc_vint_get_2bit (uint (300 :: u64))) 2 = Some buf' \<and>
     length buf' = length [0, 0, 0, 0, 7 :: byte] \<and> take 1 buf' = take 1 [0, 0, 0, 0, 7] \<and>
     drop (1 + 2) buf' = drop (1 + 2) [0, 0, 0, 0, 7] \<and> rqc_vint_read buf' 1 5 = Some (300, 2)"
  by (rule rqc_vint_roundtrip) (simp_all add: rqc_vint_len_by_val_def rqc_vint_get_2bit_def)

text \<open>
  The encoder of the transport parameters, \<open>rqc_put_varint\<close>, writes the bytes and takes
  the length of \<open>rqc_vint_write\<close> for every value of at most 62 bits, and returns \<open>NULL\<close> without
  writing for every other value.
\<close>

theorem rqc_put_varint_agrees:
  "rqc_put_varint (Some (buf, p)) n =
     (if n < 2 ^ 62
      then map_option (\<lambda>buf'. Some (buf', p + rqc_put_varint_len n))
             (rqc_vint_write buf p n (rqc_vint_get_2bit (uint n)) (rqc_vint_len_by_val (uint n)))
      else Some None)"
proof -
  have "rqc_vint_bytes n (rqc_vint_get_2bit (uint n)) (rqc_vint_len_by_val (uint n)) = vint_enc n"
    by (simp add: vint_enc_def Let_def rqc_vint_len_by_val_def rqc_vint_len_def)
  moreover have "length (vint_enc n) = rqc_put_varint_len n"
    by (simp add: rqc_put_varint_len_eq rqc_vint_len_by_val_def rqc_vint_len_def)
  ultimately show ?thesis
    by (auto simp: rqc_put_varint_def rqc_put_varint_bytes_eq rqc_vint_write_def wr_mem_def)
qed

text \<open>
  C12: \<open>rqc_vint_read\<close> stays inside the bytes before \<open>end\<close>: what it consumes ends there, its
  value is below \<open>2 ^ 62\<close>, and the result does not depend on any byte at or after \<open>end\<close>.
\<close>

theorem rqc_vint_read_inside:
  assumes "rqc_vint_read buf p e = Some (v, n)" and "e \<le> length buf"
  shows "n \<in> {1, 2, 4, 8} \<and> p + n \<le> e \<and> v < 2 ^ 62 \<and>
    rqc_vint_read (take e buf @ rest) p e = Some (v, n)"
  using rqc_vint_read_Some [OF assms(1)] rqc_vint_read_bound [OF assms(1)]
    rqc_vint_read_local [of e buf "take e buf @ rest" p] assms by simp

theorem rqc_vint_read_inside_witness:
  "rqc_vint_read ([0x41, 0x2c] @ [9, 9]) 0 2 = Some (300, 2)"
proof -
  have "rqc_vint_read [0x41, 0x2c, 1] 0 2 = Some (300, 2)"
    by (simp add: rqc_vint_read_def vint_val2_def)
  from rqc_vint_read_inside [OF this, of "[9, 9]"] show ?thesis by simp
qed

text \<open>
  C13: the incremental decoder agrees with the one-shot decoder: however the encoding of a
  value is cut into non-empty pieces, feeding them one after the other finishes at the last
  piece with that value.
\<close>

theorem rqc_discrete_vint_parse_chunks:
  assumes "v < 2 ^ 62" and "concat cs = vint_enc v" and "[] \<notin> set cs" and "left pctx = 0"
  shows "parse_chunks pctx cs = (\<lparr>vi = v, left = 0\<rparr>, True)"
proof -
  have "cs \<noteq> []" using assms(2) vint_enc_len_bounds(1) [of v] by (auto simp del: length_vint_enc)
  with assms show ?thesis
    by (intro parse_chunks_enc [OF rqc_vint_get_2bit_le vint_fits]) (simp_all add: vint_enc_def Let_def)
qed

theorem rqc_discrete_vint_parse_chunks_witness:
  "parse_chunks \<lparr>vi = 5, left = 0\<rparr> [[0x80], [1, 0], [2]] = (\<lparr>vi = 65538, left = 0\<rparr>, True)"
proof -
  have "rqc_vint_get_2bit (uint (65538 :: u64)) = 2" by (simp add: rqc_vint_get_2bit_def)
  then have "vint_enc 65538 = [0x80, 1, 0, 2]"
    by (simp add: vint_enc_def Let_def rqc_vint_bytes_def push_bit_eq_mult drop_bit_eq_div)
  then show ?thesis by (intro rqc_discrete_vint_parse_chunks) simp_all
qed

end
