(* ===== verification/Rqc_Packet.thy ===== *)
theory Rqc_Packet
  imports Rqc_Vint
begin

text \<open>
  Packets: the types of \<open>src/transport/rqc_packet.h\<close>, \<open>rqc_packet_in.{h,c}\<close>,
  \<open>rqc_packet_out.h\<close> and \<open>rqc_frame.h\<close>, and the ways in which the frame and header code moves
  through a packet.

  A received packet is \<open>rqc_packet_in\<close>: the bytes of the datagram, \<open>pos\<close> and \<open>last\<close> as offsets
  into it. A packet under construction is \<open>rqc_packet_out\<close>: the allocated block and the number
  of bytes used. The fields that no modelled operation reads are left out.
\<close>

subsection \<open>Constants\<close>

abbreviation "RQC_QUIC_MIN_MSS \<equiv> (1200 :: nat)"
abbreviation "RQC_QUIC_MAX_MSS \<equiv> (1436 :: nat)"
abbreviation "RQC_ACK_SPACE \<equiv> (16 :: nat)"
abbreviation "RQC_PACKET_OUT_BUF_CAP \<equiv> (1452 :: nat)"
abbreviation "RQC_PACKET_INITIAL_MIN_LENGTH \<equiv> RQC_QUIC_MIN_MSS"
abbreviation "RQC_MAX_STREAM_FRAME_IN_PO \<equiv> (3 :: nat)"
abbreviation "RQC_MAX_CID_LEN \<equiv> (20 :: nat)"
abbreviation "RQC_POF_STREAM_NO_LEN \<equiv> (0x800 :: u32)"

text \<open>The bits of \<open>rqc_frame_type_bit_t\<close>.\<close>

abbreviation "RQC_FRAME_BIT_PADDING \<equiv> (0x1 :: u32)"
abbreviation "RQC_FRAME_BIT_PING \<equiv> (0x2 :: u32)"
abbreviation "RQC_FRAME_BIT_ACK \<equiv> (0x4 :: u32)"
abbreviation "RQC_FRAME_BIT_HANDSHAKE \<equiv> (0x8 :: u32)"
abbreviation "RQC_FRAME_BIT_RESET_STREAM \<equiv> (0x10 :: u32)"
abbreviation "RQC_FRAME_BIT_STOP_SENDING \<equiv> (0x20 :: u32)"
abbreviation "RQC_FRAME_BIT_STREAM \<equiv> (0x40 :: u32)"
abbreviation "RQC_FRAME_BIT_MAX_DATA \<equiv> (0x80 :: u32)"
abbreviation "RQC_FRAME_BIT_MAX_STREAM_DATA \<equiv> (0x100 :: u32)"
abbreviation "RQC_FRAME_BIT_MAX_STREAMS \<equiv> (0x200 :: u32)"
abbreviation "RQC_FRAME_BIT_DATA_BLOCKED \<equiv> (0x400 :: u32)"
abbreviation "RQC_FRAME_BIT_STREAM_DATA_BLOCKED \<equiv> (0x800 :: u32)"
abbreviation "RQC_FRAME_BIT_STREAMS_BLOCKED \<equiv> (0x1000 :: u32)"
abbreviation "RQC_FRAME_BIT_PATH_CHALLENGE \<equiv> (0x2000 :: u32)"
abbreviation "RQC_FRAME_BIT_PATH_RESPONSE \<equiv> (0x4000 :: u32)"
abbreviation "RQC_FRAME_BIT_CONNECTION_CLOSE \<equiv> (0x8000 :: u32)"
abbreviation "RQC_FRAME_BIT_DATAGRAM \<equiv> (0x20000 :: u32)"

definition RQC_IS_ACK_ELICITING :: "u32 \<Rightarrow> bool" where
  "RQC_IS_ACK_ELICITING types \<longleftrightarrow>
     types AND NOT (RQC_FRAME_BIT_ACK OR RQC_FRAME_BIT_PADDING OR RQC_FRAME_BIT_CONNECTION_CLOSE) \<noteq> 0"

definition RQC_CAN_IN_FLIGHT :: "u32 \<Rightarrow> bool" where
  "RQC_CAN_IN_FLIGHT types \<longleftrightarrow>
     types AND NOT (RQC_FRAME_BIT_ACK OR RQC_FRAME_BIT_CONNECTION_CLOSE) \<noteq> 0"

definition RQC_NEED_REPAIR :: "u32 \<Rightarrow> bool" where
  "RQC_NEED_REPAIR types \<longleftrightarrow>
     types AND NOT (RQC_FRAME_BIT_ACK OR RQC_FRAME_BIT_PADDING OR RQC_FRAME_BIT_PING OR
                    RQC_FRAME_BIT_CONNECTION_CLOSE OR RQC_FRAME_BIT_DATAGRAM) \<noteq> 0"

subsection \<open>Records\<close>

datatype rqc_pkt_type = RQC_PTYPE_INIT | RQC_PTYPE_RSV1 | RQC_PTYPE_RSV2 | RQC_PTYPE_RSV3
  | RQC_PTYPE_SHORT_HEADER | RQC_PTYPE_VERSION_NEGOTIATION

text \<open>\<open>cid_buf\<close> is the array of \<open>RQC_MAX_CID_LEN\<close> bytes, of which \<open>cid_len\<close> are the identifier.\<close>

record rqc_cid =
  cid_len :: nat
  cid_buf :: "byte list"
  cid_seq_num :: u64
  cid_path_id :: u64

record rqc_packet =
  pkt_num :: u64
  pkt_type :: rqc_pkt_type
  pkt_dcid :: rqc_cid
  pkt_scid :: rqc_cid
  pkt_length :: u64
  pkt_num_offset :: nat

record rqc_packet_in =
  pi_pkt :: rqc_packet
  pi_buf :: "byte list"
  pi_pos :: nat
  pi_last :: nat
  pkt_recv_time :: u64
  pi_frame_types :: u32

record rqc_po_stream_frame =
  ps_stream_id :: u64
  ps_offset :: u64
  ps_length :: nat
  ps_type_offset :: nat
  ps_length_offset :: nat
  ps_is_used :: bool
  ps_has_fin :: bool
  ps_is_reset :: bool

text \<open>\<open>po_ppktno\<close>, \<open>po_payload\<close> and \<open>po_padding\<close> are offsets into \<open>po_buf\<close>, \<open>None\<close> for \<open>NULL\<close>.\<close>

record rqc_packet_out =
  po_pkt :: rqc_packet
  po_buf :: "byte list"
  po_ppktno :: "nat option"
  po_payload :: "nat option"
  po_padding :: "nat option"
  po_buf_size :: nat
  po_used_size :: nat
  po_ack_offset :: nat
  po_flag :: u32
  po_largest_ack :: u64
  po_frame_types :: u32
  po_stream_frames :: "rqc_po_stream_frame list"
  po_stream_frames_idx :: nat

definition rqc_packet_in_init :: "rqc_packet_in \<Rightarrow> byte list \<Rightarrow> u64 \<Rightarrow> rqc_packet_in" where
  "rqc_packet_in_init packet_in buf recv_time =
     packet_in\<lparr>pi_buf := buf, pi_pos := 0, pi_last := length buf, pkt_recv_time := recv_time\<rparr>"

definition RQC_BUFF_LEFT_SIZE :: "nat \<Rightarrow> nat \<Rightarrow> nat" where
  "RQC_BUFF_LEFT_SIZE p e = (if e > p then e - p else 0)"

definition rqc_get_po_remained_size :: "rqc_packet_out \<Rightarrow> nat" where
  "rqc_get_po_remained_size po = (if po_used_size po \<ge> po_buf_size po then 0 else po_buf_size po - po_used_size po)"

definition rqc_get_po_remained_size_with_ack_spc :: "rqc_packet_out \<Rightarrow> nat" where
  "rqc_get_po_remained_size_with_ack_spc po =
     (let limit = po_buf_size po + RQC_ACK_SPACE
      in if po_used_size po \<ge> limit then 0 else limit - po_used_size po)"

definition rqc_packet_out_remove_ack_frame :: "rqc_packet_out \<Rightarrow> rqc_packet_out" where
  "rqc_packet_out_remove_ack_frame po =
     (if po_frame_types po AND RQC_FRAME_BIT_ACK \<noteq> 0
      then po\<lparr>po_used_size := po_ack_offset po, po_frame_types := po_frame_types po AND NOT RQC_FRAME_BIT_ACK\<rparr>
      else po)"

subsection \<open>Reading from a received packet\<close>

text \<open>
  The two idioms of the parsers: \<open>*p++\<close>, which has no bounds check, and
  \<open>vlen = rqc_vint_read(p, end, &v); if (vlen < 0) return err; p += vlen;\<close>.
\<close>

definition rd_u8 :: "rqc_packet_in \<Rightarrow> nat \<Rightarrow> (byte \<times> nat) res" where
  "rd_u8 pi p = (if p < length (pi_buf pi) then Inr (pi_buf pi ! p, p + 1) else Inl Fault)"

definition rd_vint :: "int \<Rightarrow> rqc_packet_in \<Rightarrow> nat \<Rightarrow> (u64 \<times> nat) res" where
  "rd_vint err pi p =
     (case rqc_vint_read (pi_buf pi) p (pi_last pi) of None \<Rightarrow> Err err | Some (v, vlen) \<Rightarrow> Inr (v, p + vlen))"

text \<open>\<open>memcpy(dst, p, n)\<close> from the received packet.\<close>

definition rd_mem :: "rqc_packet_in \<Rightarrow> nat \<Rightarrow> nat \<Rightarrow> byte list res" where
  "rd_mem pi p n = (if p + n \<le> length (pi_buf pi) then Inr (take n (drop p (pi_buf pi))) else Inl Fault)"

text \<open>The end of every parser: \<open>packet_in->pos = p; packet_in->pi_frame_types |= bit;\<close>.\<close>

definition pi_done :: "rqc_packet_in \<Rightarrow> nat \<Rightarrow> u32 \<Rightarrow> rqc_packet_in" where
  "pi_done pi p fbit = pi\<lparr>pi_pos := p, pi_frame_types := pi_frame_types pi OR fbit\<rparr>"

text \<open>A packet whose window lies inside its buffer, and one that carries given bytes at \<open>pos\<close>.\<close>

definition pi_ok :: "rqc_packet_in \<Rightarrow> bool" where
  "pi_ok pi \<longleftrightarrow> pi_pos pi \<le> pi_last pi \<and> pi_last pi \<le> length (pi_buf pi)"

definition carries :: "rqc_packet_in \<Rightarrow> nat \<Rightarrow> byte list \<Rightarrow> bool" where
  "carries pi p bs \<longleftrightarrow> holds_at (pi_buf pi) p bs \<and> p + length bs \<le> pi_last pi"

lemma carries_append [simp]:
  "carries pi p (bs @ cs) \<longleftrightarrow> carries pi p bs \<and> carries pi (p + length bs) cs"
  by (auto simp: carries_def holds_at_append)

lemma carries_Cons:
  "carries pi p (b # bs) \<longleftrightarrow> p < length (pi_buf pi) \<and> p < pi_last pi \<and> pi_buf pi ! p = b \<and> carries pi (p + 1) bs"
  using carries_append [of pi p "[b]" bs] by (auto simp: carries_def holds_at_Cons)

lemma rd_u8_carries [simp]: "carries pi p (b # bs) \<Longrightarrow> rd_u8 pi p = Inr (b, p + 1)"
  by (simp add: rd_u8_def carries_Cons)

lemma rd_vint_carries [simp]:
  "carries pi p (vint_enc v) \<Longrightarrow> v < 2 ^ 62 \<Longrightarrow> rd_vint err pi p = Inr (v, p + length (vint_enc v))"
  by (simp add: rd_vint_def carries_def rqc_vint_read_enc)

lemma rd_mem_carries [simp]: "carries pi p bs \<Longrightarrow> n = length bs \<Longrightarrow> rd_mem pi p n = Inr bs"
  by (simp add: rd_mem_def carries_def holds_at_def)

lemma pi_done_eq [simp]: "pi_done pi p fbit = pi_done pi q fbit \<longleftrightarrow> p = q"
  by (auto simp: pi_done_def dest: arg_cong [where f = pi_pos])

text \<open>Facts for the safety of the parsers.\<close>

lemma rd_vint_Inr: "rd_vint err pi p = Inr (v, q) \<Longrightarrow> p < q \<and> q \<le> pi_last pi \<and> v < 2 ^ 62"
  using rqc_vint_read_Some rqc_vint_read_bound
  by (fastforce simp: rd_vint_def split: option.splits)

lemma rd_vint_Inl: "rd_vint err pi p = Inl e \<Longrightarrow> e = Ret err"
  by (auto simp: rd_vint_def split: option.splits)

lemma rd_u8_Inr: "rd_u8 pi p = Inr (b, q) \<Longrightarrow> q = p + 1"
  by (simp add: rd_u8_def split: if_splits)

lemma rd_u8_ok [simp]: "pi_ok pi \<Longrightarrow> p < pi_last pi \<Longrightarrow> rd_u8 pi p = Inr (pi_buf pi ! p, p + 1)"
  by (simp add: rd_u8_def pi_ok_def)

lemma rd_mem_ok: "pi_ok pi \<Longrightarrow> p + n \<le> pi_last pi \<Longrightarrow> rd_mem pi p n = Inr (take n (drop p (pi_buf pi)))"
  by (simp add: rd_mem_def pi_ok_def)

lemma rd_vint_post [res_rules]: "res_post (\<lambda>(v, q). p < q \<and> q \<le> pi_last pi \<and> v < 2 ^ 62) (rd_vint (- e) pi p)"
  by (cases "rd_vint (- e) pi p") (auto simp: res_post_def dest: rd_vint_Inl rd_vint_Inr)

lemma rd_u8_post [res_rules]:
  "pi_ok pi \<Longrightarrow> p < pi_last pi \<Longrightarrow> res_post (\<lambda>(b, q). b = pi_buf pi ! p \<and> q = p + 1) (rd_u8 pi p)"
  by simp

lemma rd_mem_post [res_rules]:
  "pi_ok pi \<Longrightarrow> p + n \<le> pi_last pi \<Longrightarrow> res_post (\<lambda>d. d = take n (drop p (pi_buf pi))) (rd_mem pi p n)"
  by (simp add: rd_mem_ok)

subsection \<open>Writing into a packet under construction\<close>

text \<open>
  The shape of the generators: \<open>dst_buf = po_buf + po_used_size\<close>, the writes, then
  \<open>packet_out->po_frame_types |= bit; return dst_buf - begin;\<close>. \<open>po_used_size\<close> is advanced by
  the caller.
\<close>

type_synonym 'a gen = "'a res \<times> rqc_packet_out"

definition po_write :: "rqc_packet_out \<Rightarrow> u32 \<Rightarrow> (wcur \<Rightarrow> wcur option) \<Rightarrow> nat gen" where
  "po_write po fbit w =
     (case w (po_buf po, po_used_size po) of
        None \<Rightarrow> (Inl Fault, po)
      | Some (buf, q) \<Rightarrow>
          (Inr (q - po_used_size po), po\<lparr>po_buf := buf, po_frame_types := po_frame_types po OR fbit\<rparr>))"

text \<open>The usable part of the packet, with the space reserved for an ACK, is inside the block.\<close>

definition po_ok :: "rqc_packet_out \<Rightarrow> bool" where
  "po_ok po \<longleftrightarrow> po_buf_size po + RQC_ACK_SPACE \<le> length (po_buf po) \<and> length (po_buf po) < 2 ^ 14 \<and>
     po_used_size po \<le> length (po_buf po) \<and> length (po_stream_frames po) = RQC_MAX_STREAM_FRAME_IN_PO"

text \<open>The bytes a generator that returned \<open>n\<close> has appended.\<close>

definition po_frame :: "rqc_packet_out \<Rightarrow> nat \<Rightarrow> byte list" where
  "po_frame po n = take n (drop (po_used_size po) (po_buf po))"

lemma po_write_mem:
  "po_write po fbit (wr_mem bs) =
     (if po_used_size po + length bs \<le> length (po_buf po)
      then (Inr (length bs), po\<lparr>po_buf := overwrite (po_buf po) (po_used_size po) bs,
              po_frame_types := po_frame_types po OR fbit\<rparr>)
      else (Inl Fault, po))"
  by (simp add: po_write_def)

lemma po_frame_overwrite [simp]:
  "po_used_size po + length bs \<le> length (po_buf po) \<Longrightarrow> n = length bs \<Longrightarrow>
   po_frame (po\<lparr>po_buf := overwrite (po_buf po) (po_used_size po) bs, po_frame_types := t\<rparr>) n = bs"
  by (simp add: po_frame_def overwrite_def)

lemma remained_fits: "po_ok po \<Longrightarrow> n \<le> rqc_get_po_remained_size po \<Longrightarrow> po_used_size po + n \<le> length (po_buf po)"
  by (auto simp: po_ok_def rqc_get_po_remained_size_def split: if_splits)

lemma remained_ack_fits:
  "po_ok po \<Longrightarrow> n \<le> rqc_get_po_remained_size_with_ack_spc po \<Longrightarrow> po_used_size po + n \<le> length (po_buf po)"
  by (auto simp: po_ok_def rqc_get_po_remained_size_with_ack_spc_def Let_def split: if_splits)

text \<open>
  What one write does, as a contract shared by the generators: it returns the length of the
  bytes it appends, touches no other byte and keeps the packet well formed.
\<close>

definition appends :: "rqc_packet_out \<Rightarrow> nat gen \<Rightarrow> u32 \<Rightarrow> byte list \<Rightarrow> bool" where
  "appends po r fbit bs \<longleftrightarrow>
     r = (Inr (length bs), po\<lparr>po_buf := overwrite (po_buf po) (po_used_size po) bs,
            po_frame_types := po_frame_types po OR fbit\<rparr>) \<and>
     po_used_size po + length bs \<le> length (po_buf po)"

lemma po_write_appends:
  "po_used_size po + length bs \<le> length (po_buf po) \<Longrightarrow> appends po (po_write po fbit (wr_mem bs)) fbit bs"
  by (simp add: appends_def po_write_mem)

lemma appends_D:
  assumes "appends po r fbit bs" "po_ok po"
  shows "\<exists>po'. r = (Inr (length bs), po') \<and> po_ok po' \<and> po_frame po' (length bs) = bs \<and>
    take (po_used_size po) (po_buf po') = take (po_used_size po) (po_buf po) \<and>
    po_used_size po' = po_used_size po"
  using assms by (auto simp: appends_def po_ok_def)

end
