(* ===== verification/Rqc_Frame_Ctrl.thy ===== *)
theory Rqc_Frame_Ctrl
  imports Rqc_Packet
begin

text \<open>
  The frames of \<open>src/transport/rqc_frame_parser.c\<close> other than STREAM and ACK: PADDING, PING,
  CONNECTION_CLOSE, RESET_STREAM, STOP_SENDING, the flow-control frames, the path frames and
  the HANDSHAKE frame.

  A generator returns the number of bytes or a negative code and the packet; a parser
  returns the packet with \<open>pos\<close> advanced and the values it stores through its pointers. The
  lemmas give each generator's bytes and that the parser reads them back; \<open>rqc_ctrl_frame\<close> is
  the value a frame carries, and the properties are stated once for all of them.
\<close>

subsection \<open>PADDING and PING\<close>

definition rqc_gen_padding_frame :: "rqc_packet_out \<Rightarrow> rqc_packet_out res" where
  "rqc_gen_padding_frame po =
     (let total_len = RQC_PACKET_INITIAL_MIN_LENGTH
      in if po_used_size po < total_len then
           (case wr_mem (replicate (total_len - po_used_size po) 0) (po_buf po, po_used_size po) of
              None \<Rightarrow> Inl Fault
            | Some (buf, _) \<Rightarrow>
                Inr (po\<lparr>po_padding := Some (po_used_size po), po_buf := buf, po_used_size := total_len,
                       po_frame_types := po_frame_types po OR RQC_FRAME_BIT_PADDING\<rparr>))
         else Inr po)"

function skip_padding :: "byte list \<Rightarrow> nat \<Rightarrow> nat \<Rightarrow> nat" where
  "skip_padding buf p e = (if p < e \<and> buf ! p = 0 then skip_padding buf (p + 1) e else p)"
  by pat_completeness auto
termination
  by (relation "measure (\<lambda>(buf, p, e). e - p)") auto

declare skip_padding.simps [simp del]

definition rqc_parse_padding_frame :: "rqc_packet_in \<Rightarrow> rqc_packet_in res" where
  "rqc_parse_padding_frame pi =
     Inr (pi_done pi (skip_padding (pi_buf pi) (pi_pos pi + 1) (pi_last pi)) RQC_FRAME_BIT_PADDING)"

definition rqc_gen_ping_frame :: "rqc_packet_out \<Rightarrow> nat gen" where
  "rqc_gen_ping_frame po =
     (let need = 1
      in if need > rqc_get_po_remained_size po then (Err (- RQC_ENOBUF), po)
         else po_write po RQC_FRAME_BIT_PING (wr_u8 0x01))"

definition rqc_parse_ping_frame :: "rqc_packet_in \<Rightarrow> rqc_packet_in res" where
  "rqc_parse_ping_frame pi = Inr (pi_done pi (pi_pos pi + 1) RQC_FRAME_BIT_PING)"

subsection \<open>CONNECTION_CLOSE\<close>

text \<open>\<open>is_app\<close> and \<open>frame_type\<close> are of type \<open>int\<close>; \<open>reason_len\<close> is always 0.\<close>

definition rqc_gen_conn_close_frame :: "rqc_packet_out \<Rightarrow> u64 \<Rightarrow> bool \<Rightarrow> u32 \<Rightarrow> nat gen" where
  "rqc_gen_conn_close_frame po err_code is_app frame_type =
     (let reason_len = (0 :: u64);
          frame_type_bits = rqc_vint_get_2bit (sint frame_type);
          reason_len_bits = rqc_vint_get_2bit (uint reason_len);
          err_code_len_bits = rqc_vint_get_2bit (uint err_code);
          need = 1 + rqc_vint_len err_code_len_bits + rqc_vint_len frame_type_bits +
                 rqc_vint_len reason_len_bits + unat reason_len
      in if need > rqc_get_po_remained_size po then (Err (- RQC_ENOBUF), po)
         else po_write po RQC_FRAME_BIT_CONNECTION_CLOSE (\<lambda>c. do {
           c \<leftarrow> wr_u8 (if is_app then 0x1d else 0x1c) c;
           c \<leftarrow> wr_vint err_code err_code_len_bits c;
           c \<leftarrow> (if \<not> is_app then wr_vint (scast frame_type) frame_type_bits c else Some c);
           wr_vint reason_len reason_len_bits c }))"

definition rqc_parse_conn_close_frame :: "rqc_packet_in \<Rightarrow> (rqc_packet_in \<times> u64) res" where
  "rqc_parse_conn_close_frame pi =
     res_bind (rd_u8 pi (pi_pos pi)) (\<lambda>(first_byte, p).
     res_bind (rd_vint (- RQC_EVINTREAD) pi p) (\<lambda>(err_code, p).
     res_bind (if first_byte = 0x1c then rd_vint (- RQC_EVINTREAD) pi p else Inr (0, p)) (\<lambda>(frame_type, p).
     res_bind (rd_vint (- RQC_EVINTREAD) pi p) (\<lambda>(reason_len, p).
       Inr (pi_done pi (p + unat reason_len) RQC_FRAME_BIT_CONNECTION_CLOSE, err_code)))))"

subsection \<open>RESET_STREAM and STOP_SENDING\<close>

definition rqc_gen_reset_stream_frame :: "rqc_packet_out \<Rightarrow> u64 \<Rightarrow> u64 \<Rightarrow> u64 \<Rightarrow> nat gen" where
  "rqc_gen_reset_stream_frame po stream_id err_code final_size =
     (let final_size_bits = rqc_vint_get_2bit (uint final_size);
          stream_id_bits = rqc_vint_get_2bit (uint stream_id);
          err_code_bits = rqc_vint_get_2bit (uint err_code);
          need = 1 + rqc_vint_len stream_id_bits + rqc_vint_len err_code_bits + rqc_vint_len final_size_bits
      in if need > rqc_get_po_remained_size po then (Err (- RQC_ENOBUF), po)
         else po_write po RQC_FRAME_BIT_RESET_STREAM (\<lambda>c. do {
           c \<leftarrow> wr_u8 0x04 c;
           c \<leftarrow> wr_vint stream_id stream_id_bits c;
           c \<leftarrow> wr_vint err_code err_code_bits c;
           wr_vint final_size final_size_bits c }))"

definition rqc_parse_reset_stream_frame :: "rqc_packet_in \<Rightarrow> (rqc_packet_in \<times> u64 \<times> u64 \<times> u64) res" where
  "rqc_parse_reset_stream_frame pi =
     res_bind (rd_vint (- RQC_EVINTREAD) pi (pi_pos pi + 1)) (\<lambda>(stream_id, p).
     res_bind (rd_vint (- RQC_EVINTREAD) pi p) (\<lambda>(err_code, p).
     res_bind (rd_vint (- RQC_EVINTREAD) pi p) (\<lambda>(final_size, p).
       Inr (pi_done pi p RQC_FRAME_BIT_RESET_STREAM, stream_id, err_code, final_size))))"

definition rqc_gen_stop_sending_frame :: "rqc_packet_out \<Rightarrow> u64 \<Rightarrow> u64 \<Rightarrow> nat gen" where
  "rqc_gen_stop_sending_frame po stream_id err_code =
     (let stream_id_bits = rqc_vint_get_2bit (uint stream_id);
          err_code_bits = rqc_vint_get_2bit (uint err_code);
          need = 1 + rqc_vint_len stream_id_bits + rqc_vint_len err_code_bits
      in if need > rqc_get_po_remained_size po then (Err (- RQC_ENOBUF), po)
         else po_write po RQC_FRAME_BIT_STOP_SENDING (\<lambda>c. do {
           c \<leftarrow> wr_u8 0x05 c;
           c \<leftarrow> wr_vint stream_id stream_id_bits c;
           wr_vint err_code err_code_bits c }))"

definition rqc_parse_stop_sending_frame :: "rqc_packet_in \<Rightarrow> (rqc_packet_in \<times> u64 \<times> u64) res" where
  "rqc_parse_stop_sending_frame pi =
     res_bind (rd_vint (- RQC_EVINTREAD) pi (pi_pos pi + 1)) (\<lambda>(stream_id, p).
     res_bind (rd_vint (- RQC_EVINTREAD) pi p) (\<lambda>(err_code, p).
       Inr (pi_done pi p RQC_FRAME_BIT_STOP_SENDING, stream_id, err_code)))"

subsection \<open>Flow control\<close>

text \<open>These generators have no space check: their callers get a packet with room for the frame.\<close>

definition rqc_gen_data_blocked_frame :: "rqc_packet_out \<Rightarrow> u64 \<Rightarrow> nat gen" where
  "rqc_gen_data_blocked_frame po data_limit =
     po_write po RQC_FRAME_BIT_DATA_BLOCKED (\<lambda>c. do {
       c \<leftarrow> wr_u8 0x14 c;
       wr_vint data_limit (rqc_vint_get_2bit (uint data_limit)) c })"

definition rqc_parse_data_blocked_frame :: "rqc_packet_in \<Rightarrow> (rqc_packet_in \<times> u64) res" where
  "rqc_parse_data_blocked_frame pi =
     res_bind (rd_vint (- RQC_EVINTREAD) pi (pi_pos pi + 1)) (\<lambda>(data_limit, p).
       Inr (pi_done pi p RQC_FRAME_BIT_DATA_BLOCKED, data_limit))"

definition rqc_gen_stream_data_blocked_frame :: "rqc_packet_out \<Rightarrow> u64 \<Rightarrow> u64 \<Rightarrow> nat gen" where
  "rqc_gen_stream_data_blocked_frame po stream_id stream_data_limit =
     po_write po RQC_FRAME_BIT_STREAM_DATA_BLOCKED (\<lambda>c. do {
       c \<leftarrow> wr_u8 0x15 c;
       c \<leftarrow> wr_vint stream_id (rqc_vint_get_2bit (uint stream_id)) c;
       wr_vint stream_data_limit (rqc_vint_get_2bit (uint stream_data_limit)) c })"

definition rqc_parse_stream_data_blocked_frame :: "rqc_packet_in \<Rightarrow> (rqc_packet_in \<times> u64 \<times> u64) res" where
  "rqc_parse_stream_data_blocked_frame pi =
     res_bind (rd_vint (- RQC_EVINTREAD) pi (pi_pos pi + 1)) (\<lambda>(stream_id, p).
     res_bind (rd_vint (- RQC_EVINTREAD) pi p) (\<lambda>(stream_data_limit, p).
       Inr (pi_done pi p RQC_FRAME_BIT_STREAM_DATA_BLOCKED, stream_id, stream_data_limit)))"

definition rqc_gen_streams_blocked_frame :: "rqc_packet_out \<Rightarrow> u64 \<Rightarrow> bool \<Rightarrow> nat gen" where
  "rqc_gen_streams_blocked_frame po stream_limit bidirectional =
     po_write po RQC_FRAME_BIT_STREAMS_BLOCKED (\<lambda>c. do {
       c \<leftarrow> wr_u8 (if bidirectional then 0x16 else 0x17) c;
       wr_vint stream_limit (rqc_vint_get_2bit (uint stream_limit)) c })"

definition rqc_parse_streams_blocked_frame :: "rqc_packet_in \<Rightarrow> (rqc_packet_in \<times> u64 \<times> bool) res" where
  "rqc_parse_streams_blocked_frame pi =
     res_bind (rd_u8 pi (pi_pos pi)) (\<lambda>(first_byte, p).
     let bidirectional = (first_byte = 0x16) in
     res_bind (rd_vint (- RQC_EVINTREAD) pi p) (\<lambda>(stream_limit, p).
       Inr (pi_done pi p RQC_FRAME_BIT_STREAMS_BLOCKED, stream_limit, bidirectional)))"

definition rqc_gen_max_data_frame :: "rqc_packet_out \<Rightarrow> u64 \<Rightarrow> nat gen" where
  "rqc_gen_max_data_frame po max_data =
     po_write po RQC_FRAME_BIT_MAX_DATA (\<lambda>c. do {
       c \<leftarrow> wr_u8 0x10 c;
       wr_vint max_data (rqc_vint_get_2bit (uint max_data)) c })"

definition rqc_parse_max_data_frame :: "rqc_packet_in \<Rightarrow> (rqc_packet_in \<times> u64) res" where
  "rqc_parse_max_data_frame pi =
     res_bind (rd_vint (- RQC_EVINTREAD) pi (pi_pos pi + 1)) (\<lambda>(max_data, p).
       Inr (pi_done pi p RQC_FRAME_BIT_MAX_DATA, max_data))"

definition rqc_gen_max_stream_data_frame :: "rqc_packet_out \<Rightarrow> u64 \<Rightarrow> u64 \<Rightarrow> nat gen" where
  "rqc_gen_max_stream_data_frame po stream_id max_stream_data =
     po_write po RQC_FRAME_BIT_MAX_STREAM_DATA (\<lambda>c. do {
       c \<leftarrow> wr_u8 0x11 c;
       c \<leftarrow> wr_vint stream_id (rqc_vint_get_2bit (uint stream_id)) c;
       wr_vint max_stream_data (rqc_vint_get_2bit (uint max_stream_data)) c })"

definition rqc_parse_max_stream_data_frame :: "rqc_packet_in \<Rightarrow> (rqc_packet_in \<times> u64 \<times> u64) res" where
  "rqc_parse_max_stream_data_frame pi =
     res_bind (rd_vint (- RQC_EVINTREAD) pi (pi_pos pi + 1)) (\<lambda>(stream_id, p).
     res_bind (rd_vint (- RQC_EVINTREAD) pi p) (\<lambda>(max_stream_data, p).
       Inr (pi_done pi p RQC_FRAME_BIT_MAX_STREAM_DATA, stream_id, max_stream_data)))"

definition rqc_gen_max_streams_frame :: "rqc_packet_out \<Rightarrow> u64 \<Rightarrow> bool \<Rightarrow> nat gen" where
  "rqc_gen_max_streams_frame po max_streams bidirectional =
     po_write po RQC_FRAME_BIT_MAX_STREAMS (\<lambda>c. do {
       c \<leftarrow> wr_u8 (if bidirectional then 0x12 else 0x13) c;
       wr_vint max_streams (rqc_vint_get_2bit (uint max_streams)) c })"

definition rqc_parse_max_streams_frame :: "rqc_packet_in \<Rightarrow> (rqc_packet_in \<times> u64 \<times> bool) res" where
  "rqc_parse_max_streams_frame pi =
     res_bind (rd_u8 pi (pi_pos pi)) (\<lambda>(first_byte, p).
     let bidirectional = (first_byte = 0x12) in
     res_bind (rd_vint (- RQC_EVINTREAD) pi p) (\<lambda>(max_streams, p).
       Inr (pi_done pi p RQC_FRAME_BIT_MAX_STREAMS, max_streams, bidirectional)))"

subsection \<open>Path validation\<close>

abbreviation "RQC_PATH_CHALLENGE_DATA_LEN \<equiv> (8 :: nat)"

text \<open>\<open>data\<close> is an array of at least eight bytes; the first eight are sent.\<close>

definition rqc_gen_path_challenge_frame :: "rqc_packet_out \<Rightarrow> byte list \<Rightarrow> nat gen" where
  "rqc_gen_path_challenge_frame po data =
     (let frame_type = (0x1a :: u64);
          frame_type_bits = rqc_vint_get_2bit (uint frame_type);
          need = rqc_vint_len frame_type_bits + RQC_PATH_CHALLENGE_DATA_LEN
      in if need > rqc_get_po_remained_size po then (Err (- RQC_ENOBUF), po)
         else po_write po RQC_FRAME_BIT_PATH_CHALLENGE (\<lambda>c. do {
           c \<leftarrow> wr_vint frame_type frame_type_bits c;
           wr_mem (take RQC_PATH_CHALLENGE_DATA_LEN data) c }))"

definition rqc_parse_path_challenge_frame :: "rqc_packet_in \<Rightarrow> (rqc_packet_in \<times> byte list) res" where
  "rqc_parse_path_challenge_frame pi =
     (let p = pi_pos pi + 1
      in if p + RQC_PATH_CHALLENGE_DATA_LEN > pi_last pi then Err (- RQC_EVINTREAD)
         else res_bind (rd_mem pi p RQC_PATH_CHALLENGE_DATA_LEN) (\<lambda>data.
           Inr (pi_done pi (p + RQC_PATH_CHALLENGE_DATA_LEN) RQC_FRAME_BIT_PATH_CHALLENGE, data)))"

definition rqc_gen_path_response_frame :: "rqc_packet_out \<Rightarrow> byte list \<Rightarrow> nat gen" where
  "rqc_gen_path_response_frame po data =
     (let frame_type = (0x1b :: u64);
          frame_type_bits = rqc_vint_get_2bit (uint frame_type);
          need = rqc_vint_len frame_type_bits + RQC_PATH_CHALLENGE_DATA_LEN
      in if need > rqc_get_po_remained_size po then (Err (- RQC_ENOBUF), po)
         else po_write po RQC_FRAME_BIT_PATH_RESPONSE (\<lambda>c. do {
           c \<leftarrow> wr_vint frame_type frame_type_bits c;
           wr_mem (take RQC_PATH_CHALLENGE_DATA_LEN data) c }))"

definition rqc_parse_path_response_frame :: "rqc_packet_in \<Rightarrow> (rqc_packet_in \<times> byte list) res" where
  "rqc_parse_path_response_frame pi =
     (let p = pi_pos pi + 1
      in if p + RQC_PATH_CHALLENGE_DATA_LEN > pi_last pi then Err (- RQC_EVINTREAD)
         else res_bind (rd_mem pi p RQC_PATH_CHALLENGE_DATA_LEN) (\<lambda>data.
           Inr (pi_done pi (p + RQC_PATH_CHALLENGE_DATA_LEN) RQC_FRAME_BIT_PATH_RESPONSE, data)))"

subsection \<open>HANDSHAKE\<close>

text \<open>The three byte strings are given with their lengths; \<open>need\<close> and the lengths are \<open>size_t\<close>.\<close>

definition rqc_gen_handshake_frame ::
  "rqc_packet_out \<Rightarrow> byte list \<Rightarrow> byte list \<Rightarrow> byte list \<Rightarrow> nat gen" where
  "rqc_gen_handshake_frame po alpn tp proto_ext =
     (let alpn_len_bits = rqc_vint_get_2bit (int (length alpn));
          alpn_len_vlen = rqc_vint_len alpn_len_bits;
          tp_len_bits = rqc_vint_get_2bit (int (length tp));
          tp_len_vlen = rqc_vint_len tp_len_bits;
          proto_ext_len_bits = rqc_vint_get_2bit (int (length proto_ext));
          proto_ext_len_vlen = rqc_vint_len proto_ext_len_bits;
          need = 1 + alpn_len_vlen + length alpn + tp_len_vlen + length tp +
                 proto_ext_len_vlen + length proto_ext
      in if need > rqc_get_po_remained_size po then (Err (- RQC_ENOBUF), po)
         else case po_write po RQC_FRAME_BIT_HANDSHAKE (\<lambda>c. do {
             c \<leftarrow> wr_u8 0x06 c;
             c \<leftarrow> wr_vint (of_nat (length alpn)) alpn_len_bits c;
             c \<leftarrow> wr_mem alpn c;
             c \<leftarrow> wr_vint (of_nat (length tp)) tp_len_bits c;
             c \<leftarrow> wr_mem tp c;
             c \<leftarrow> wr_vint (of_nat (length proto_ext)) proto_ext_len_bits c;
             if length proto_ext > 0 then wr_mem proto_ext c else Some c }) of
           (Inl f, po') \<Rightarrow> (Inl f, po') | (Inr _, po') \<Rightarrow> (Inr need, po'))"

text \<open>
  One of the three length-prefixed strings. The last check returns \<open>RQC_ENOBUF\<close> without the
  minus sign of every other error return.
\<close>

definition parse_hs_string :: "rqc_packet_in \<Rightarrow> nat \<Rightarrow> nat \<Rightarrow> (byte list \<times> nat) res" where
  "parse_hs_string pi p cap =
     res_bind (rd_vint (- RQC_EVINTREAD) pi p) (\<lambda>(len, p).
       if p + unat len > pi_last pi then Err (- RQC_EILLFRAME)
       else if cap < unat len then Err RQC_ENOBUF
       else res_bind (rd_mem pi p (unat len)) (\<lambda>data. Inr (data, p + unat len)))"

definition rqc_parse_handshake_frame ::
  "rqc_packet_in \<Rightarrow> nat \<Rightarrow> nat \<Rightarrow> nat \<Rightarrow> (rqc_packet_in \<times> byte list \<times> byte list \<times> byte list) res" where
  "rqc_parse_handshake_frame pi alpn_cap tp_cap proto_ext_cap =
     res_bind (parse_hs_string pi (pi_pos pi + 1) alpn_cap) (\<lambda>(alpn, p).
     res_bind (parse_hs_string pi p tp_cap) (\<lambda>(tp, p).
     res_bind (parse_hs_string pi p proto_ext_cap) (\<lambda>(proto_ext, p).
       Inr (pi_done pi p RQC_FRAME_BIT_HANDSHAKE, alpn, tp, proto_ext))))"


subsection \<open>The frames as values\<close>

text \<open>
  What a frame carries, its bytes on the wire, and the calls of the generators and of the
  parsers for it. \<open>ctrl_dispatch\<close> is the part of the \<open>switch\<close> of \<open>rqc_process_frames\<close> for these
  frames, up to the parser that each \<open>rqc_process_*_frame\<close> calls first. The capacities are
  those of the buffers of \<open>rqc_process_handshake_frame\<close>.
\<close>

datatype rqc_ctrl_frame =
    Ping
  | Conn_Close u64 bool
  | Reset_Stream u64 u64 u64
  | Stop_Sending u64 u64
  | Data_Blocked u64
  | Stream_Data_Blocked u64 u64
  | Streams_Blocked u64 bool
  | Max_Data u64
  | Max_Stream_Data u64 u64
  | Max_Streams u64 bool
  | Path_Challenge "byte list"
  | Path_Response "byte list"
  | Handshake "byte list" "byte list" "byte list"

fun ctrl_bit :: "rqc_ctrl_frame \<Rightarrow> u32" where
  "ctrl_bit Ping = RQC_FRAME_BIT_PING"
| "ctrl_bit (Conn_Close _ _) = RQC_FRAME_BIT_CONNECTION_CLOSE"
| "ctrl_bit (Reset_Stream _ _ _) = RQC_FRAME_BIT_RESET_STREAM"
| "ctrl_bit (Stop_Sending _ _) = RQC_FRAME_BIT_STOP_SENDING"
| "ctrl_bit (Data_Blocked _) = RQC_FRAME_BIT_DATA_BLOCKED"
| "ctrl_bit (Stream_Data_Blocked _ _) = RQC_FRAME_BIT_STREAM_DATA_BLOCKED"
| "ctrl_bit (Streams_Blocked _ _) = RQC_FRAME_BIT_STREAMS_BLOCKED"
| "ctrl_bit (Max_Data _) = RQC_FRAME_BIT_MAX_DATA"
| "ctrl_bit (Max_Stream_Data _ _) = RQC_FRAME_BIT_MAX_STREAM_DATA"
| "ctrl_bit (Max_Streams _ _) = RQC_FRAME_BIT_MAX_STREAMS"
| "ctrl_bit (Path_Challenge _) = RQC_FRAME_BIT_PATH_CHALLENGE"
| "ctrl_bit (Path_Response _) = RQC_FRAME_BIT_PATH_RESPONSE"
| "ctrl_bit (Handshake _ _ _) = RQC_FRAME_BIT_HANDSHAKE"

definition len_prefixed :: "byte list \<Rightarrow> byte list" where
  "len_prefixed bs = vint_enc (of_nat (length bs)) @ bs"

fun ctrl_bytes :: "rqc_ctrl_frame \<Rightarrow> byte list" where
  "ctrl_bytes Ping = [0x01]"
| "ctrl_bytes (Conn_Close e app) =
     [if app then 0x1d else 0x1c] @ vint_enc e @ (if app then [] else vint_enc 0) @ vint_enc 0"
| "ctrl_bytes (Reset_Stream i e f) = [0x04] @ vint_enc i @ vint_enc e @ vint_enc f"
| "ctrl_bytes (Stop_Sending i e) = [0x05] @ vint_enc i @ vint_enc e"
| "ctrl_bytes (Data_Blocked l) = [0x14] @ vint_enc l"
| "ctrl_bytes (Stream_Data_Blocked i l) = [0x15] @ vint_enc i @ vint_enc l"
| "ctrl_bytes (Streams_Blocked l b) = [if b then 0x16 else 0x17] @ vint_enc l"
| "ctrl_bytes (Max_Data l) = [0x10] @ vint_enc l"
| "ctrl_bytes (Max_Stream_Data i l) = [0x11] @ vint_enc i @ vint_enc l"
| "ctrl_bytes (Max_Streams l b) = [if b then 0x12 else 0x13] @ vint_enc l"
| "ctrl_bytes (Path_Challenge d) = [0x1a] @ d"
| "ctrl_bytes (Path_Response d) = [0x1b] @ d"
| "ctrl_bytes (Handshake a t x) = [0x06] @ len_prefixed a @ len_prefixed t @ len_prefixed x"

fun ctrl_ok :: "rqc_ctrl_frame \<Rightarrow> bool" where
  "ctrl_ok Ping \<longleftrightarrow> True"
| "ctrl_ok (Conn_Close e app) \<longleftrightarrow> e < 2 ^ 62"
| "ctrl_ok (Reset_Stream i e f) \<longleftrightarrow> i < 2 ^ 62 \<and> e < 2 ^ 62 \<and> f < 2 ^ 62"
| "ctrl_ok (Stop_Sending i e) \<longleftrightarrow> i < 2 ^ 62 \<and> e < 2 ^ 62"
| "ctrl_ok (Data_Blocked l) \<longleftrightarrow> l < 2 ^ 62"
| "ctrl_ok (Stream_Data_Blocked i l) \<longleftrightarrow> i < 2 ^ 62 \<and> l < 2 ^ 62"
| "ctrl_ok (Streams_Blocked l b) \<longleftrightarrow> l < 2 ^ 62"
| "ctrl_ok (Max_Data l) \<longleftrightarrow> l < 2 ^ 62"
| "ctrl_ok (Max_Stream_Data i l) \<longleftrightarrow> i < 2 ^ 62 \<and> l < 2 ^ 62"
| "ctrl_ok (Max_Streams l b) \<longleftrightarrow> l < 2 ^ 62"
| "ctrl_ok (Path_Challenge d) \<longleftrightarrow> length d = 8"
| "ctrl_ok (Path_Response d) \<longleftrightarrow> length d = 8"
| "ctrl_ok (Handshake a t x) \<longleftrightarrow> length a \<le> 255 \<and> length t \<le> 256 \<and> length x \<le> 512"

fun gen_ctrl :: "rqc_packet_out \<Rightarrow> rqc_ctrl_frame \<Rightarrow> nat gen" where
  "gen_ctrl po Ping = rqc_gen_ping_frame po"
| "gen_ctrl po (Conn_Close e app) = rqc_gen_conn_close_frame po e app 0"
| "gen_ctrl po (Reset_Stream i e f) = rqc_gen_reset_stream_frame po i e f"
| "gen_ctrl po (Stop_Sending i e) = rqc_gen_stop_sending_frame po i e"
| "gen_ctrl po (Data_Blocked l) = rqc_gen_data_blocked_frame po l"
| "gen_ctrl po (Stream_Data_Blocked i l) = rqc_gen_stream_data_blocked_frame po i l"
| "gen_ctrl po (Streams_Blocked l b) = rqc_gen_streams_blocked_frame po l b"
| "gen_ctrl po (Max_Data l) = rqc_gen_max_data_frame po l"
| "gen_ctrl po (Max_Stream_Data i l) = rqc_gen_max_stream_data_frame po i l"
| "gen_ctrl po (Max_Streams l b) = rqc_gen_max_streams_frame po l b"
| "gen_ctrl po (Path_Challenge d) = rqc_gen_path_challenge_frame po d"
| "gen_ctrl po (Path_Response d) = rqc_gen_path_response_frame po d"
| "gen_ctrl po (Handshake a t x) = rqc_gen_handshake_frame po a t x"

definition ctrl_dispatch :: "rqc_packet_in \<Rightarrow> (rqc_packet_in \<times> rqc_ctrl_frame) res" where
  "ctrl_dispatch pi =
     res_bind (rd_vint (- RQC_EVINTREAD) pi (pi_pos pi)) (\<lambda>(frame_type, _).
       if frame_type = 0x01 then res_bind (rqc_parse_ping_frame pi) (\<lambda>pi'. Inr (pi', Ping))
       else if frame_type = 0x04 then
         res_bind (rqc_parse_reset_stream_frame pi) (\<lambda>(pi', i, e, f). Inr (pi', Reset_Stream i e f))
       else if frame_type = 0x05 then
         res_bind (rqc_parse_stop_sending_frame pi) (\<lambda>(pi', i, e). Inr (pi', Stop_Sending i e))
       else if frame_type = 0x06 then
         res_bind (rqc_parse_handshake_frame pi 255 256 512) (\<lambda>(pi', a, t, x). Inr (pi', Handshake a t x))
       else if frame_type = 0x10 then res_bind (rqc_parse_max_data_frame pi) (\<lambda>(pi', l). Inr (pi', Max_Data l))
       else if frame_type = 0x11 then
         res_bind (rqc_parse_max_stream_data_frame pi) (\<lambda>(pi', i, l). Inr (pi', Max_Stream_Data i l))
       else if frame_type = 0x12 \<or> frame_type = 0x13 then
         res_bind (rqc_parse_max_streams_frame pi) (\<lambda>(pi', l, b). Inr (pi', Max_Streams l b))
       else if frame_type = 0x14 then
         res_bind (rqc_parse_data_blocked_frame pi) (\<lambda>(pi', l). Inr (pi', Data_Blocked l))
       else if frame_type = 0x15 then
         res_bind (rqc_parse_stream_data_blocked_frame pi) (\<lambda>(pi', i, l). Inr (pi', Stream_Data_Blocked i l))
       else if frame_type = 0x16 \<or> frame_type = 0x17 then
         res_bind (rqc_parse_streams_blocked_frame pi) (\<lambda>(pi', l, b). Inr (pi', Streams_Blocked l b))
       else if frame_type = 0x1a then
         res_bind (rqc_parse_path_challenge_frame pi) (\<lambda>(pi', d). Inr (pi', Path_Challenge d))
       else if frame_type = 0x1b then
         res_bind (rqc_parse_path_response_frame pi) (\<lambda>(pi', d). Inr (pi', Path_Response d))
       else if frame_type = 0x1c \<or> frame_type = 0x1d then
         res_bind (rqc_parse_conn_close_frame pi) (\<lambda>(pi', e). Inr (pi', Conn_Close e (frame_type = 0x1d)))
       else Err (- RQC_EIGNORE_PKT))"

subsection \<open>Generators\<close>

lemma wr_u8_mem [simp]: "wr_u8 b = wr_mem [b]"
  by (simp add: wr_u8_def fun_eq_iff)

lemma wr_vint_mem [simp]: "wr_vint v (rqc_vint_get_2bit (uint v)) = wr_mem (vint_enc v)"
  by (simp add: wr_vint_enc fun_eq_iff)

lemma wr_vint_mem0 [simp]: "wr_vint 0 (rqc_vint_get_2bit 0) = wr_mem (vint_enc 0)"
  using wr_vint_mem [of 0] by simp

lemma wr_vint_mem_size:
  "n < 2 ^ 62 \<Longrightarrow> wr_vint (of_nat n) (rqc_vint_get_2bit (int n)) = wr_mem (vint_enc (of_nat n))"
  using wr_vint_mem [of "of_nat n"] by (simp add: uint_of_nat_small)

lemma length_vint_enc_size: "n < 2 ^ 62 \<Longrightarrow> length (vint_enc (of_nat n)) = rqc_vint_len (rqc_vint_get_2bit (int n))"
  by (simp add: uint_of_nat_small)

text \<open>
  The space a generator asks for: CONNECTION_CLOSE counts the frame type even for an
  application error, where it is not sent.
\<close>

definition ctrl_need :: "rqc_ctrl_frame \<Rightarrow> nat" where
  "ctrl_need f = length (ctrl_bytes f) + (case f of Conn_Close e True \<Rightarrow> 1 | _ \<Rightarrow> 0)"

definition ctrl_checked :: "rqc_ctrl_frame \<Rightarrow> bool" where
  "ctrl_checked f \<longleftrightarrow> (case f of Data_Blocked _ \<Rightarrow> False | Stream_Data_Blocked _ _ \<Rightarrow> False
     | Streams_Blocked _ _ \<Rightarrow> False | Max_Data _ \<Rightarrow> False | Max_Stream_Data _ _ \<Rightarrow> False
     | Max_Streams _ _ \<Rightarrow> False | _ \<Rightarrow> True)"

lemmas gen_frame_defs = rqc_gen_ping_frame_def rqc_gen_conn_close_frame_def rqc_gen_reset_stream_frame_def
  rqc_gen_stop_sending_frame_def rqc_gen_data_blocked_frame_def rqc_gen_stream_data_blocked_frame_def
  rqc_gen_streams_blocked_frame_def rqc_gen_max_data_frame_def rqc_gen_max_stream_data_frame_def
  rqc_gen_max_streams_frame_def rqc_gen_path_challenge_frame_def rqc_gen_path_response_frame_def
  rqc_gen_handshake_frame_def

lemma two_bit_small [simp]: "rqc_vint_get_2bit 0 = 0" "rqc_vint_get_2bit 26 = 0" "rqc_vint_get_2bit 27 = 0"
  by (simp_all add: rqc_vint_get_2bit_def)

lemma vint_enc_small [simp]: "vint_enc 26 = [26]" "vint_enc 27 = [27]"
  by (simp_all add: vint_enc_def rqc_vint_bytes_eq [of 0, simplified])

lemma wr_vint_small [simp]:
  "wr_vint 0 0 = wr_mem (vint_enc 0)" "wr_vint 26 0 = wr_mem [26]" "wr_vint 27 0 = wr_mem [27]"
  using wr_vint_mem [of 0] wr_vint_mem [of 26] wr_vint_mem [of 27] by simp_all

lemma gen_ctrl_appends:
  assumes po: "po_ok po" and f: "ctrl_ok f" and room: "ctrl_need f \<le> rqc_get_po_remained_size po"
  shows "appends po (gen_ctrl po f) (ctrl_bit f) (ctrl_bytes f)"
proof -
  have fits: "po_used_size po + length (ctrl_bytes f) \<le> length (po_buf po)"
    using remained_fits [OF po room] by (simp add: ctrl_need_def)
  have "gen_ctrl po f = po_write po (ctrl_bit f) (wr_mem (ctrl_bytes f))"
  proof (cases f)
    case (Handshake a t x)
    then have u: "uint (of_nat (length a) :: u64) = int (length a)" "uint (of_nat (length t) :: u64) = int (length t)"
      "uint (of_nat (length x) :: u64) = int (length x)"
      using f by (simp_all add: uint_of_nat_small)
    have "length a < 2 ^ 62" "length t < 2 ^ 62" "length x < 2 ^ 62" using f Handshake by simp_all
    then show ?thesis
      using room fits Handshake
      by (simp add: rqc_gen_handshake_frame_def ctrl_need_def wr_vint_mem_size u Let_def
          len_prefixed_def po_write_mem)
  qed (use f room in \<open>auto simp: gen_frame_defs ctrl_need_def Let_def\<close>)
  then show ?thesis using po_write_appends [OF fits] by simp
qed


lemma gen_ctrl_full:
  assumes "ctrl_checked f" "ctrl_ok f" "ctrl_need f > rqc_get_po_remained_size po"
  shows "gen_ctrl po f = (Err (- RQC_ENOBUF), po)"
proof (cases f)
  case (Handshake a t x)
  then have u: "uint (of_nat (length a) :: u64) = int (length a)" "uint (of_nat (length t) :: u64) = int (length t)"
    "uint (of_nat (length x) :: u64) = int (length x)"
    using assms(2) by (simp_all add: uint_of_nat_small)
  then show ?thesis using assms Handshake
    by (simp add: rqc_gen_handshake_frame_def ctrl_need_def u Let_def len_prefixed_def)
qed (use assms in \<open>auto simp: gen_frame_defs ctrl_need_def ctrl_checked_def Let_def split: bool.splits\<close>)

subsection \<open>Parsers\<close>

lemmas parse_frame_defs = rqc_parse_ping_frame_def rqc_parse_conn_close_frame_def
  rqc_parse_reset_stream_frame_def rqc_parse_stop_sending_frame_def rqc_parse_data_blocked_frame_def
  rqc_parse_stream_data_blocked_frame_def rqc_parse_streams_blocked_frame_def rqc_parse_max_data_frame_def
  rqc_parse_max_stream_data_frame_def rqc_parse_max_streams_frame_def rqc_parse_path_challenge_frame_def
  rqc_parse_path_response_frame_def rqc_parse_handshake_frame_def

text \<open>The first byte of each of these frames is its type, in one byte.\<close>

lemma rd_vint_type:
  assumes "carries pi p (b # bs)" "b < 64"
  shows "rd_vint err pi p = Inr (ucast b, p + 1)"
proof -
  have "pi_buf pi ! p = b" "p < pi_last pi" using assms by (auto simp: carries_Cons)
  moreover have "drop_bit 6 b = 0" using assms(2) by (simp add: drop_bit_eq_div word_less_nat_alt word_unat_eq_iff unat_div)
  ultimately show ?thesis by (simp add: rd_vint_def rqc_vint_read_def)
qed

lemma parse_hs_string_carries:
  assumes "carries pi p (len_prefixed bs)" "length bs \<le> cap" "length bs < 2 ^ 62"
  shows "parse_hs_string pi p cap = Inr (bs, p + length (len_prefixed bs))"
proof -
  have v: "(of_nat (length bs) :: u64) < 2 ^ 62" using assms(3) by (rule of_nat_less_62)
  have u: "unat (of_nat (length bs) :: u64) = length bs" using assms(3) by (simp add: unat_of_nat_small)
  have c: "carries pi p (vint_enc (of_nat (length bs)))"
    "carries pi (p + length (vint_enc (of_nat (length bs)))) bs"
    using assms(1) by (simp_all add: len_prefixed_def)
  then have "p + length (vint_enc (of_nat (length bs))) + length bs \<le> pi_last pi" by (simp add: carries_def)
  with c v u assms(2) show ?thesis by (simp add: parse_hs_string_def len_prefixed_def)
qed

lemma ctrl_dispatch_carries:
  assumes f: "ctrl_ok f" and c: "carries pi (pi_pos pi) (ctrl_bytes f)"
  shows "ctrl_dispatch pi = Inr (pi_done pi (pi_pos pi + length (ctrl_bytes f)) (ctrl_bit f), f)"
proof -
  obtain b bs where bs: "ctrl_bytes f = b # bs" "b < 64"
    by (cases f) (auto simp: word_less_nat_alt)
  then have ty: "rd_vint (- RQC_EVINTREAD) pi (pi_pos pi) = Inr (ucast b, pi_pos pi + 1)"
    using c rd_vint_type [of pi "pi_pos pi" b bs] by simp
  have b: "rd_u8 pi (pi_pos pi) = Inr (b, pi_pos pi + 1)" using c bs by simp
  have c': "carries pi (pi_pos pi + 1) bs" using c bs by (simp add: carries_Cons)
  note d = ctrl_dispatch_def ty b parse_frame_defs Let_def
  show ?thesis
  proof (cases f)
    case (Handshake a t x)
    then show ?thesis using c' f bs by (auto simp: d parse_hs_string_carries)
  next
    case (Path_Challenge x)
    then show ?thesis using c' f bs by (auto simp: d) (auto simp: carries_def)
  next
    case (Path_Response x)
    then show ?thesis using c' f bs by (auto simp: d) (auto simp: carries_def)
  next
    case (Conn_Close e app)
    then show ?thesis using c' f bs by (cases app) (auto simp: d)
  next
    case (Streams_Blocked l bi)
    then show ?thesis using c' f bs by (cases bi) (auto simp: d)
  next
    case (Max_Streams l bi)
    then show ?thesis using c' f bs by (cases bi) (auto simp: d)
  qed (use c' f bs in \<open>auto simp: d\<close>)
qed

text \<open>
  Safety: what a parser step may do. It does not read outside the packet, it makes progress,
  and it stops inside the packet.
\<close>

definition step_safe :: "rqc_packet_in \<Rightarrow> rqc_packet_in res \<Rightarrow> bool" where
  "step_safe pi r \<longleftrightarrow>
     (case r of Inl f \<Rightarrow> f \<noteq> Fault
      | Inr pi' \<Rightarrow> pi_pos pi < pi_pos pi' \<and> pi_pos pi' \<le> pi_last pi \<and> pi_last pi' = pi_last pi \<and> pi_buf pi' = pi_buf pi)"

lemma step_safe_done [simp]:
  "step_safe pi (Inr (pi_done pi p b)) \<longleftrightarrow> pi_pos pi < p \<and> p \<le> pi_last pi"
  "step_safe pi (Err e)"
  by (auto simp: step_safe_def pi_done_def)

lemma safe_vint:
  assumes "\<And>v q. p < q \<Longrightarrow> q \<le> pi_last pi \<Longrightarrow> v < 2 ^ 62 \<Longrightarrow> step_safe pi (map_sum id fst (f (v, q)))"
  shows "step_safe pi (map_sum id fst (res_bind (rd_vint (- e) pi p) f))"
proof (cases "rd_vint (- e) pi p")
  case (Inr vq)
  obtain v q where "vq = (v, q)" by force
  with Inr assms [of q v] rd_vint_Inr [of "- e" pi p v q] show ?thesis by simp
qed (auto dest: rd_vint_Inl simp: step_safe_def)

lemma safe_mem:
  assumes "pi_ok pi" "p + n \<le> pi_last pi" "step_safe pi (map_sum id fst (f (take n (drop p (pi_buf pi)))))"
  shows "step_safe pi (map_sum id fst (res_bind (rd_mem pi p n) f))"
  using assms by (simp add: rd_mem_ok)

lemma safe_hs_string:
  assumes ok: "pi_ok pi"
    and f: "\<And>bs q. p < q \<Longrightarrow> q \<le> pi_last pi \<Longrightarrow> step_safe pi (map_sum id fst (f (bs, q)))"
  shows "step_safe pi (map_sum id fst (res_bind (parse_hs_string pi p cap) f))"
proof (cases "rd_vint (- RQC_EVINTREAD) pi p")
  case (Inl e)
  then show ?thesis by (auto simp: parse_hs_string_def step_safe_def dest: rd_vint_Inl)
next
  case (Inr vq)
  obtain v q where vq: "vq = (v, q)" by force
  with Inr rd_vint_Inr [of "- RQC_EVINTREAD" pi p v q] have "p < q" by simp
  then show ?thesis using Inr vq ok f [of "q + unat v"]
    by (auto simp: parse_hs_string_def rd_mem_ok)
qed

lemma safe_tag: "step_safe pi (map_sum id fst (case x of (y, z) \<Rightarrow> f y z)) \<longleftrightarrow>
    step_safe pi (map_sum id fst (f (fst x) (snd x)))"
  by (simp add: split_def)

lemma map_sum_res_bind: "map_sum id g (res_bind r f) = res_bind r (\<lambda>x. map_sum id g (f x))"
  by (cases r) simp_all

definition parser_safe :: "rqc_packet_in \<Rightarrow> (rqc_packet_in \<times> 'a) res \<Rightarrow> bool" where
  "parser_safe pi r \<longleftrightarrow> step_safe pi (map_sum id fst r)"

lemma parser_safe_map:
  assumes "parser_safe pi r"
  shows "parser_safe pi (res_bind r (\<lambda>x. Inr (fst x, g x)))"
  using assms by (cases r) (auto simp: parser_safe_def)

lemma parse_ctrl_safe:
  assumes "pi_ok pi" "pi_pos pi < pi_last pi"
  shows "step_safe pi (rqc_parse_ping_frame pi)"
    "parser_safe pi (rqc_parse_reset_stream_frame pi)"
    "parser_safe pi (rqc_parse_stop_sending_frame pi)"
    "parser_safe pi (rqc_parse_data_blocked_frame pi)"
    "parser_safe pi (rqc_parse_stream_data_blocked_frame pi)"
    "parser_safe pi (rqc_parse_streams_blocked_frame pi)"
    "parser_safe pi (rqc_parse_max_data_frame pi)"
    "parser_safe pi (rqc_parse_max_stream_data_frame pi)"
    "parser_safe pi (rqc_parse_max_streams_frame pi)"
    "parser_safe pi (rqc_parse_path_challenge_frame pi)"
    "parser_safe pi (rqc_parse_path_response_frame pi)"
    "parser_safe pi (rqc_parse_handshake_frame pi c1 c2 c3)"
  using assms unfolding parser_safe_def parse_frame_defs
  by (auto simp: Let_def intro!: safe_vint safe_mem safe_hs_string)


lemma rqc_parse_conn_close_safe:
  assumes "pi_ok pi" "pi_pos pi < pi_last pi"
  shows "case rqc_parse_conn_close_frame pi of Inl f \<Rightarrow> f \<noteq> Fault
    | Inr (pi', e) \<Rightarrow> pi_pos pi < pi_pos pi' \<and> pi_buf pi' = pi_buf pi \<and> pi_last pi' = pi_last pi"
  using assms
  by (auto simp: rqc_parse_conn_close_frame_def pi_done_def res_bind_def
      split: sum.splits if_splits dest!: rd_vint_Inl rd_vint_Inr)

lemma parser_safe_D:
  assumes "parser_safe pi r" "pi_ok pi"
  shows "r \<noteq> Inl Fault"
    "r = Inr (pi', x) \<Longrightarrow> pi_pos pi < pi_pos pi' \<and> pi_ok pi' \<and> pi_buf pi' = pi_buf pi \<and> pi_last pi' = pi_last pi"
  using assms by (auto simp: parser_safe_def step_safe_def pi_ok_def split: sum.splits)

lemma ctrl_dispatch_step:
  assumes ok: "pi_ok pi" and lt: "pi_pos pi < pi_last pi"
  shows "ctrl_dispatch pi \<noteq> Inl Fault \<and>
    (\<forall>pi' f. ctrl_dispatch pi = Inr (pi', f) \<longrightarrow>
       pi_pos pi < pi_pos pi' \<and> pi_buf pi' = pi_buf pi \<and> pi_last pi' = pi_last pi \<and>
       ((\<forall>e app. f \<noteq> Conn_Close e app) \<longrightarrow> pi_ok pi'))"
proof -
  note safe = parse_ctrl_safe [OF ok lt]
  have ping: "rqc_parse_ping_frame pi \<noteq> Inl Fault" "rqc_parse_ping_frame pi = Inr pi' \<Longrightarrow>
     pi_pos pi < pi_pos pi' \<and> pi_ok pi' \<and> pi_buf pi' = pi_buf pi \<and> pi_last pi' = pi_last pi" for pi'
    using safe(1) ok by (auto simp: step_safe_def pi_ok_def split: sum.splits)
  have cc: "rqc_parse_conn_close_frame pi \<noteq> Inl Fault" "rqc_parse_conn_close_frame pi = Inr (pi', e) \<Longrightarrow>
     pi_pos pi < pi_pos pi' \<and> pi_buf pi' = pi_buf pi \<and> pi_last pi' = pi_last pi" for pi' e
    using rqc_parse_conn_close_safe [OF ok lt] by (auto split: sum.splits)
  note nofault = safe(2-12) [THEN parser_safe_D(1), OF ok] ping(1) cc(1)
  note step = safe(2-12) [THEN parser_safe_D(2), OF ok] ping(2) cc(2)
  show ?thesis
  proof (cases "rd_vint (- RQC_EVINTREAD) pi (pi_pos pi)")
    case (Inl e)
    then show ?thesis by (auto simp: ctrl_dispatch_def dest: rd_vint_Inl)
  next
    case (Inr tq)
    obtain t q where "tq = (t, q)" by force
    with Inr show ?thesis unfolding ctrl_dispatch_def
      by (auto simp: res_bind_eq_Inl res_bind_eq_Inr nofault dest: step split: if_splits)
  qed
qed

lemma skip_padding_spec:
  "p \<le> e \<Longrightarrow> p \<le> skip_padding buf p e \<and> skip_padding buf p e \<le> e \<and>
   (\<forall>i. p \<le> i \<and> i < skip_padding buf p e \<longrightarrow> buf ! i = 0) \<and>
   (skip_padding buf p e < e \<longrightarrow> buf ! skip_padding buf p e \<noteq> 0)"
proof (induction buf p e rule: skip_padding.induct)
  case (1 buf p e)
  show ?case
  proof (cases "p < e \<and> buf ! p = 0")
    case True
    then have eq: "skip_padding buf p e = skip_padding buf (p + 1) e" by (subst skip_padding.simps) simp
    have IH: "p + 1 \<le> skip_padding buf (p + 1) e" "skip_padding buf (p + 1) e \<le> e"
      "\<And>i. p + 1 \<le> i \<Longrightarrow> i < skip_padding buf (p + 1) e \<Longrightarrow> buf ! i = 0"
      "skip_padding buf (p + 1) e < e \<Longrightarrow> buf ! skip_padding buf (p + 1) e \<noteq> 0"
      using "1.IH" [OF True] True by auto
    have "buf ! i = 0" if "p \<le> i" "i < skip_padding buf (p + 1) e" for i
      using that True IH(3) [of i] by (cases "i = p") auto
    with IH show ?thesis unfolding eq by auto
  next
    case False
    then have "skip_padding buf p e = p" by (subst skip_padding.simps) auto
    with False "1.prems" show ?thesis by auto
  qed
qed


subsection \<open>Properties\<close>

text \<open>
  C14: every control frame survives the wire: in a packet with room for it, the generator
  succeeds, keeps the packet well formed and the bytes already written, and a receiver whose
  packet carries the appended bytes parses, through the frame-type dispatch, exactly the same
  frame, advances by exactly its length and marks exactly its type bit.
\<close>

theorem ctrl_frame_roundtrip:
  assumes "po_ok po" and "ctrl_ok f" and "ctrl_need f \<le> rqc_get_po_remained_size po"
  shows "\<exists>n po'. gen_ctrl po f = (Inr n, po') \<and> po_ok po' \<and>
    take (po_used_size po) (po_buf po') = take (po_used_size po) (po_buf po) \<and>
    po_frame_types po' = po_frame_types po OR ctrl_bit f \<and>
    (\<forall>pi. carries pi (pi_pos pi) (po_frame po' n) \<longrightarrow>
       ctrl_dispatch pi = Inr (pi_done pi (pi_pos pi + n) (ctrl_bit f), f))"
proof -
  have a: "appends po (gen_ctrl po f) (ctrl_bit f) (ctrl_bytes f)" by (rule gen_ctrl_appends [OF assms])
  from appends_D [OF a assms(1)] obtain po' where po': "gen_ctrl po f = (Inr (length (ctrl_bytes f)), po')"
    "po_ok po'" "po_frame po' (length (ctrl_bytes f)) = ctrl_bytes f"
    "take (po_used_size po) (po_buf po') = take (po_used_size po) (po_buf po)" by blast
  then have "po_frame_types po' = po_frame_types po OR ctrl_bit f"
    using a by (auto simp: appends_def)
  with po' ctrl_dispatch_carries [OF assms(2)] show ?thesis
    by (intro exI [of _ "length (ctrl_bytes f)"] exI [of _ po']) simp
qed

definition po_example :: rqc_packet_out where
  "po_example = \<lparr>po_pkt = \<lparr>pkt_num = 0, pkt_type = RQC_PTYPE_SHORT_HEADER,
      pkt_dcid = \<lparr>cid_len = 0, cid_buf = [], cid_seq_num = 0, cid_path_id = 0\<rparr>,
      pkt_scid = \<lparr>cid_len = 0, cid_buf = [], cid_seq_num = 0, cid_path_id = 0\<rparr>, pkt_length = 0, pkt_num_offset = 0\<rparr>,
    po_buf = replicate RQC_PACKET_OUT_BUF_CAP 0, po_ppktno = None, po_payload = None, po_padding = None,
    po_buf_size = 1200, po_used_size = 10, po_ack_offset = 0, po_flag = 0, po_largest_ack = 0,
    po_frame_types = 0,
    po_stream_frames = replicate 3 \<lparr>ps_stream_id = 0, ps_offset = 0, ps_length = 0, ps_type_offset = 0,
      ps_length_offset = 0, ps_is_used = False, ps_has_fin = False, ps_is_reset = False\<rparr>,
    po_stream_frames_idx = 0\<rparr>"

lemma po_example_simps [simp]:
  "po_ok po_example" "rqc_get_po_remained_size po_example = 1190" "po_used_size po_example = 10"
  "po_frame_types po_example = 0" "length (po_buf po_example) = 1452" "po_stream_frames_idx po_example = 0"
  "rqc_get_po_remained_size_with_ack_spc po_example = 1206"
  by (simp_all add: po_ok_def po_example_def rqc_get_po_remained_size_def rqc_get_po_remained_size_with_ack_spc_def)

theorem ctrl_frame_roundtrip_witness:
  "\<exists>n po'. gen_ctrl po_example (Reset_Stream 4 7 300) = (Inr n, po') \<and>
    (\<forall>pi. carries pi (pi_pos pi) (po_frame po' n) \<longrightarrow>
       ctrl_dispatch pi = Inr (pi_done pi (pi_pos pi + n) RQC_FRAME_BIT_RESET_STREAM, Reset_Stream 4 7 300))"
proof -
  have "ctrl_ok (Reset_Stream 4 7 300)" by simp
  moreover have "ctrl_need (Reset_Stream 4 7 300) \<le> rqc_get_po_remained_size po_example"
    by (simp add: ctrl_need_def rqc_vint_get_2bit_def)
  ultimately show ?thesis
    using ctrl_frame_roundtrip [of po_example "Reset_Stream 4 7 300"]
    by (simp only: po_example_simps ctrl_bit.simps) blast
qed

text \<open>
  C15: parsing a control frame from any received bytes is memory safe: from a position inside
  the packet the dispatch never reads outside the buffer, makes progress, and except for
  CONNECTION_CLOSE leaves the position inside the packet.
\<close>

theorem ctrl_parse_safe:
  assumes "pi_ok pi" and "pi_pos pi < pi_last pi"
  shows "ctrl_dispatch pi \<noteq> Inl Fault \<and>
    (\<forall>pi' f. ctrl_dispatch pi = Inr (pi', f) \<longrightarrow>
       pi_pos pi < pi_pos pi' \<and> pi_buf pi' = pi_buf pi \<and> pi_last pi' = pi_last pi \<and>
       ((\<forall>e app. f \<noteq> Conn_Close e app) \<longrightarrow> pi_ok pi'))"
  using assms by (rule ctrl_dispatch_step)

definition pi_example :: "byte list \<Rightarrow> rqc_packet_in" where
  "pi_example bs = rqc_packet_in_init
     \<lparr>pi_pkt = po_pkt po_example, pi_buf = [], pi_pos = 0, pi_last = 0, pkt_recv_time = 0, pi_frame_types = 0\<rparr> bs 0"

lemma pi_example_simps [simp]:
  "pi_ok (pi_example bs)" "pi_pos (pi_example bs) = 0" "pi_last (pi_example bs) = length bs"
  "pi_buf (pi_example bs) = bs" "pi_frame_types (pi_example bs) = 0"
  by (simp_all add: pi_example_def rqc_packet_in_init_def pi_ok_def)

theorem ctrl_parse_safe_witness: "ctrl_dispatch (pi_example [0x04, 0x41]) \<noteq> Inl Fault"
  using ctrl_parse_safe [of "pi_example [0x04, 0x41]"] by simp

text \<open>
  C16: \<open>rqc_parse_conn_close_frame\<close> adds the reason length from the wire to the position
  without comparing it with the end: a longer reason than the packet holds leaves \<open>pos\<close> past
  \<open>last\<close>, with the result \<open>RQC_OK\<close>.
\<close>

theorem rqc_parse_conn_close_overrun:
  assumes "carries pi (pi_pos pi) ([0x1d] @ vint_enc e @ vint_enc r)" and "e < 2 ^ 62" and "r < 2 ^ 62"
    and "pi_last pi < pi_pos pi + 1 + length (vint_enc e) + length (vint_enc r) + unat r"
  shows "\<exists>pi'. rqc_parse_conn_close_frame pi = Inr (pi', e) \<and> pi_last pi' < pi_pos pi'"
  using assms by (auto simp: rqc_parse_conn_close_frame_def rd_u8_def carries_Cons pi_done_def)

theorem rqc_parse_conn_close_overrun_witness:
  "\<exists>pi'. rqc_parse_conn_close_frame (pi_example [0x1d, 0x00, 0x3f]) = Inr (pi', 0) \<and> pi_last pi' < pi_pos pi'"
proof -
  have "vint_enc 0 = [0]" "vint_enc 63 = [63]"
    by (simp_all add: vint_enc_def rqc_vint_get_2bit_def rqc_vint_bytes_eq [of 0, simplified])
  then show ?thesis
    by (intro rqc_parse_conn_close_overrun [of _ 0 63]) (simp_all add: carries_def holds_at_def)
qed

text \<open>
  When a checked generator does not have the space it asks for, it returns \<open>-RQC_ENOBUF\<close>
  and leaves the packet untouched.
\<close>

theorem ctrl_gen_no_space:
  assumes "ctrl_checked f" and "ctrl_ok f" and "ctrl_need f > rqc_get_po_remained_size po"
  shows "gen_ctrl po f = (Err (- RQC_ENOBUF), po)"
  using assms by (rule gen_ctrl_full)

theorem ctrl_gen_no_space_witness:
  "gen_ctrl (po_example\<lparr>po_used_size := 1199\<rparr>) (Stop_Sending 4 7) = (Err (- RQC_ENOBUF), po_example\<lparr>po_used_size := 1199\<rparr>)"
  by (rule ctrl_gen_no_space)
    (simp_all add: ctrl_checked_def ctrl_need_def rqc_vint_get_2bit_def rqc_get_po_remained_size_def po_example_def)

text \<open>
  Padding an Initial packet to \<open>RQC_PACKET_INITIAL_MIN_LENGTH\<close> writes only zero bytes after
  the used part, which the padding parser skips completely, stopping at the first byte that is
  not padding or at the end.
\<close>

theorem padding_correct:
  assumes "po_ok po" and "RQC_PACKET_INITIAL_MIN_LENGTH \<le> length (po_buf po)"
    and "pi_ok pi" and "pi_pos pi < pi_last pi"
  shows "(\<exists>po'. rqc_gen_padding_frame po = Inr po' \<and> po_ok po' \<and>
      po_used_size po' = max (po_used_size po) RQC_PACKET_INITIAL_MIN_LENGTH \<and>
      take (po_used_size po) (po_buf po') = take (po_used_size po) (po_buf po) \<and>
      (\<forall>i. po_used_size po \<le> i \<and> i < po_used_size po' \<longrightarrow> po_buf po' ! i = 0)) \<and>
    (\<exists>pi'. rqc_parse_padding_frame pi = Inr pi' \<and> pi_ok pi' \<and> pi_pos pi < pi_pos pi' \<and>
      (\<forall>i. pi_pos pi < i \<and> i < pi_pos pi' \<longrightarrow> pi_buf pi ! i = 0) \<and>
      (pi_pos pi' < pi_last pi \<longrightarrow> pi_buf pi ! pi_pos pi' \<noteq> 0))"
proof (intro conjI)
  show "\<exists>po'. rqc_gen_padding_frame po = Inr po' \<and> po_ok po' \<and>
      po_used_size po' = max (po_used_size po) RQC_PACKET_INITIAL_MIN_LENGTH \<and>
      take (po_used_size po) (po_buf po') = take (po_used_size po) (po_buf po) \<and>
      (\<forall>i. po_used_size po \<le> i \<and> i < po_used_size po' \<longrightarrow> po_buf po' ! i = 0)"
  proof (cases "po_used_size po < RQC_PACKET_INITIAL_MIN_LENGTH")
    case True
    then show ?thesis using assms(1,2)
      by (auto simp: rqc_gen_padding_frame_def po_ok_def max_def nth_overwrite)
  next
    case False
    then show ?thesis using assms(1) by (auto simp: rqc_gen_padding_frame_def max_def)
  qed
  show "\<exists>pi'. rqc_parse_padding_frame pi = Inr pi' \<and> pi_ok pi' \<and> pi_pos pi < pi_pos pi' \<and>
      (\<forall>i. pi_pos pi < i \<and> i < pi_pos pi' \<longrightarrow> pi_buf pi ! i = 0) \<and>
      (pi_pos pi' < pi_last pi \<longrightarrow> pi_buf pi ! pi_pos pi' \<noteq> 0)"
    using skip_padding_spec [of "pi_pos pi + 1" "pi_last pi" "pi_buf pi"] assms(3,4)
    by (simp add: rqc_parse_padding_frame_def pi_done_def pi_ok_def Suc_le_eq)
qed

theorem padding_correct_witness:
  "\<exists>po' pi'. rqc_gen_padding_frame po_example = Inr po' \<and> po_used_size po' = 1200 \<and>
     rqc_parse_padding_frame (pi_example [0, 0, 1]) = Inr pi' \<and> pi_ok pi'"
  using padding_correct [of po_example "pi_example [0, 0, 1]"] by auto

end
