(* ===== verification/Rqc_Frame_Stream.thy ===== *)
theory Rqc_Frame_Stream
  imports Rqc_Frame_Ctrl
begin

text \<open>
  The STREAM frame of \<open>src/transport/rqc_frame_parser.c\<close>: \<open>rqc_gen_stream_frame\<close>, which starts a
  new frame or extends the last one of the packet in place, and \<open>rqc_parse_stream_frame\<close>.

  The generator computes with \<open>size_t\<close> and \<open>ssize_t\<close> values that may be negative or wrap:
  \<open>n_avail\<close> is an \<open>int\<close> here and \<open>to_size\<close> its conversion to \<open>size_t\<close> in the mixed comparisons.
  The payload pointer and its sz are the list of the bytes. \<open>last_frame\<close> says what
  the last STREAM frame of a packet holds; the lemmas show that both branches of the generator
  establish it, and that the parser reads the stream id, offset, data and FIN back.
\<close>

subsection \<open>The generator\<close>

definition to_size :: "int \<Rightarrow> int" where
  "to_size i = i mod 2 ^ 64"

text \<open>
  The condition for combining with the previous frame, without the test of the length field.
\<close>

definition can_combine :: "rqc_packet_out \<Rightarrow> u64 \<Rightarrow> u64 \<Rightarrow> bool" where
  "can_combine po stream_id offset \<longleftrightarrow>
     (let idx = po_stream_frames_idx po; prev = po_stream_frames po ! (idx - 1)
      in idx > 0 \<and> po_frame_types po = RQC_FRAME_BIT_STREAM \<and> ps_stream_id prev = stream_id \<and>
         ps_offset prev + of_nat (ps_length prev) = offset \<and> ps_length_offset prev > 0)"

text \<open>The combining branch: \<open>append_size\<close> bytes are copied behind the previous frame.\<close>

definition gen_stream_append ::
  "rqc_packet_out \<Rightarrow> bool \<Rightarrow> byte list \<Rightarrow> nat res \<times> nat \<times> rqc_packet_out" where
  "gen_stream_append po fin payload =
     (let sz = length payload;
          fin_only = (fin \<and> sz = 0);
          prev_idx = po_stream_frames_idx po - 1;
          prev = po_stream_frames po ! prev_idx;
          append_size = (if fin_only then 0 else min sz (rqc_get_po_remained_size po));
          ps_len = ps_length prev + append_size;
          fin' = (fin \<and> (fin_only \<or> append_size = sz));
          written = (if fin_only then Some (po_buf po) else do {
              (b, _) \<leftarrow> wr_mem (take append_size payload) (po_buf po, po_used_size po);
              rqc_vint_write b (ps_length_offset prev) (of_nat ps_len) 1 2 });
          marked = (if fin' then do {
              b \<leftarrow> written;
              if ps_type_offset prev < length b
              then Some (b[ps_type_offset prev := b ! ps_type_offset prev OR 0x01]) else None }
            else written)
      in case marked of
           None \<Rightarrow> (Inl Fault, 0, po)
         | Some b \<Rightarrow>
             (Inr append_size, append_size,
              po\<lparr>po_buf := b,
                 po_stream_frames := (po_stream_frames po)[prev_idx :=
                   prev\<lparr>ps_length := ps_len, ps_has_fin := (if fin' then True else ps_has_fin prev)\<rparr>]\<rparr>))"

text \<open>
  The data sizes of a new frame that is not only a FIN: the size to write, the remaining
  \<open>n_avail\<close> and the FIN that is left. Both branches reserve two bytes for the length.
\<close>

definition stream_sizes :: "int \<Rightarrow> int \<Rightarrow> bool \<Rightarrow> int \<times> int \<times> bool" where
  "stream_sizes sz n_avail fin =
     (if sz \<le> to_size n_avail then
        (if sz > to_size (n_avail - 2) then (to_size (n_avail - 2), n_avail - 2, False)
         else (sz, n_avail - 2, fin))
      else (to_size (n_avail - 2), n_avail, False))"

definition stream_type :: "bool \<Rightarrow> bool \<Rightarrow> bool \<Rightarrow> byte" where
  "stream_type off len fin =
     0x08 OR (if off then 0x04 else 0) OR (if len then 0x02 else 0) OR (if fin then 0x01 else 0)"

text \<open>The common end of both kinds of new frame: the bookkeeping in \<open>po_stream_frames[idx]\<close>.\<close>

definition stream_record ::
  "rqc_packet_out \<Rightarrow> byte list \<Rightarrow> nat option \<Rightarrow> u64 \<Rightarrow> u64 \<Rightarrow> nat \<Rightarrow> bool \<Rightarrow> rqc_packet_out" where
  "stream_record po buf length_offset stream_id offset sz fin =
     (let idx = po_stream_frames_idx po; s = po_stream_frames po ! idx
      in po\<lparr>po_buf := buf,
            po_stream_frames := (po_stream_frames po)[idx :=
              s\<lparr>ps_length_offset := (case length_offset of None \<Rightarrow> ps_length_offset s | Some o' \<Rightarrow> o'),
                ps_type_offset := po_used_size po, ps_offset := offset, ps_length := sz,
                ps_is_used := True, ps_stream_id := stream_id, ps_has_fin := fin\<rparr>],
            po_stream_frames_idx := idx + 1,
            po_frame_types := po_frame_types po OR RQC_FRAME_BIT_STREAM\<rparr>)"

definition gen_stream_data ::
  "rqc_packet_out \<Rightarrow> u64 \<Rightarrow> u64 \<Rightarrow> bool \<Rightarrow> byte list \<Rightarrow> nat res \<times> nat \<times> rqc_packet_out" where
  "gen_stream_data po stream_id offset fin payload =
     (let dst_buf_len = rqc_get_po_remained_size po;
          stream_id_bits = rqc_vint_get_2bit (uint stream_id);
          stream_id_len = rqc_vint_len stream_id_bits;
          offset_bits = rqc_vint_get_2bit (uint offset);
          offset_len = (if offset \<noteq> 0 then rqc_vint_len offset_bits else 0);
          (sz, n_avail, fin') =
            stream_sizes (int (length payload)) (int dst_buf_len - int (1 + stream_id_len + offset_len)) fin
      in if n_avail \<le> 0 \<or> sz > to_size n_avail then (Err (- RQC_ENOBUF), 0, po)
         else case do {
             c \<leftarrow> wr_u8 (stream_type (offset_len \<noteq> 0) True fin') (po_buf po, po_used_size po);
             c \<leftarrow> wr_vint stream_id stream_id_bits c;
             c \<leftarrow> (if offset_len \<noteq> 0 then wr_vint offset offset_bits c else Some c);
             c \<leftarrow> wr_vint (of_int sz) 1 c;
             wr_mem (take (nat sz) payload) c } of
           None \<Rightarrow> (Inl Fault, 0, po)
         | Some (buf, q) \<Rightarrow>
             (Inr (q - po_used_size po), nat sz,
              stream_record po buf (Some (po_used_size po + 1 + stream_id_len + offset_len))
                stream_id offset (nat sz) fin'))"

definition gen_stream_fin ::
  "rqc_packet_out \<Rightarrow> u64 \<Rightarrow> u64 \<Rightarrow> bool \<Rightarrow> nat res \<times> nat \<times> rqc_packet_out" where
  "gen_stream_fin po stream_id offset fin =
     (let dst_buf_len = rqc_get_po_remained_size po;
          stream_id_bits = rqc_vint_get_2bit (uint stream_id);
          stream_id_len = rqc_vint_len stream_id_bits;
          offset_bits = rqc_vint_get_2bit (uint offset);
          offset_len = (if offset \<noteq> 0 then rqc_vint_len offset_bits else 0);
          length_len = (if 1 + stream_id_len + offset_len < dst_buf_len then 1 else 0)
      in if 1 + stream_id_len + offset_len + length_len > dst_buf_len then (Err (- RQC_ENOBUF), 0, po)
         else case do {
             c \<leftarrow> wr_u8 (stream_type (offset_len \<noteq> 0) (length_len \<noteq> (0 :: nat)) fin) (po_buf po, po_used_size po);
             c \<leftarrow> wr_vint stream_id stream_id_bits c;
             c \<leftarrow> (if offset_len \<noteq> 0 then wr_vint offset offset_bits c else Some c);
             if length_len \<noteq> 0 then wr_u8 0 c else Some c } of
           None \<Rightarrow> (Inl Fault, 0, po)
         | Some (buf, q) \<Rightarrow>
             (Inr (q - po_used_size po), 0,
              stream_record
                (if length_len \<noteq> 0 then po else po\<lparr>po_flag := po_flag po OR RQC_POF_STREAM_NO_LEN\<rparr>)
                buf None stream_id offset 0 fin))"

definition gen_stream_new ::
  "rqc_packet_out \<Rightarrow> u64 \<Rightarrow> u64 \<Rightarrow> bool \<Rightarrow> byte list \<Rightarrow> nat res \<times> nat \<times> rqc_packet_out" where
  "gen_stream_new po stream_id offset fin payload =
     (if \<not> (fin \<and> payload = []) then gen_stream_data po stream_id offset fin payload
      else gen_stream_fin po stream_id offset fin)"

text \<open>The result, \<open>*written_size\<close> and the packet.\<close>

definition rqc_gen_stream_frame ::
  "rqc_packet_out \<Rightarrow> u64 \<Rightarrow> u64 \<Rightarrow> bool \<Rightarrow> byte list \<Rightarrow> nat res \<times> nat \<times> rqc_packet_out" where
  "rqc_gen_stream_frame po stream_id offset fin payload =
     (let idx = po_stream_frames_idx po
      in if idx \<ge> RQC_MAX_STREAM_FRAME_IN_PO then (Err (- RQC_ELIMIT), 0, po)
         else if can_combine po stream_id offset then
           (let lo = ps_length_offset (po_stream_frames po ! (idx - 1))
            in if lo \<ge> length (po_buf po) then (Inl Fault, 0, po)
               else if po_buf po ! lo AND 0xC0 \<noteq> 0x40 then gen_stream_new po stream_id offset fin payload
               else gen_stream_append po fin payload)
         else gen_stream_new po stream_id offset fin payload)"

subsection \<open>The parser\<close>

record rqc_stream_frame =
  sf_data :: "byte list"
  sf_data_length :: nat
  sf_data_offset :: u64
  sf_fin :: bool

abbreviation "TRA_FRAME_ENCODING_ERROR \<equiv> (0x7 :: u64)"

text \<open>
  The parser also takes and returns \<open>conn->conn_err\<close>, which \<open>RQC_CONN_ERR\<close> sets when it is 0.
  \<open>alloc_ok\<close> is the success of \<open>rqc_malloc\<close>.
\<close>

definition RQC_CONN_ERR :: "u64 \<Rightarrow> u64 \<Rightarrow> u64" where
  "RQC_CONN_ERR conn_err err = (if conn_err = 0 then err else conn_err)"

definition parse_stream_fields ::
  "rqc_packet_in \<Rightarrow> (byte \<times> u64 \<times> u64 \<times> u64 \<times> nat) res" where
  "parse_stream_fields pi =
     res_bind (rd_u8 pi (pi_pos pi)) (\<lambda>(first_byte, p).
     res_bind (rd_vint (- RQC_EVINTREAD) pi p) (\<lambda>(stream_id, p).
     res_bind (if first_byte AND 0x04 \<noteq> 0 then rd_vint (- RQC_EVINTREAD) pi p else Inr (0, p)) (\<lambda>(offset, p).
     res_bind (if first_byte AND 0x02 \<noteq> 0 then
                 res_bind (rd_vint (- RQC_EVINTREAD) pi p) (\<lambda>(len, p).
                   if unat len > pi_last pi - p then Err (- RQC_EILLFRAME) else Inr (len, p))
               else Inr (of_nat (pi_last pi - p), p)) (\<lambda>(len, p).
       Inr (first_byte, stream_id, offset, len, p)))))"

definition rqc_parse_stream_frame ::
  "bool \<Rightarrow> rqc_packet_in \<Rightarrow> u64 \<Rightarrow> (rqc_packet_in \<times> rqc_stream_frame \<times> u64) res \<times> u64" where
  "rqc_parse_stream_frame alloc_ok pi conn_err =
     (case parse_stream_fields pi of
        Inl f \<Rightarrow> (Inl f, conn_err)
      | Inr (first_byte, stream_id, offset, len, p) \<Rightarrow>
          if len > (push_bit 62 1 - 1) - offset then
            (Err (- RQC_EILLFRAME), RQC_CONN_ERR conn_err TRA_FRAME_ENCODING_ERROR)
          else if unat len > 0 \<and> \<not> alloc_ok then (Err (- RQC_EMALLOC), conn_err)
          else
            (res_bind (rd_mem pi p (unat len)) (\<lambda>d.
               Inr (pi_done pi (p + unat len) RQC_FRAME_BIT_STREAM,
                    \<lparr>sf_data = d, sf_data_length = unat len, sf_data_offset = offset, sf_fin = (first_byte AND 0x01 \<noteq> 0)\<rparr>,
                    stream_id)),
             conn_err))"


subsection \<open>Bytes of a STREAM frame\<close>

definition off_bytes :: "u64 \<Rightarrow> byte list" where
  "off_bytes off = (if off \<noteq> 0 then vint_enc off else [])"

definition len2 :: "nat \<Rightarrow> byte list" where
  "len2 n = rqc_vint_bytes (of_nat n) 1 2"

definition sf_header :: "u64 \<Rightarrow> u64 \<Rightarrow> bool \<Rightarrow> bool \<Rightarrow> byte list" where
  "sf_header sid off l f = [stream_type (off \<noteq> 0) l f] @ vint_enc sid @ off_bytes off"

definition sf_bytes :: "u64 \<Rightarrow> u64 \<Rightarrow> bool \<Rightarrow> byte list \<Rightarrow> byte list" where
  "sf_bytes sid off f d = sf_header sid off True f @ len2 (length d) @ d"

lemma length_len2 [simp]: "length (len2 n) = 2"
  using length_rqc_vint_bytes [of 1 "of_nat n"] by (simp add: len2_def)

lemma length_off_bytes:
  "length (off_bytes off) = (if off \<noteq> 0 then rqc_vint_len (rqc_vint_get_2bit (uint off)) else 0)"
  by (simp add: off_bytes_def)

lemma length_sf_header [simp]:
  "length (sf_header sid off l f) = 1 + rqc_vint_len (rqc_vint_get_2bit (uint sid)) + length (off_bytes off)"
  by (simp add: sf_header_def)

lemma sf_header_bound: "length (sf_header sid off l f) \<le> 17"
  using vint_enc_len_bounds(2) [of sid] vint_enc_len_bounds(2) [of off]
  by (auto simp: length_off_bytes)

lemma stream_type_bits [simp]:
  "stream_type o' l f AND 4 \<noteq> 0 \<longleftrightarrow> o'" "stream_type o' l f AND 2 \<noteq> 0 \<longleftrightarrow> l"
  "stream_type o' l f AND 1 \<noteq> 0 \<longleftrightarrow> f" "stream_type o' l f AND 4 = 0 \<longleftrightarrow> \<not> o'"
  "stream_type o' l f AND 2 = 0 \<longleftrightarrow> \<not> l" "stream_type o' l f AND 1 = 0 \<longleftrightarrow> \<not> f"
  by (cases o'; cases l; cases f; simp add: stream_type_def)+

lemma stream_type_fin: "stream_type o' l f OR 1 = stream_type o' l True"
  by (cases o'; cases l; cases f; simp add: stream_type_def)

lemma rd_vint_len2:
  assumes "carries pi p (len2 n)" "n < 2 ^ 14"
  shows "rd_vint err pi p = Inr (of_nat n, p + 2)"
proof -
  have "(of_nat n :: u64) < 2 ^ 14" using assms(2) by (simp add: word_less_nat_alt unat_of_nat)
  then show ?thesis
    using rqc_vint_read_bytes [of 1 "of_nat n" "pi_buf pi" p "pi_last pi"] assms(1) length_len2 [of n]
    by (simp add: rd_vint_def carries_def len2_def)
qed

lemma parse_stream_header:
  assumes c: "carries pi (pi_pos pi) (sf_header sid off l f)" and v: "sid < 2 ^ 62" "off < 2 ^ 62"
    and p: "p = pi_pos pi + length (sf_header sid off l f)"
  shows "parse_stream_fields pi =
    res_bind (if l then res_bind (rd_vint (- RQC_EVINTREAD) pi p) (\<lambda>(len, p).
                   if unat len > pi_last pi - p then Err (- RQC_EILLFRAME) else Inr (len, p))
               else Inr (of_nat (pi_last pi - p), p)) (\<lambda>(len, p).
       Inr (stream_type (off \<noteq> 0) l f, sid, off, len, p))"
proof -
  have b: "rd_u8 pi (pi_pos pi) = Inr (stream_type (off \<noteq> 0) l f, pi_pos pi + 1)"
    using c by (simp add: sf_header_def)
  have s: "rd_vint (- RQC_EVINTREAD) pi (pi_pos pi + 1) = Inr (sid, pi_pos pi + 1 + length (vint_enc sid))"
    using c v by (intro rd_vint_carries) (simp_all add: sf_header_def carries_Cons)
  have o: "(if off \<noteq> 0 then rd_vint (- RQC_EVINTREAD) pi (pi_pos pi + 1 + length (vint_enc sid))
        else Inr (0, pi_pos pi + 1 + length (vint_enc sid))) = Inr (off, p)"
    using c v by (auto simp: sf_header_def carries_Cons off_bytes_def p)
  show ?thesis
    using b s o by (cases "off = 0") (simp_all add: parse_stream_fields_def)
qed

lemma parse_stream_ok:
  assumes h: "carries pi (pi_pos pi) (sf_header sid off l f)" and v: "sid < 2 ^ 62" "off < 2 ^ 62"
    and q: "(if l then rd_vint (- RQC_EVINTREAD) pi (pi_pos pi + length (sf_header sid off l f))
             else Inr (of_nat (pi_last pi - q), q)) = Inr (of_nat (length d), q)"
    and ql: "\<not> l \<Longrightarrow> q = pi_pos pi + length (sf_header sid off l f)"
    and d: "carries pi q d" "unat off + length d < 2 ^ 62"
  shows "rqc_parse_stream_frame True pi ce =
    (Inr (pi_done pi (q + length d) RQC_FRAME_BIT_STREAM,
          \<lparr>sf_data = d, sf_data_length = length d, sf_data_offset = off, sf_fin = f\<rparr>, sid), ce)"
proof -
  have u: "unat (of_nat (length d) :: u64) = length d" using d(2) by (simp add: unat_of_nat_small)
  have fields: "parse_stream_fields pi = Inr (stream_type (off \<noteq> 0) l f, sid, off, of_nat (length d), q)"
    using parse_stream_header [OF h v refl] q ql d(1) u by (cases l) (auto simp: carries_def)
  have "unat ((push_bit 62 1 - 1 :: u64) - off) = 2 ^ 62 - 1 - unat off"
  proof -
    have "off \<le> push_bit 62 1 - 1" using v(2) by (simp add: word_less_nat_alt word_le_nat_alt)
    then show ?thesis by (simp add: unat_sub)
  qed
  then have "\<not> of_nat (length d) > (push_bit 62 1 - 1 :: u64) - off"
    using u d(2) by (simp add: word_less_nat_alt)
  then show ?thesis using fields d(1) u by (simp add: rqc_parse_stream_frame_def)
qed

lemma parse_sf_bytes:
  assumes "carries pi (pi_pos pi) (sf_bytes sid off f d)" "sid < 2 ^ 62" "unat off + length d < 2 ^ 62"
    "length d < 2 ^ 14"
  shows "rqc_parse_stream_frame True pi ce =
    (Inr (pi_done pi (pi_pos pi + length (sf_bytes sid off f d)) RQC_FRAME_BIT_STREAM,
          \<lparr>sf_data = d, sf_data_length = length d, sf_data_offset = off, sf_fin = f\<rparr>, sid), ce)"
proof -
  let ?q = "pi_pos pi + length (sf_header sid off True f) + 2"
  have "off < 2 ^ 62" using assms(3) by (simp add: word_less_nat_alt)
  moreover have "carries pi ?q d" "carries pi (pi_pos pi + length (sf_header sid off True f)) (len2 (length d))"
    "carries pi (pi_pos pi) (sf_header sid off True f)"
    using assms(1) by (simp_all add: sf_bytes_def add.assoc)
  ultimately show ?thesis
    using assms(2,3) rd_vint_len2 [of pi "pi_pos pi + length (sf_header sid off True f)" "length d"] assms(4)
      parse_stream_ok [of pi sid off True f ?q d ce]
    by (simp add: sf_bytes_def add.assoc del: length_sf_header)
qed


subsection \<open>New frames\<close>

lemma to_size_id: "0 \<le> i \<Longrightarrow> i < 2 ^ 64 \<Longrightarrow> to_size i = i"
  by (simp add: to_size_def)

lemma to_size_neg: "- (2 ^ 64) \<le> i \<Longrightarrow> i < 0 \<Longrightarrow> to_size i = i + 2 ^ 64"
proof -
  assume "- (2 ^ 64) \<le> i" "i < 0"
  then have "(i + 2 ^ 64) mod 2 ^ 64 = i + 2 ^ 64" by (intro mod_pos_pos_trivial) auto
  then show ?thesis by (simp add: to_size_def)
qed

text \<open>
  The size arithmetic: with \<open>a\<close> bytes behind the header there is a frame if three or more are
  left, or exactly two and more than two bytes of data (an empty frame); it takes as much
  data as fits behind the two length bytes.
\<close>

definition stream_room :: "int \<Rightarrow> int \<Rightarrow> bool" where
  "stream_room a len \<longleftrightarrow> a \<ge> 3 \<or> (a = 2 \<and> len > 2)"

lemma stream_sizes_spec:
  assumes "- 1000 \<le> a" "a < 2 ^ 14" "0 \<le> len" "len < 2 ^ 63"
    and s: "stream_sizes len a f = (sz, n, f')"
  shows "n \<le> 0 \<or> sz > to_size n \<longleftrightarrow> \<not> stream_room a len"
    and "stream_room a len \<Longrightarrow> sz = min len (a - 2) \<and> f' = (f \<and> len \<le> a - 2)"
proof -
  have *: "(n \<le> 0 \<or> sz > to_size n \<longleftrightarrow> \<not> stream_room a len) \<and>
      (stream_room a len \<longrightarrow> sz = min len (a - 2) \<and> f' = (f \<and> len \<le> a - 2))"
  proof (cases "a \<ge> 2")
    case True
    with assms show ?thesis by (auto simp: stream_sizes_def to_size_id stream_room_def split: if_splits)
  next
    case False
    then consider "a = 1" | "a = 0" | "a < 0" by linarith
    then show ?thesis
      using assms by cases (auto simp: stream_sizes_def to_size_id to_size_neg stream_room_def split: if_splits)
  qed
  then show "n \<le> 0 \<or> sz > to_size n \<longleftrightarrow> \<not> stream_room a len"
    "stream_room a len \<Longrightarrow> sz = min len (a - 2) \<and> f' = (f \<and> len \<le> a - 2)" by auto
qed

text \<open>The data a new frame takes from the payload.\<close>

definition stream_take :: "rqc_packet_out \<Rightarrow> u64 \<Rightarrow> u64 \<Rightarrow> byte list \<Rightarrow> nat" where
  "stream_take po sid off payload =
     min (length payload) (rqc_get_po_remained_size po - length (sf_header sid off True False) - 2)"

definition new_frame_room :: "rqc_packet_out \<Rightarrow> u64 \<Rightarrow> u64 \<Rightarrow> byte list \<Rightarrow> bool" where
  "new_frame_room po sid off payload \<longleftrightarrow>
     stream_room (int (rqc_get_po_remained_size po) - int (length (sf_header sid off True False)))
       (int (length payload))"

lemma wr_off_bytes:
  "(if offset \<noteq> 0 then wr_vint offset (rqc_vint_get_2bit (uint offset)) c else Some c) =
   (if off_bytes offset \<noteq> [] then wr_mem (off_bytes offset) c else Some c)"
proof -
  have "vint_enc offset \<noteq> []" using vint_enc_len_bounds(1) [of offset] by (auto simp del: length_vint_enc)
  then show ?thesis by (simp add: off_bytes_def)
qed

lemma bind_if_mem:
  "Option.bind (if bs \<noteq> [] then wr_mem bs c else Some c) f =
   (if bs \<noteq> [] then Option.bind (wr_mem bs c) f else f c)"
  by simp

lemma wr_skip_empty:
  "Option.bind (wr_mem bs c) (\<lambda>x. Option.bind (if cs \<noteq> [] then wr_mem cs x else Some x) f) =
   Option.bind (wr_mem (bs @ cs) c) f"
  by (cases "cs = []") simp_all

lemma stream_writes:
  assumes "sz < 2 ^ 14" "n = int sz"
  shows "do {
       c \<leftarrow> wr_u8 (stream_type (offset \<noteq> 0) True f) c0;
       c \<leftarrow> wr_vint sid (rqc_vint_get_2bit (uint sid)) c;
       c \<leftarrow> (if offset \<noteq> 0 then wr_vint offset (rqc_vint_get_2bit (uint offset)) c else Some c);
       c \<leftarrow> wr_vint (of_int n) 1 c;
       wr_mem d c } = wr_mem (sf_header sid offset True f @ len2 sz @ d) c0"
proof -
  have "wr_vint (of_int n) 1 = wr_mem (len2 sz)"
    using assms by (simp add: wr_vint_def len2_def fun_eq_iff)
  then show ?thesis
    unfolding wr_off_bytes by (simp add: wr_skip_empty sf_header_def del: One_nat_def)
qed

lemma offset_len_eq: "(if off \<noteq> 0 then rqc_vint_len (rqc_vint_get_2bit (uint off)) else 0) = length (off_bytes off)"
  by (simp add: length_off_bytes)

lemma offset_len_pos: "length (off_bytes off) \<noteq> 0 \<longleftrightarrow> off \<noteq> 0"
  by (simp add: length_off_bytes rqc_vint_len_def)

lemma gen_stream_data_eq:
  assumes "stream_sizes (int (length payload))
      (int (rqc_get_po_remained_size po) - int (length (sf_header sid off True False))) fin = (sz, n, f')"
  shows "gen_stream_data po sid off fin payload =
     (if n \<le> 0 \<or> sz > to_size n then (Err (- RQC_ENOBUF), 0, po)
      else case do {
          c \<leftarrow> wr_u8 (stream_type (off \<noteq> 0) True f') (po_buf po, po_used_size po);
          c \<leftarrow> wr_vint sid (rqc_vint_get_2bit (uint sid)) c;
          c \<leftarrow> (if off \<noteq> 0 then wr_vint off (rqc_vint_get_2bit (uint off)) c else Some c);
          c \<leftarrow> wr_vint (of_int sz) 1 c;
          wr_mem (take (nat sz) payload) c } of
        None \<Rightarrow> (Inl Fault, 0, po)
      | Some (buf, q) \<Rightarrow>
          (Inr (q - po_used_size po), nat sz,
           stream_record po buf (Some (po_used_size po + length (sf_header sid off True False)))
             sid off (nat sz) f'))"
proof -
  have e: "po_used_size po + 1 + rqc_vint_len (rqc_vint_get_2bit (uint sid)) + length (off_bytes off)
      = po_used_size po + length (sf_header sid off True False)" by simp
  show ?thesis
    using assms unfolding gen_stream_data_def offset_len_eq Let_def offset_len_pos e by simp
qed

lemma gen_stream_data_spec:
  fixes sid off :: u64 and fin :: bool
  assumes po: "po_ok po" and pl: "length payload < 2 ^ 63"
  defines "w \<equiv> stream_take po sid off payload"
  defines "f' \<equiv> fin \<and> w = length payload"
  defines "bs \<equiv> sf_bytes sid off f' (take w payload)"
  shows "gen_stream_data po sid off fin payload =
    (if new_frame_room po sid off payload
     then (Inr (length bs), w,
           stream_record po (overwrite (po_buf po) (po_used_size po) bs)
             (Some (po_used_size po + length (sf_header sid off True False))) sid off w f')
     else (Err (- RQC_ENOBUF), 0, po))"
    and "new_frame_room po sid off payload \<Longrightarrow> po_used_size po + length bs \<le> length (po_buf po)"
proof -
  let ?h = "length (sf_header sid off True False)" and ?r = "rqc_get_po_remained_size po"
  have r: "?r < 2 ^ 14" using po by (auto simp: po_ok_def rqc_get_po_remained_size_def)
  have h: "?h \<le> 17" by (rule sf_header_bound)
  obtain sz n g where s: "stream_sizes (int (length payload)) (int ?r - int ?h) fin = (sz, n, g)"
    by (metis surj_pair)
  note spec = stream_sizes_spec [OF _ _ _ _ s]
  have cond: "n \<le> 0 \<or> sz > to_size n \<longleftrightarrow> \<not> new_frame_room po sid off payload"
    unfolding new_frame_room_def using spec(1) r h pl by simp
  have room: "sz = int w" "g = f'" "length bs \<le> ?r" if "new_frame_room po sid off payload"
  proof -
    have "2 \<le> int ?r - int ?h" using that by (auto simp: new_frame_room_def stream_room_def)
    moreover have "sz = min (int (length payload)) (int ?r - int ?h - 2)" "g = (fin \<and> int (length payload) \<le> int ?r - int ?h - 2)"
      using spec(2) that r h pl unfolding new_frame_room_def by simp_all
    ultimately show "sz = int w" "g = f'" "length bs \<le> ?r"
      by (auto simp: w_def stream_take_def f'_def bs_def sf_bytes_def simp del: length_sf_header)
        (simp_all add: min_def split: if_splits)
  qed
  show fits: "po_used_size po + length bs \<le> length (po_buf po)" if "new_frame_room po sid off payload"
    using remained_fits [OF po room(3)] that by simp
  show "gen_stream_data po sid off fin payload =
    (if new_frame_room po sid off payload
     then (Inr (length bs), w,
           stream_record po (overwrite (po_buf po) (po_used_size po) bs)
             (Some (po_used_size po + ?h)) sid off w f')
     else (Err (- RQC_ENOBUF), 0, po))"
  proof (cases "new_frame_room po sid off payload")
    case True
    have "w < 2 ^ 14" using r by (simp add: w_def stream_take_def)
    note wr = stream_writes [OF this room(1) [OF True], of off f' "(po_buf po, po_used_size po)" sid "take w payload"]
    have "wr_mem (sf_header sid off True f' @ len2 w @ take w payload) (po_buf po, po_used_size po)
        = Some (overwrite (po_buf po) (po_used_size po) bs, po_used_size po + length bs)"
      using fits [OF True] by (simp add: bs_def sf_bytes_def w_def stream_take_def del: length_sf_header)
    then show ?thesis
      unfolding gen_stream_data_eq [OF s] room(2) [OF True] using True cond wr room(1) [OF True] by simp
  next
    case False
    then show ?thesis unfolding gen_stream_data_eq [OF s] using cond by simp
  qed
qed


lemma gen_stream_fin_spec:
  fixes sid off :: u64
  assumes po: "po_ok po"
  defines "h \<equiv> length (sf_header sid off True True)" and "r \<equiv> rqc_get_po_remained_size po"
  shows "gen_stream_fin po sid off True =
    (if h < r then
       (Inr (h + 1), 0, stream_record po
          (overwrite (po_buf po) (po_used_size po) (sf_header sid off True True @ [0])) None sid off 0 True)
     else if h = r then
       (Inr h, 0, stream_record (po\<lparr>po_flag := po_flag po OR RQC_POF_STREAM_NO_LEN\<rparr>)
          (overwrite (po_buf po) (po_used_size po) (sf_header sid off False True)) None sid off 0 True)
     else (Err (- RQC_ENOBUF), 0, po))"
proof -
  have l: "1 + rqc_vint_len (rqc_vint_get_2bit (uint sid)) + length (off_bytes off) = h"
    by (simp add: h_def)
  have w: "do {
      c \<leftarrow> wr_u8 (stream_type (off \<noteq> 0) b True) c0;
      c \<leftarrow> wr_vint sid (rqc_vint_get_2bit (uint sid)) c;
      c \<leftarrow> (if off \<noteq> 0 then wr_vint off (rqc_vint_get_2bit (uint off)) c else Some c);
      g c } = Option.bind (wr_mem (sf_header sid off b True) c0) g" for b c0 and g :: "wcur \<Rightarrow> wcur option"
    unfolding wr_off_bytes by (simp add: wr_skip_empty sf_header_def)
  have fit: "po_used_size po + n \<le> length (po_buf po)" if "n \<le> r" for n
    using remained_fits [OF po] that by (simp add: r_def)
  have lh: "length (sf_header sid off b True) = h" for b by (simp add: h_def)
  consider "h < r" | "h = r" | "h > r" by linarith
  then show ?thesis
  proof cases
    case 1
    then show ?thesis
      using fit [of "h + 1"] overwrite_overwrite [of "po_used_size po" "sf_header sid off True True" "[0]" "po_buf po"]
      unfolding gen_stream_fin_def offset_len_eq Let_def offset_len_pos l w r_def [symmetric] by (simp add: lh del: length_sf_header)
  next
    case 2
    then show ?thesis using fit [of h]
      unfolding gen_stream_fin_def offset_len_eq Let_def offset_len_pos l w r_def [symmetric] by (simp add: lh del: length_sf_header)
  next
    case 3
    then show ?thesis
      unfolding gen_stream_fin_def offset_len_eq Let_def offset_len_pos l r_def [symmetric] by simp
  qed
qed

subsection \<open>The last frame of a packet\<close>

text \<open>The callers add the returned size to \<open>po_used_size\<close>.\<close>

definition po_advance :: "rqc_packet_out \<Rightarrow> nat \<Rightarrow> rqc_packet_out" where
  "po_advance po n = po\<lparr>po_used_size := po_used_size po + n\<rparr>"

definition last_frame :: "rqc_packet_out \<Rightarrow> u64 \<Rightarrow> u64 \<Rightarrow> bool \<Rightarrow> byte list \<Rightarrow> bool" where
  "last_frame po sid off f d \<longleftrightarrow>
     0 < po_stream_frames_idx po \<and> po_stream_frames_idx po \<le> length (po_stream_frames po) \<and>
     (let s = po_stream_frames po ! (po_stream_frames_idx po - 1)
      in ps_stream_id s = sid \<and> ps_offset s = off \<and> ps_length s = length d \<and> ps_has_fin s = f \<and>
         ps_length_offset s = ps_type_offset s + length (sf_header sid off True f) \<and>
         holds_at (po_buf po) (ps_type_offset s) (sf_bytes sid off f d) \<and>
         ps_type_offset s + length (sf_bytes sid off f d) = po_used_size po)"

lemma stream_record_last:
  assumes "po_ok po" "po_stream_frames_idx po < RQC_MAX_STREAM_FRAME_IN_PO" "w = length d"
    "po_used_size po + length (sf_bytes sid off f d) \<le> length (po_buf po)" "lo' = length (sf_header sid off True f)"
  shows "last_frame (po_advance (stream_record po (overwrite (po_buf po) (po_used_size po) (sf_bytes sid off f d))
      (Some (po_used_size po + lo')) sid off w f) (length (sf_bytes sid off f d))) sid off f d"
  using assms by (simp add: last_frame_def stream_record_def po_advance_def Let_def po_ok_def holds_at_overwrite)

lemma stream_record_ok:
  assumes "po_ok po" "po_used_size po + length bs \<le> length (po_buf po)"
  shows "po_ok (po_advance (stream_record po (overwrite (po_buf po) (po_used_size po) bs) l sid off w f) (length bs))"
  using assms by (auto simp: stream_record_def po_advance_def Let_def po_ok_def)

lemma byte_top2: "b AND 0xC0 = push_bit 6 (drop_bit 6 b)" for b :: byte
proof -
  have m: "(0xC0 :: byte) = push_bit 6 (mask 2)" by (simp add: mask_eq_exp_minus_1 push_bit_eq_mult)
  show ?thesis unfolding m by (rule bit_word_eqI) (auto simp: bit_simps)
qed

lemma len2_tag: "n < 2 ^ 14 \<Longrightarrow> hd (len2 n) AND 0xC0 = 0x40"
  using tag_of_bytes [of 1 "of_nat n"]
  by (simp add: byte_top2 len2_def word_less_nat_alt unat_of_nat push_bit_eq_mult)

lemma last_frame_parts:
  assumes "last_frame po sid off f d"
  obtains t s where "s = po_stream_frames po ! (po_stream_frames_idx po - 1)" "t = ps_type_offset s"
    "ps_length_offset s = t + length (sf_header sid off True f)"
    "holds_at (po_buf po) t (sf_header sid off True f)"
    "holds_at (po_buf po) (t + length (sf_header sid off True f)) (len2 (length d))"
    "holds_at (po_buf po) (t + length (sf_header sid off True f) + 2) d"
    "t + length (sf_header sid off True f) + 2 + length d = po_used_size po"
  using assms that
  by (auto simp: last_frame_def Let_def sf_bytes_def holds_at_append add.assoc simp del: length_sf_header)

lemma last_frame_combines:
  assumes l: "last_frame po sid off f d" and po: "po_ok po"
    and ty: "po_frame_types po = RQC_FRAME_BIT_STREAM" and idx: "po_stream_frames_idx po < RQC_MAX_STREAM_FRAME_IN_PO"
  shows "rqc_gen_stream_frame po sid (off + of_nat (length d)) fin payload = gen_stream_append po fin payload"
proof -
  obtain t s where p: "s = po_stream_frames po ! (po_stream_frames_idx po - 1)" "t = ps_type_offset s"
    "ps_length_offset s = t + length (sf_header sid off True f)"
    "holds_at (po_buf po) t (sf_header sid off True f)"
    "holds_at (po_buf po) (t + length (sf_header sid off True f)) (len2 (length d))"
    "t + length (sf_header sid off True f) + 2 + length d = po_used_size po"
    using last_frame_parts [OF l] by metis
  have "length d < 2 ^ 14" using p(6) po by (auto simp: po_ok_def)
  moreover obtain b bs where lb: "len2 (length d) = b # bs" by (metis length_len2 list.exhaust list.size(3) zero_neq_numeral)
  ultimately have "b AND 0xC0 = 0x40" using len2_tag [of "length d"] by simp
  moreover have "po_buf po ! ps_length_offset s = b" "ps_length_offset s < length (po_buf po)"
    using p(3,5) lb by (simp_all add: holds_at_Cons del: length_sf_header)
  moreover have "can_combine po sid (off + of_nat (length d))"
    using l ty p(1,3) by (auto simp: can_combine_def Let_def last_frame_def)
  ultimately show ?thesis using idx p(1) by (simp add: rqc_gen_stream_frame_def Let_def not_le)
qed


lemma mark_fin:
  assumes "holds_at b t (sf_bytes sid off f d)"
  shows "t < length b" "holds_at (b[t := b ! t OR 1]) t (sf_bytes sid off True d)"
proof -
  obtain rest where r: "sf_bytes sid off g d = stream_type (off \<noteq> 0) True g # rest" for g
    by (simp add: sf_bytes_def sf_header_def)
  show "t < length b" "holds_at (b[t := b ! t OR 1]) t (sf_bytes sid off True d)"
    using assms holds_at_update [of b t "stream_type (off \<noteq> 0) True f" rest "stream_type (off \<noteq> 0) True True"]
    by (auto simp: r holds_at_Cons stream_type_fin)
qed

lemma append_bytes:
  assumes H: "holds_at buf t H" and d: "holds_at buf (t + length H + 2) d"
    and e: "t + length H + 2 + length d = u" and fit: "u + length x \<le> length buf"
  shows "holds_at (overwrite (overwrite buf u x) (t + length H) (len2 n)) t (H @ len2 n @ d @ x)"
  using assms by (auto simp: holds_at_append holds_at_overwrite holds_at_overwrite_other add.assoc)

lemma last_frame_update:
  assumes l: "last_frame po sid off f d" and h: "holds_at b (ps_type_offset s) (sf_bytes sid off f' (d @ x))"
    and s: "s = po_stream_frames po ! (po_stream_frames_idx po - 1)"
  shows "last_frame (po_advance (po\<lparr>po_buf := b, po_stream_frames :=
      (po_stream_frames po)[po_stream_frames_idx po - 1 := s\<lparr>ps_length := length d + length x, ps_has_fin := f'\<rparr>]\<rparr>)
      (length x)) sid off f' (d @ x)"
  using l h s by (auto simp: last_frame_def po_advance_def Let_def sf_bytes_def)

lemma gen_stream_append_spec:
  fixes sid off :: u64 and fin :: bool and payload :: "byte list"
  assumes l: "last_frame po sid off f d" and po: "po_ok po"
  defines "w \<equiv> min (length payload) (rqc_get_po_remained_size po)"
  defines "f' \<equiv> f \<or> (fin \<and> w = length payload)"
  shows "\<exists>po'. gen_stream_append po fin payload = (Inr w, w, po') \<and> po_ok (po_advance po' w) \<and>
    last_frame (po_advance po' w) sid off f' (d @ take w payload) \<and>
    po_frame_types po' = po_frame_types po \<and> po_stream_frames_idx po' = po_stream_frames_idx po"
proof -
  let ?H = "sf_header sid off True f" and ?x = "take w payload" and ?buf = "po_buf po"
  obtain t s where p: "s = po_stream_frames po ! (po_stream_frames_idx po - 1)" "t = ps_type_offset s"
    "ps_length_offset s = t + length ?H" "holds_at ?buf t ?H"
    "holds_at ?buf (t + length ?H) (len2 (length d))" "holds_at ?buf (t + length ?H + 2) d"
    "t + length ?H + 2 + length d = po_used_size po"
    by (rule last_frame_parts [OF l])
  have lx: "length ?x = w" by (simp add: w_def)
  have sl: "ps_length s = length d" "ps_has_fin s = f" using l p(1) by (auto simp: last_frame_def Let_def)
  have fit: "po_used_size po + length ?x \<le> length ?buf"
    using remained_fits [OF po, of w] by (simp add: w_def)
  define only where "only \<longleftrightarrow> fin \<and> payload = []"
  define b where "b = (if only then ?buf
    else overwrite (overwrite ?buf (po_used_size po) ?x) (t + length ?H) (len2 (length d + w)))"
  have written: "(if only then Some ?buf else do {
      (b, _) \<leftarrow> wr_mem ?x (?buf, po_used_size po);
      rqc_vint_write b (ps_length_offset s) (of_nat (length d + w)) 1 2 }) = Some b"
    using fit p(3,7) length_len2 [of "length d + w"]
    by (simp add: b_def rqc_vint_write_def len2_def del: length_sf_header)
  have hb: "holds_at b t (sf_bytes sid off f (d @ ?x))" "length b = length ?buf"
    using append_bytes [OF p(4,6,7) fit, of "length d + w"] p(4-7) fit lx
    by (auto simp: b_def only_def sf_bytes_def holds_at_append add.assoc simp del: length_sf_header)
  define g where "g \<longleftrightarrow> fin \<and> w = length payload"
  define b2 where "b2 = (if g then b[t := b ! t OR 1] else b)"
  have hb2: "holds_at b2 t (sf_bytes sid off f' (d @ ?x))" "length b2 = length ?buf"
    using mark_fin [OF hb(1)] hb by (auto simp: b2_def f'_def g_def)
  let ?po = "po\<lparr>po_buf := b2, po_stream_frames := (po_stream_frames po)[po_stream_frames_idx po - 1 :=
      s\<lparr>ps_length := length d + length ?x, ps_has_fin := f'\<rparr>]\<rparr>"
  have only: "(fin \<and> length payload = 0) = only" "(if only then 0 else w) = w"
    "(fin \<and> (only \<or> w = length payload)) = g"
    by (auto simp: only_def w_def g_def)
  have marked: "(if g then do { b \<leftarrow> Some b; if t < length b then Some (b[t := b ! t OR 1]) else None }
      else Some b) = Some b2"
    using mark_fin(1) [OF hb(1)] by (simp add: b2_def)
  have "gen_stream_append po fin payload = (Inr w, w, ?po)"
    unfolding gen_stream_append_def Let_def p(1) [symmetric] w_def [symmetric] only sl written p(2) [symmetric] marked
    using lx by (cases g) (auto simp: f'_def g_def)
  moreover have "last_frame (po_advance ?po w) sid off f' (d @ ?x)"
    using last_frame_update [OF l, of b2 s f' ?x] hb2 p(1,2) lx by simp
  moreover have "po_ok (po_advance ?po w)"
    using po fit lx hb2(2) by (simp add: po_ok_def po_advance_def)
  ultimately show ?thesis by (intro exI [of _ ?po]) simp
qed


subsection \<open>Safety of the parser\<close>

lemma unat_rest: "q \<le> e \<Longrightarrow> q + unat (of_nat (e - q) :: u64) \<le> e"
proof -
  assume "q \<le> e"
  moreover have "unat (of_nat (e - q) :: u64) \<le> e - q" by (simp add: unat_of_nat)
  ultimately show ?thesis by linarith
qed

lemma stream_length_post:
  assumes "p \<le> pi_last pi"
  shows "res_post (\<lambda>(len, q). p \<le> q \<and> q + unat len \<le> pi_last pi)
    (if c then res_bind (rd_vint (- RQC_EVINTREAD) pi p) (\<lambda>(len, p).
                   if unat len > pi_last pi - p then Err (- RQC_EILLFRAME) else Inr (len, p))
     else Inr (of_nat (pi_last pi - p), p))"
  using assms unat_rest [OF assms]
  by (intro res_post_if res_post_bind [OF rd_vint_post]) (auto simp del: of_nat_diff)

lemma stream_offset_post:
  assumes "p \<le> pi_last pi"
  shows "res_post (\<lambda>(off, q). p \<le> q \<and> q \<le> pi_last pi \<and> off < 2 ^ 62)
    (if c then rd_vint (- RQC_EVINTREAD) pi p else Inr (0, p))"
  using assms by (intro res_post_if res_post_mono [OF rd_vint_post]) auto

lemma parse_stream_fields_post:
  assumes "pi_ok pi" "pi_pos pi < pi_last pi"
  shows "res_post (\<lambda>(b, sid, off, len, p). pi_pos pi < p \<and> p + unat len \<le> pi_last pi \<and> off < 2 ^ 62 \<and> sid < 2 ^ 62)
    (parse_stream_fields pi)"
  unfolding parse_stream_fields_def
  apply (rule res_post_bind [OF rd_u8_post [OF assms]], clarify)
  apply (rule res_post_bind [OF rd_vint_post], clarify)
  apply (rule res_post_bind [OF stream_offset_post], assumption, clarify)
  apply (rule res_post_bind [OF stream_length_post], assumption, clarify)
  apply simp
  done


lemma po_frame_record [simp]:
  "po_used_size po + length bs \<le> length (po_buf po) \<Longrightarrow> n = length bs \<Longrightarrow>
   po_frame (stream_record po (overwrite (po_buf po) (po_used_size po) bs) l sid off w f) n = bs"
  by (simp add: po_frame_def stream_record_def Let_def overwrite_def)

lemma parse_fin_len:
  assumes "carries pi (pi_pos pi) (sf_header sid off True True @ [0])" "sid < 2 ^ 62" "off < 2 ^ 62"
  shows "rqc_parse_stream_frame True pi ce =
    (Inr (pi_done pi (pi_pos pi + length (sf_header sid off True True) + 1) RQC_FRAME_BIT_STREAM,
        \<lparr>sf_data = [], sf_data_length = 0, sf_data_offset = off, sf_fin = True\<rparr>, sid), ce)"
proof -
  let ?p = "pi_pos pi + length (sf_header sid off True True)"
  have c: "carries pi (pi_pos pi) (sf_header sid off True True)" "carries pi ?p [0]" using assms(1) by simp_all
  have "carries pi (?p + 1) []" using c(2) by (simp add: carries_Cons)
  with rd_vint_type [OF c(2)] parse_stream_ok [OF c(1) assms(2,3), of "?p + 1" "[]" ce] assms(3) show ?thesis
    by (simp add: word_less_nat_alt)
qed

lemma parse_fin_nolen:
  assumes "carries pi (pi_pos pi) (sf_header sid off False True)" "sid < 2 ^ 62" "off < 2 ^ 62"
    "pi_last pi = pi_pos pi + length (sf_header sid off False True)"
  shows "rqc_parse_stream_frame True pi ce =
    (Inr (pi_done pi (pi_last pi) RQC_FRAME_BIT_STREAM,
        \<lparr>sf_data = [], sf_data_length = 0, sf_data_offset = off, sf_fin = True\<rparr>, sid), ce)"
proof -
  have "carries pi (pi_last pi) []" using assms(1,4) by (auto simp: carries_def dest: holds_at_length)
  then show ?thesis
    using parse_stream_ok [OF assms(1-3), of "pi_last pi" "[]" ce] assms(3,4) by (simp add: word_less_nat_alt)
qed

lemma or_and_flag: "(x OR y) AND y = y" for x y :: u32
  by (rule bit_word_eqI) (auto simp: bit_simps)

lemma last_frame_bytes:
  assumes "last_frame po sid off f d"
  shows "po_frame (po\<lparr>po_used_size := ps_type_offset (po_stream_frames po ! (po_stream_frames_idx po - 1))\<rparr>)
      (length (sf_bytes sid off f d)) = sf_bytes sid off f d"
  using assms by (auto simp: last_frame_def Let_def po_frame_def holds_at_def)

subsection \<open>Properties\<close>

text \<open>
  C17: a new STREAM frame. With data (or without FIN), the generator fails with \<open>-RQC_ENOBUF\<close>
  exactly when there is no room behind the header; otherwise it takes the longest prefix of
  the payload that fits, keeps the FIN only if all of the payload is taken, records the frame
  as the last of the packet, and the receiver parses exactly that prefix at that offset of that
  stream.
\<close>

theorem stream_new_roundtrip:
  assumes "po_ok po" and "po_stream_frames_idx po < RQC_MAX_STREAM_FRAME_IN_PO" and "\<not> can_combine po sid off"
    and "payload \<noteq> [] \<or> \<not> fin" and "sid < 2 ^ 62" and "unat off + length payload < 2 ^ 62"
  shows "if new_frame_room po sid off payload
    then \<exists>n po'. rqc_gen_stream_frame po sid off fin payload = (Inr n, stream_take po sid off payload, po') \<and>
      po_ok (po_advance po' n) \<and>
      last_frame (po_advance po' n) sid off (fin \<and> stream_take po sid off payload = length payload)
        (take (stream_take po sid off payload) payload) \<and>
      (\<forall>pi ce. carries pi (pi_pos pi) (po_frame po' n) \<longrightarrow>
         rqc_parse_stream_frame True pi ce =
           (Inr (pi_done pi (pi_pos pi + n) RQC_FRAME_BIT_STREAM,
                 \<lparr>sf_data = take (stream_take po sid off payload) payload,
                  sf_data_length = stream_take po sid off payload, sf_data_offset = off,
                  sf_fin = (fin \<and> stream_take po sid off payload = length payload)\<rparr>, sid), ce))
    else rqc_gen_stream_frame po sid off fin payload = (Err (- RQC_ENOBUF), 0, po)"
proof -
  let ?w = "stream_take po sid off payload" and ?r = "rqc_get_po_remained_size po"
  let ?f = "fin \<and> ?w = length payload"
  let ?bs = "sf_bytes sid off ?f (take ?w payload)"
  let ?po = "stream_record po (overwrite (po_buf po) (po_used_size po) ?bs)
             (Some (po_used_size po + length (sf_header sid off True False))) sid off ?w ?f"
  have pl: "length payload < 2 ^ 63" using assms(6) by simp
  note spec = gen_stream_data_spec [OF assms(1) pl, of sid off fin]
  have gen: "rqc_gen_stream_frame po sid off fin payload = gen_stream_data po sid off fin payload"
    using assms(2-4) by (auto simp: rqc_gen_stream_frame_def gen_stream_new_def Let_def)
  show ?thesis
  proof (cases "new_frame_room po sid off payload")
    case True
    have w: "?w \<le> length payload" "length (take ?w payload) = ?w" "?w < 2 ^ 14"
      using assms(1) by (auto simp: stream_take_def po_ok_def rqc_get_po_remained_size_def min_def)
    note fit = spec(2) [OF True]
    have "last_frame (po_advance ?po (length ?bs)) sid off ?f (take ?w payload)"
      using stream_record_last [OF assms(1,2) w(2) [symmetric] fit, of "length (sf_header sid off True False)"] by simp
    moreover have "rqc_parse_stream_frame True pi ce =
           (Inr (pi_done pi (pi_pos pi + length ?bs) RQC_FRAME_BIT_STREAM,
                 \<lparr>sf_data = take ?w payload, sf_data_length = ?w, sf_data_offset = off, sf_fin = ?f\<rparr>, sid), ce)"
      if "carries pi (pi_pos pi) (po_frame ?po (length ?bs))" for pi ce
      using parse_sf_bytes [of pi sid off ?f "take ?w payload" ce] that assms(5,6) w fit by simp
    ultimately show ?thesis
      using True gen spec(1) stream_record_ok [OF assms(1) fit]
      by (simp only: if_True) (intro exI [of _ "length ?bs"] exI [of _ ?po] conjI allI impI; simp)
  qed (use gen spec(1) in simp)
qed

theorem stream_new_roundtrip_witness:
  "\<exists>n po'. rqc_gen_stream_frame po_example 4 100 True [1, 2, 3] = (Inr n, 3, po') \<and>
     last_frame (po_advance po' n) 4 100 True [1, 2, 3]"
proof -
  have h: "length (sf_header 4 100 True False) = 4"
    by (simp add: length_off_bytes rqc_vint_get_2bit_def)
  have w: "stream_take po_example 4 100 [1, 2, 3] = 3" by (simp add: stream_take_def h del: length_sf_header)
  have r: "new_frame_room po_example 4 100 [1, 2, 3]" by (simp add: new_frame_room_def stream_room_def h del: length_sf_header)
  have "\<not> can_combine po_example 4 100" by (simp add: can_combine_def)
  from stream_new_roundtrip [of po_example 4 100 "[1, 2, 3]" True, OF _ _ this] show ?thesis
    unfolding w using r by auto
qed

text \<open>
  C18: extending the last frame. When the packet holds only STREAM frames and the new data
  continues the last one, the generator appends as much as fits to that frame in place: the
  receiver then parses one frame with the old and the new data, and with the FIN if all of
  the new data was taken.
\<close>

theorem stream_append_roundtrip:
  assumes "last_frame po sid off f d" and "po_ok po" and "po_frame_types po = RQC_FRAME_BIT_STREAM"
    and "po_stream_frames_idx po < RQC_MAX_STREAM_FRAME_IN_PO"
    and "sid < 2 ^ 62" and "unat off + length d + length payload < 2 ^ 62"
    and "w = min (length payload) (rqc_get_po_remained_size po)"
    and "f' = (f \<or> (fin \<and> w = length payload))"
  shows "\<exists>po'. rqc_gen_stream_frame po sid (off + of_nat (length d)) fin payload = (Inr w, w, po') \<and>
    po_ok (po_advance po' w) \<and> last_frame (po_advance po' w) sid off f' (d @ take w payload) \<and>
    (\<forall>pi ce. carries pi (pi_pos pi) (sf_bytes sid off f' (d @ take w payload)) \<longrightarrow>
       rqc_parse_stream_frame True pi ce =
         (Inr (pi_done pi (pi_pos pi + length (sf_bytes sid off f' (d @ take w payload))) RQC_FRAME_BIT_STREAM,
               \<lparr>sf_data = d @ take w payload, sf_data_length = length d + w, sf_data_offset = off, sf_fin = f'\<rparr>,
               sid), ce))"
proof -
  obtain po' where po': "gen_stream_append po fin payload = (Inr w, w, po')" "po_ok (po_advance po' w)"
    "last_frame (po_advance po' w) sid off f' (d @ take w payload)"
    using gen_stream_append_spec [OF assms(1,2), where payload = payload and fin = fin, folded assms(7), folded assms(8)]
    by blast
  have gen: "rqc_gen_stream_frame po sid (off + of_nat (length d)) fin payload = (Inr w, w, po')"
    using last_frame_combines [OF assms(1-4)] po'(1) by simp
  have w: "w \<le> length payload" "length (d @ take w payload) = length d + w" using assms(7) by auto
  have "length (sf_bytes sid off f' (d @ take w payload)) \<le> length (po_buf (po_advance po' w))"
    using po'(3) by (auto simp: last_frame_def Let_def dest: holds_at_length)
  then have "length d + w < 2 ^ 14"
    using po'(2) w(2) by (auto simp: po_ok_def sf_bytes_def)
  then have "rqc_parse_stream_frame True pi ce =
         (Inr (pi_done pi (pi_pos pi + length (sf_bytes sid off f' (d @ take w payload))) RQC_FRAME_BIT_STREAM,
               \<lparr>sf_data = d @ take w payload, sf_data_length = length d + w, sf_data_offset = off, sf_fin = f'\<rparr>,
               sid), ce)" if "carries pi (pi_pos pi) (sf_bytes sid off f' (d @ take w payload))" for pi ce
    using parse_sf_bytes [OF that assms(5), of ce] assms(6) w by simp
  with gen po' show ?thesis by blast
qed

definition po_example2 :: rqc_packet_out where
  "po_example2 = po_example\<lparr>po_buf := [0x0a, 4, 0x40, 2, 1, 2] @ replicate 1446 0, po_used_size := 6,
     po_frame_types := RQC_FRAME_BIT_STREAM, po_stream_frames_idx := 1,
     po_stream_frames := \<lparr>ps_stream_id = 4, ps_offset = 0, ps_length = 2, ps_type_offset = 0,
       ps_length_offset = 2, ps_is_used = True, ps_has_fin = False, ps_is_reset = False\<rparr> #
       tl (po_stream_frames po_example)\<rparr>"

lemma sf_bytes_example: "sf_bytes 4 0 False [1, 2] = [0x0a, 4, 0x40, 2, 1, 2]" "sf_header 4 0 True False = [0x0a, 4]"
proof -
  have "vint_enc 4 = [4]" by (simp add: vint_enc_def rqc_vint_get_2bit_def rqc_vint_bytes_eq [of 0, simplified])
  moreover have "len2 2 = [0x40, 2]"
    by (simp add: len2_def rqc_vint_bytes_def push_bit_eq_mult drop_bit_eq_div)
  ultimately show "sf_bytes 4 0 False [1, 2] = [0x0a, 4, 0x40, 2, 1, 2]" "sf_header 4 0 True False = [0x0a, 4]"
    by (simp_all add: sf_bytes_def sf_header_def off_bytes_def stream_type_def numeral_2_eq_2)
qed

lemma po_example2_ok: "last_frame po_example2 4 0 False [1, 2]" "po_ok po_example2"
  "rqc_get_po_remained_size po_example2 = 1194"
  by (simp_all add: last_frame_def Let_def po_example2_def po_example_def sf_bytes_example holds_at_def po_ok_def
      rqc_get_po_remained_size_def del: length_sf_header)

theorem stream_append_roundtrip_witness:
  "\<exists>po'. rqc_gen_stream_frame po_example2 4 (0 + of_nat (length [1, 2 :: byte])) True [3] = (Inr 1, 1, po') \<and>
     last_frame (po_advance po' 1) 4 0 True [1, 2, 3]"
  using stream_append_roundtrip [OF po_example2_ok(1,2), of "[3]" 1 True True]
  by (auto simp: po_example2_ok(3)) (auto simp: po_example2_def)

text \<open>
  A FIN without data. It takes the header and one length byte when there is room for
  both, only the header, with \<open>RQC_POF_STREAM_NO_LEN\<close> set, when the header fills the packet, and
  fails otherwise; the receiver parses an empty frame with FIN at that offset (when the frame
  has no length, because it ends the packet).
\<close>

theorem stream_fin_roundtrip:
  assumes "po_ok po" and "po_stream_frames_idx po < RQC_MAX_STREAM_FRAME_IN_PO" and "\<not> can_combine po sid off"
    and "sid < 2 ^ 62" and "off < 2 ^ 62"
  shows "if length (sf_header sid off True True) \<le> rqc_get_po_remained_size po
    then \<exists>n po'. rqc_gen_stream_frame po sid off True [] = (Inr n, 0, po') \<and>
      (\<forall>pi ce. carries pi (pi_pos pi) (po_frame po' n) \<and>
         (po_flag po' AND RQC_POF_STREAM_NO_LEN = 0 \<or> pi_last pi = pi_pos pi + n) \<longrightarrow>
         rqc_parse_stream_frame True pi ce =
           (Inr (pi_done pi (pi_pos pi + n) RQC_FRAME_BIT_STREAM,
                 \<lparr>sf_data = [], sf_data_length = 0, sf_data_offset = off, sf_fin = True\<rparr>, sid), ce))
    else rqc_gen_stream_frame po sid off True [] = (Err (- RQC_ENOBUF), 0, po)"
proof -
  let ?h = "length (sf_header sid off True True)" and ?r = "rqc_get_po_remained_size po"
  have gen: "rqc_gen_stream_frame po sid off True [] = gen_stream_fin po sid off True"
    using assms(2,3) by (simp add: rqc_gen_stream_frame_def gen_stream_new_def)
  note spec = gen_stream_fin_spec [OF assms(1), of sid off]
  have fit: "po_used_size po + n \<le> length (po_buf po)" if "n \<le> ?r" for n
    using remained_fits [OF assms(1) that] .
  consider "?h < ?r" | "?h = ?r" | "?r < ?h" by linarith
  then show ?thesis
  proof cases
    case 1
    let ?bs = "sf_header sid off True True @ [0]"
    let ?po = "stream_record po (overwrite (po_buf po) (po_used_size po) ?bs) None sid off 0 True"
    have "rqc_parse_stream_frame True pi ce = (Inr (pi_done pi (pi_pos pi + (?h + 1)) RQC_FRAME_BIT_STREAM,
        \<lparr>sf_data = [], sf_data_length = 0, sf_data_offset = off, sf_fin = True\<rparr>, sid), ce)"
      if "carries pi (pi_pos pi) ?bs" for pi ce
      using that parse_fin_len [OF that assms(4,5)] by (simp add: add.assoc)
    moreover have "po_frame ?po (?h + 1) = ?bs" using fit [of "?h + 1"] 1 by simp
    ultimately show ?thesis using 1 gen spec
      by (simp only: if_True less_imp_le) (intro exI [of _ "?h + 1"] exI [of _ ?po] conjI allI impI; simp)
  next
    case 2
    let ?bs = "sf_header sid off False True"
    let ?q = "po\<lparr>po_flag := po_flag po OR RQC_POF_STREAM_NO_LEN\<rparr>"
    let ?po = "stream_record ?q (overwrite (po_buf po) (po_used_size po) ?bs) None sid off 0 True"
    have "po_flag ?po AND RQC_POF_STREAM_NO_LEN \<noteq> 0" by (simp add: stream_record_def Let_def or_and_flag)
    moreover have "po_frame ?po ?h = ?bs"
      using fit [of ?h] 2 po_frame_record [of ?q ?bs ?h None sid off 0 True] by simp
    moreover have "rqc_parse_stream_frame True pi ce = (Inr (pi_done pi (pi_pos pi + ?h) RQC_FRAME_BIT_STREAM,
        \<lparr>sf_data = [], sf_data_length = 0, sf_data_offset = off, sf_fin = True\<rparr>, sid), ce)"
      if "carries pi (pi_pos pi) ?bs" "pi_last pi = pi_pos pi + ?h" for pi ce
      using parse_fin_nolen [OF that(1) assms(4,5)] that(2) by simp
    ultimately show ?thesis using 2 gen spec
      by (simp only: if_True order_refl) (intro exI [of _ ?h] exI [of _ ?po] conjI allI impI; auto)
  qed (use gen spec in simp)
qed

theorem stream_fin_roundtrip_witness:
  "\<exists>n po'. rqc_gen_stream_frame po_example 4 100 True [] = (Inr n, 0, po')"
proof -
  have "length (sf_header 4 100 True True) \<le> rqc_get_po_remained_size po_example"
    using sf_header_bound [of 4 100 True True] by simp
  moreover have "\<not> can_combine po_example 4 100" by (simp add: can_combine_def)
  ultimately show ?thesis using stream_fin_roundtrip [of po_example 4 100] by auto
qed

text \<open>
  C19: parsing a STREAM frame from any received bytes is memory safe: it never reads outside
  the packet, and when it succeeds it makes progress, stays inside the packet, copies exactly
  \<open>data_length\<close> bytes, and the frame ends at a stream offset below \<open>2 ^ 62\<close>.
\<close>

theorem stream_parse_safe:
  assumes "pi_ok pi" and "pi_pos pi < pi_last pi"
  shows "case rqc_parse_stream_frame ok pi ce of
      (Inl e, ce') \<Rightarrow> e \<noteq> Fault
    | (Inr (pi', fr, sid), ce') \<Rightarrow> ce' = ce \<and> pi_pos pi < pi_pos pi' \<and> pi_ok pi' \<and> pi_last pi' = pi_last pi \<and>
        length (sf_data fr) = sf_data_length fr \<and> unat (sf_data_offset fr) + sf_data_length fr < 2 ^ 62"
proof (cases "parse_stream_fields pi")
  case (Inl e)
  then show ?thesis using res_postD(1) [OF parse_stream_fields_post [OF assms]]
    by (simp add: rqc_parse_stream_frame_def)
next
  case (Inr x)
  obtain b sid off len p where x: "x = (b, sid, off, len, p)" by (metis surj_pair)
  have p: "pi_pos pi < p" "p + unat len \<le> pi_last pi" "off < 2 ^ 62"
    using res_postD(2) [OF parse_stream_fields_post [OF assms] Inr] by (simp_all add: x)
  have "off \<le> push_bit 62 1 - 1" using p(3) by (simp add: word_less_nat_alt word_le_nat_alt)
  then have "unat ((push_bit 62 1 - 1) - off) = 2 ^ 62 - 1 - unat off" by (simp add: unat_sub)
  then have "unat off + unat len < 2 ^ 62" if "\<not> len > (push_bit 62 1 - 1) - off"
    using that p(3) by (simp add: word_less_nat_alt)
  moreover have "length (take (unat len) (drop p (pi_buf pi))) = unat len"
    using p(2) assms(1) by (auto simp: pi_ok_def)
  ultimately show ?thesis using Inr x p assms
    by (auto simp: rqc_parse_stream_frame_def rd_mem_ok pi_done_def pi_ok_def)
qed

theorem stream_parse_safe_witness:
  "fst (rqc_parse_stream_frame True (pi_example [0x0e, 0x04, 0x40]) 0) \<noteq> Inl Fault"
  using stream_parse_safe [of "pi_example [0x0e, 0x04, 0x40]" 0 True] by (auto split: prod.splits)

end
