(* ===== verification/Rqc_Recv_Record.thy ===== *)
theory Rqc_Recv_Record
  imports Rqc_Ring_Array
begin

text \<open>
  The record of received packet numbers and of sent acknowledgements:
  \<open>src/transport/rqc_recv_record.{h,c}\<close>.

  \<open>rqc_recv_record_t\<close> keeps a linked list of ranges, highest first, of at most
  \<open>RQC_MAX_ACK_RANGE_CNT\<close> nodes. A position in the linked list is a split of the list into
  the nodes already passed and the rest: \<open>prev\<close> is the last node of the first part, \<open>pos\<close> the
  head of the second. Unlinking the list head itself (which the code would do if its merge
  test succeeded with \<open>pos\<close> at the end of the list) is a \<open>Fault\<close>, shown not to happen. The lemmas
  say that the list represents a set of packet numbers: adding inserts, a duplicate is
  detected exactly, deleting cuts below a bound, and when the list is full only the lowest
  numbers are forgotten (locale \<open>pktno_set\<close>).

  \<open>rqc_ack_sent_record_t\<close> keeps, in a ring array of eight entries, which packets carried
  which acknowledgement.
\<close>

subsection \<open>Received packet numbers\<close>

datatype rqc_pkt_range_status = RQC_PKTRANGE_OK | RQC_PKTRANGE_DUP | RQC_PKTRANGE_ERR

record rqc_pktno_range =
  low :: u64
  high :: u64

record rqc_recv_record =
  list_head :: "rqc_pktno_range list"
  rr_del_from :: u64
  node_count :: int

abbreviation "RQC_MAX_ACK_RANGE_CNT \<equiv> (64 :: int)"

definition rqc_pktno_range_can_merge :: "rqc_pktno_range \<Rightarrow> u64 \<Rightarrow> bool \<times> rqc_pktno_range" where
  "rqc_pktno_range_can_merge node packet_number =
     (if low node - 1 = packet_number then (True, node\<lparr>low := low node - 1\<rparr>)
      else if high node + 1 = packet_number then (True, node\<lparr>high := high node + 1\<rparr>)
      else (False, node))"

text \<open>
  The search loop of \<open>rqc_recv_record_add\<close>: \<open>None\<close> is the \<open>return RQC_PKTRANGE_DUP\<close> inside it,
  otherwise the nodes up to \<open>prev\<close> and the nodes from \<open>pos\<close> on (none when \<open>pos_find\<close> is 0).
\<close>

fun rr_scan :: "u64 \<Rightarrow> rqc_pktno_range list \<Rightarrow> (rqc_pktno_range list \<times> rqc_pktno_range list) option" where
  "rr_scan pn [] = Some ([], [])"
| "rr_scan pn (r # rs) =
     (if pn \<le> high r then
        (if pn \<ge> low r then None else map_option (\<lambda>(b, a). (r # b, a)) (rr_scan pn rs))
      else Some ([], r # rs))"

text \<open>
  The condition \<open>(prev_node && can_merge(prev_node)) || (pnode && can_merge(pnode))\<close>, which
  changes the node it accepts. When the loop ran to the end, \<open>pnode\<close> still points to the last
  node, the same as \<open>prev_node\<close>.
\<close>

definition rr_try_merge ::
  "u64 \<Rightarrow> rqc_pktno_range list \<Rightarrow> rqc_pktno_range list \<Rightarrow>
   bool \<times> rqc_pktno_range list \<times> rqc_pktno_range list" where
  "rr_try_merge pn before after =
     (let (m1, before1) =
        (if before = [] then (False, before)
         else let (m, n) = rqc_pktno_range_can_merge (last before) pn in (m, butlast before @ [n]))
      in if m1 then (True, before1, after)
         else case after of
             r # rs \<Rightarrow> (let (m, n) = rqc_pktno_range_can_merge r pn in (m, before1, n # rs))
           | [] \<Rightarrow>
               if before1 = [] then (False, before1, [])
               else let (m, n) = rqc_pktno_range_can_merge (last before1) pn
                    in (m, butlast before1 @ [n], []))"

text \<open>The reverse loop that deletes nodes from the tail while there are too many.\<close>

fun rr_trim_rev :: "rqc_pktno_range list \<Rightarrow> int \<Rightarrow> rqc_pktno_range list \<times> int" where
  "rr_trim_rev [] c = ([], c)"
| "rr_trim_rev (r # rs) c =
     (if c - 1 \<le> RQC_MAX_ACK_RANGE_CNT then (rs, c - 1) else rr_trim_rev rs (c - 1))"

text \<open>
  After a merge: \<open>prev_node && pnode && prev_node->low - 1 == pnode->high\<close> joins the two nodes
  and unlinks \<open>pos\<close>, which is the list head itself when the loop ran to its end.
\<close>

definition rr_join ::
  "rqc_recv_record \<Rightarrow> rqc_pktno_range list \<Rightarrow> rqc_pktno_range list \<Rightarrow> rqc_recv_record res" where
  "rr_join rr before after =
     (if before \<noteq> [] \<and> low (last before) - 1 = high (if after = [] then last before else hd after) then
        (case after of
           [] \<Rightarrow> Inl Fault
         | r # rs \<Rightarrow> Inr (rr\<lparr>list_head := butlast before @ (last before)\<lparr>low := low r\<rparr> # rs,
                            node_count := node_count rr - 1\<rparr>))
      else Inr (rr\<lparr>list_head := before @ after\<rparr>))"

text \<open>The new node is linked before \<open>pos\<close>, or at the tail if there is room.\<close>

definition rr_insert ::
  "rqc_recv_record \<Rightarrow> u64 \<Rightarrow> rqc_pktno_range list \<Rightarrow> rqc_pktno_range list \<Rightarrow> rqc_recv_record" where
  "rr_insert rr pn before after =
     (if after \<noteq> [] then
        (let nodes = before @ \<lparr>low = pn, high = pn\<rparr> # after; cnt = node_count rr + 1
         in if cnt > RQC_MAX_ACK_RANGE_CNT then
              (let (kept, cnt') = rr_trim_rev (rev nodes) cnt
               in rr\<lparr>list_head := rev kept, node_count := cnt'\<rparr>)
            else rr\<lparr>list_head := nodes, node_count := cnt\<rparr>)
      else if node_count rr < RQC_MAX_ACK_RANGE_CNT then
        rr\<lparr>list_head := before @ [\<lparr>low = pn, high = pn\<rparr>], node_count := node_count rr + 1\<rparr>
      else rr)"

definition rqc_recv_record_add ::
  "bool \<Rightarrow> rqc_recv_record \<Rightarrow> u64 \<Rightarrow> (rqc_pkt_range_status \<times> rqc_recv_record) res" where
  "rqc_recv_record_add alloc_ok rr pn =
     (case rr_scan pn (list_head rr) of
        None \<Rightarrow> Inr (RQC_PKTRANGE_DUP, rr)
      | Some (before, after) \<Rightarrow>
          (case rr_try_merge pn before after of
             (True, before1, after1) \<Rightarrow> map_sum id (\<lambda>rr'. (RQC_PKTRANGE_OK, rr')) (rr_join rr before1 after1)
           | (False, _, _) \<Rightarrow>
               if \<not> alloc_ok then Inr (RQC_PKTRANGE_ERR, rr)
               else Inr (RQC_PKTRANGE_OK, rr_insert rr pn before after)))"

text \<open>The deletion loop visits every node: it drops it, cuts its low end or keeps it.\<close>

fun rr_del_loop :: "u64 \<Rightarrow> rqc_pktno_range list \<Rightarrow> int \<Rightarrow> rqc_pktno_range list \<times> int" where
  "rr_del_loop del_from [] c = ([], c)"
| "rr_del_loop del_from (r # rs) c =
     (if low r < del_from then
        (if high r < del_from then rr_del_loop del_from rs (c - 1)
         else let (rs', c') = rr_del_loop del_from rs c in (r\<lparr>low := del_from\<rparr> # rs', c'))
      else let (rs', c') = rr_del_loop del_from rs c in (r # rs', c'))"

definition rqc_recv_record_del :: "rqc_recv_record \<Rightarrow> u64 \<Rightarrow> rqc_recv_record" where
  "rqc_recv_record_del rr del_from =
     (if del_from < rr_del_from rr then rr
      else let (rs, c) = rr_del_loop del_from (list_head rr) (node_count rr)
           in rr\<lparr>rr_del_from := del_from, list_head := rs, node_count := c\<rparr>)"

definition rqc_recv_record_destroy :: "rqc_recv_record \<Rightarrow> rqc_recv_record" where
  "rqc_recv_record_destroy rr = rr\<lparr>list_head := [], node_count := 0, rr_del_from := 0\<rparr>"

definition rqc_recv_record_largest :: "rqc_recv_record \<Rightarrow> u64" where
  "rqc_recv_record_largest rr = (case list_head rr of [] \<Rightarrow> 0 | r # _ \<Rightarrow> high r)"

subsection \<open>Sent acknowledgements\<close>

text \<open>
  \<open>ranges\<close> is the fixed array of \<open>rqc_ack_info_t\<close>, of which \<open>n_ranges\<close> are in use. The entry
  type of the ring array is \<open>rqc_ack_sent_entry_t\<close>, of 16 bytes.
\<close>

record rqc_ack_info =
  ai_path_id :: u64
  n_ranges :: u32
  ranges :: "rqc_pktno_range list"
  ack_delay :: u64
  largest_acked :: u64

record rqc_ack_sent_entry =
  as_pkt_num :: u64
  largest_ack :: u64

record rqc_ack_sent_record =
  ack_sent :: "rqc_ack_sent_entry rqc_rarray"
  last_add_time :: u64

definition rqc_ack_sent_record_init :: "bool \<Rightarrow> rqc_ack_sent_record option" where
  "rqc_ack_sent_record_init alloc_ok =
     (case rqc_rarray_create alloc_ok 8 16 of
        None \<Rightarrow> None
      | Some ra \<Rightarrow> Some \<lparr>ack_sent = ra, last_add_time = 0\<rparr>)"

text \<open>
  \<open>pn\<close> and \<open>la\<close> are \<open>packet_out->po_pkt.pkt_num\<close> and \<open>packet_out->po_largest_ack\<close>; the result
  is \<open>RQC_OK\<close> (0) or \<open>RQC_ERROR\<close>.
\<close>

definition rqc_ack_sent_record_add ::
  "rqc_ack_sent_record \<Rightarrow> u64 \<Rightarrow> u64 \<Rightarrow> u64 \<Rightarrow> u64 \<Rightarrow> int \<times> rqc_ack_sent_record" where
  "rqc_ack_sent_record_add record pn la srtt now =
     (if last_add_time record + srtt > now then (0, record)
      else
        let ra = (if rqc_rarray_full (ack_sent record) then snd (rqc_rarray_pop_back (ack_sent record))
                  else ack_sent record)
        in case rqc_rarray_push_front ra of
             (None, ra1) \<Rightarrow> (RQC_ERROR, record\<lparr>ack_sent := ra1\<rparr>)
           | (Some entry, ra1) \<Rightarrow>
               (0, record\<lparr>ack_sent := ra_store ra1 entry \<lparr>as_pkt_num = pn, largest_ack = la\<rparr>,
                          last_add_time := now\<rparr>))"

text \<open>
  The inner \<open>while\<close> of \<open>rqc_ack_sent_record_on_ack\<close>: it moves \<open>range\<close> forward; \<open>Inr None\<close> is
  its \<open>return 0\<close>. Reading an element past the array is a \<open>Fault\<close>.
\<close>

function ack_skip_ranges :: "rqc_ack_info \<Rightarrow> u64 \<Rightarrow> nat \<Rightarrow> nat option res" where
  "ack_skip_ranges ai pn r =
     (if r \<ge> length (ranges ai) then Inl Fault
      else if pn < low (ranges ai ! r) then
        (if r = unat (n_ranges ai - 1) then Inr None else ack_skip_ranges ai pn (r + 1))
      else Inr (Some r))"
  by pat_completeness auto
termination
  by (relation "measure (\<lambda>(ai, pn, r). length (ranges ai) - r)") auto

declare ack_skip_ranges.simps [simp del]

text \<open>The outer loop, at index \<open>i\<close> with \<open>k\<close> entries left; a slot never written is a \<open>Fault\<close>.\<close>

fun on_ack_loop ::
  "rqc_ack_sent_entry rqc_rarray \<Rightarrow> rqc_ack_info \<Rightarrow> nat \<Rightarrow> nat \<Rightarrow> nat \<Rightarrow>
   (u64 \<times> rqc_ack_sent_entry rqc_rarray) res" where
  "on_ack_loop ra ai i r 0 = Inr (0, ra)"
| "on_ack_loop ra ai i r (Suc k) =
     (case rqc_rarray_get ra (of_nat i) of
        None \<Rightarrow> Inr (0, ra)
      | Some slot \<Rightarrow>
          (case ra_buf ra ! slot of
             None \<Rightarrow> Inl Fault
           | Some entry \<Rightarrow>
               (case ack_skip_ranges ai (as_pkt_num entry) r of
                  Inl f \<Rightarrow> Inl f
                | Inr None \<Rightarrow> Inr (0, ra)
                | Inr (Some r') \<Rightarrow>
                    if as_pkt_num entry \<le> high (ranges ai ! r') \<and> as_pkt_num entry \<ge> low (ranges ai ! r') then
                      Inr (largest_ack entry, snd (rqc_rarray_pop_from ra (of_nat i)))
                    else on_ack_loop ra ai (i + 1) r' k)))"

definition rqc_ack_sent_record_on_ack ::
  "rqc_ack_sent_record \<Rightarrow> rqc_ack_info \<Rightarrow> (u64 \<times> rqc_ack_sent_record) res" where
  "rqc_ack_sent_record_on_ack record ai =
     map_sum id (\<lambda>(v, ra). (v, record\<lparr>ack_sent := ra\<rparr>))
       (on_ack_loop (ack_sent record) ai 0 0 (unat (rqc_rarray_size (ack_sent record))))"

subsection \<open>Invariant and abstraction\<close>

abbreviation "lo r \<equiv> unat (low r)"
abbreviation "hi r \<equiv> unat (high r)"

definition ranges_ok :: "rqc_pktno_range list \<Rightarrow> bool" where
  "ranges_ok rs \<longleftrightarrow>
     sorted_wrt (\<lambda>a b. hi b + 1 < lo a) rs \<and> (\<forall>r \<in> set rs. lo r \<le> hi r \<and> hi r < 2 ^ 62)"

definition ranges_set :: "rqc_pktno_range list \<Rightarrow> nat set" where
  "ranges_set rs = (\<Union>r \<in> set rs. {lo r..hi r})"

definition rr_inv :: "rqc_recv_record \<Rightarrow> bool" where
  "rr_inv rr \<longleftrightarrow> ranges_ok (list_head rr) \<and> node_count rr = int (length (list_head rr)) \<and>
     node_count rr \<le> RQC_MAX_ACK_RANGE_CNT"

definition rr_set :: "rqc_recv_record \<Rightarrow> nat set" where
  "rr_set rr = ranges_set (list_head rr)"

subsection \<open>Range lists\<close>

lemma ranges_set_simps [simp]:
  "ranges_set [] = {}" "ranges_set (r # rs) = {lo r..hi r} \<union> ranges_set rs"
  "ranges_set (rs @ qs) = ranges_set rs \<union> ranges_set qs"
  by (auto simp: ranges_set_def)

lemma ranges_ok_append:
  "ranges_ok (a @ b) \<longleftrightarrow> ranges_ok a \<and> ranges_ok b \<and> (\<forall>x \<in> set a. \<forall>y \<in> set b. hi y + 1 < lo x)"
  by (auto simp: ranges_ok_def sorted_wrt_append)

lemma ranges_ok_Cons:
  "ranges_ok (r # rs) \<longleftrightarrow>
     lo r \<le> hi r \<and> hi r < 2 ^ 62 \<and> (\<forall>y \<in> set rs. hi y + 1 < lo r) \<and> ranges_ok rs"
  by (auto simp: ranges_ok_def)

lemma ranges_ok_Nil [simp]: "ranges_ok []"
  by (simp add: ranges_ok_def)

lemmas ranges_ok_simps = ranges_ok_append ranges_ok_Cons

lemma ranges_ok_range: "ranges_ok rs \<Longrightarrow> r \<in> set rs \<Longrightarrow> lo r \<le> hi r \<and> hi r < 2 ^ 62"
  by (simp add: ranges_ok_def)

lemma rr_scan_None:
  assumes "ranges_ok rs"
  shows "rr_scan pn rs = None \<longleftrightarrow> unat pn \<in> ranges_set rs"
  using assms
proof (induction rs)
  case (Cons r rs)
  have "unat pn \<notin> ranges_set rs" if "hi r < unat pn"
    using that Cons.prems by (force simp: ranges_ok_Cons ranges_set_def)
  with Cons show ?case
    by (auto simp: ranges_ok_Cons word_le_nat_alt not_le split: option.splits)
qed simp

lemma rr_scan_Some:
  assumes "ranges_ok rs" "rr_scan pn rs = Some (b, a)"
  shows "rs = b @ a" "\<forall>r \<in> set b. unat pn < lo r" "\<forall>r \<in> set a. hi r < unat pn"
proof -
  have "rs = b @ a \<and> (\<forall>r \<in> set b. unat pn < lo r) \<and> (\<forall>r \<in> set a. hi r < unat pn)"
    using assms
  proof (induction rs arbitrary: b)
    case (Cons r rs)
    show ?case
    proof (cases "pn \<le> high r")
      case True
      with Cons show ?thesis
        by (fastforce simp: ranges_ok_Cons word_le_nat_alt not_le split: if_splits)
    next
      case False
      with Cons.prems show ?thesis
        by (fastforce simp: ranges_ok_Cons word_le_nat_alt)
    qed
  qed simp
  then show "rs = b @ a" "\<forall>r \<in> set b. unat pn < lo r" "\<forall>r \<in> set a. hi r < unat pn" by auto
qed

text \<open>The merge tests on \<open>uint64_t\<close>, for packet numbers below \<open>2 ^ 62\<close>.\<close>

lemma u64_small: "x < 2 ^ 62 \<longleftrightarrow> unat x < 2 ^ 62" for x :: u64
  by (simp add: word_less_nat_alt)

lemma u64_pred_eq: "unat pn < 2 ^ 62 \<Longrightarrow> x - 1 = pn \<longleftrightarrow> unat x = unat pn + 1" for x pn :: u64
  by (subst diff_eq_eq) (simp add: word_unat_eq_iff unat_word_ariths)

lemma u64_succ_eq: "unat x < 2 ^ 62 \<Longrightarrow> x + 1 = pn \<longleftrightarrow> unat pn = unat x + 1" for x pn :: u64
  by (auto simp: word_unat_eq_iff unat_word_ariths)

lemma can_merge_above:
  "unat pn < lo r \<Longrightarrow> lo r \<le> hi r \<Longrightarrow> hi r < 2 ^ 62 \<Longrightarrow>
   rqc_pktno_range_can_merge r pn = (if lo r = unat pn + 1 then (True, r\<lparr>low := pn\<rparr>) else (False, r))"
  by (auto simp: rqc_pktno_range_can_merge_def u64_pred_eq u64_succ_eq)

lemma can_merge_below:
  "hi r < unat pn \<Longrightarrow> lo r \<le> hi r \<Longrightarrow> unat pn < 2 ^ 62 \<Longrightarrow>
   rqc_pktno_range_can_merge r pn = (if unat pn = hi r + 1 then (True, r\<lparr>high := pn\<rparr>) else (False, r))"
  by (auto simp: rqc_pktno_range_can_merge_def u64_pred_eq u64_succ_eq)

lemma rr_trim_rev_one: "rs \<noteq> [] \<Longrightarrow> c = 65 \<Longrightarrow> rr_trim_rev rs c = (tl rs, 64)"
  by (cases rs) auto

text \<open>
  The cases of \<open>rqc_recv_record_add\<close>, read off the code: the number is known, it closes the
  gap between two ranges, it extends a range at one end, or it stands alone.
\<close>

lemma rqc_recv_record_add_cases:
  assumes inv: "rr_inv rr" and pn: "unat pn < 2 ^ 62"
  obtains
    (dup) "unat pn \<in> rr_set rr" "rqc_recv_record_add ok rr pn = Inr (RQC_PKTRANGE_DUP, rr)"
  | (join) b l r rs where "list_head rr = b @ l # r # rs" "lo l = unat pn + 1" "unat pn = hi r + 1"
      "rqc_recv_record_add ok rr pn = Inr (RQC_PKTRANGE_OK,
         rr\<lparr>list_head := b @ l\<lparr>low := low r\<rparr> # rs, node_count := node_count rr - 1\<rparr>)"
  | (down) b l a where "list_head rr = b @ l # a" "lo l = unat pn + 1" "\<forall>r \<in> set a. hi r + 1 < unat pn"
      "rqc_recv_record_add ok rr pn = Inr (RQC_PKTRANGE_OK, rr\<lparr>list_head := b @ l\<lparr>low := pn\<rparr> # a\<rparr>)"
  | (up) b r rs where "list_head rr = b @ r # rs" "unat pn = hi r + 1" "\<forall>l \<in> set b. unat pn + 1 < lo l"
      "rqc_recv_record_add ok rr pn = Inr (RQC_PKTRANGE_OK, rr\<lparr>list_head := b @ r\<lparr>high := pn\<rparr> # rs\<rparr>)"
  | (alone) b a where "list_head rr = b @ a" "\<forall>l \<in> set b. unat pn + 1 < lo l" "\<forall>r \<in> set a. hi r + 1 < unat pn"
      "rqc_recv_record_add ok rr pn =
         Inr (if ok then (RQC_PKTRANGE_OK, rr_insert rr pn b a) else (RQC_PKTRANGE_ERR, rr))"
proof (cases "rr_scan pn (list_head rr)")
  case None
  then show ?thesis
    using inv rr_scan_None [of "list_head rr" pn] dup
    by (simp add: rqc_recv_record_add_def rr_inv_def rr_set_def)
next
  case (Some ba)
  obtain b a where ba: "ba = (b, a)" by force
  have ok: "ranges_ok (list_head rr)" using inv by (simp add: rr_inv_def)
  note sc = rr_scan_Some [OF ok Some [unfolded ba]]
  have okba: "ranges_ok b" "ranges_ok a" using ok by (simp_all add: sc(1) ranges_ok_append)
  have add: "rqc_recv_record_add ok rr pn = (case rr_try_merge pn b a of
      (True, b1, a1) \<Rightarrow> map_sum id (\<lambda>rr'. (RQC_PKTRANGE_OK, rr')) (rr_join rr b1 a1)
    | (False, _, _) \<Rightarrow>
        Inr (if ok then (RQC_PKTRANGE_OK, rr_insert rr pn b a) else (RQC_PKTRANGE_ERR, rr)))"
    by (simp add: rqc_recv_record_add_def Some ba)
  show ?thesis
  proof (cases "b \<noteq> [] \<and> lo (last b) = unat pn + 1")
    case True
    then obtain b0 l where b: "b = b0 @ [l]" by (metis rev_exhaust)
    have tm: "rr_try_merge pn b a = (True, b0 @ [l\<lparr>low := pn\<rparr>], a)"
      using True b sc okba by (simp add: rr_try_merge_def can_merge_above ranges_ok_simps)
    show ?thesis
    proof (cases "a \<noteq> [] \<and> unat pn = hi (hd a) + 1")
      case c: True
      then obtain r rs where a: "a = r # rs" by (cases a) auto
      show ?thesis
        by (rule join [of b0 l r rs])
          (use True b c a tm sc okba in \<open>simp_all add: add rr_join_def u64_pred_eq ranges_ok_simps\<close>)
    next
      case c: False
      have "\<forall>r \<in> set a. hi r + 1 < unat pn"
        using c sc(3) okba(2) by (cases a) (force simp: ranges_ok_simps)+
      then show ?thesis
        by (rule down [of b0 l a, rotated 2])
          (use True b c tm sc okba in \<open>cases a; simp add: add rr_join_def u64_pred_eq ranges_ok_simps\<close>)+
    qed
  next
    case nb: False
    have b_far: "\<forall>l \<in> set b. unat pn + 1 < lo l"
      using nb sc(2) okba(1) by (cases b rule: rev_cases) (force simp: ranges_ok_simps)+
    have nm: "rqc_pktno_range_can_merge (last b) pn = (False, last b)" if "b \<noteq> []"
    proof -
      have "unat pn + 1 < lo (last b)" "lo (last b) \<le> hi (last b)" "hi (last b) < 2 ^ 62"
        using that b_far okba(1) by (simp_all add: ranges_ok_def)
      then show ?thesis by (simp add: can_merge_above)
    qed
    show ?thesis
    proof (cases "a \<noteq> [] \<and> unat pn = hi (hd a) + 1")
      case True
      then obtain r rs where a: "a = r # rs" by (cases a) auto
      have "rr_try_merge pn b a = (True, b, r\<lparr>high := pn\<rparr> # rs)"
        using True a sc okba pn nm by (simp add: rr_try_merge_def can_merge_below ranges_ok_simps)
      then show ?thesis
        by (intro up [of b r rs])
          (use True a b_far sc pn in \<open>cases b rule: rev_cases; auto simp: add rr_join_def u64_pred_eq\<close>)+
    next
      case na: False
      have a_far: "\<forall>r \<in> set a. hi r + 1 < unat pn"
        using na sc(3) okba(2) by (cases a) (force simp: ranges_ok_simps)+
      have "rqc_pktno_range_can_merge r pn = (False, r)" if "a = r # rs" for r rs
        using that a_far okba(2) pn can_merge_below [of r pn] by (auto simp: ranges_ok_simps)
      with nm have "rr_try_merge pn b a = (False, b, a)"
        by (auto simp: rr_try_merge_def split: list.split)
      with a_far b_far sc show ?thesis by (intro alone [of b a]) (auto simp: add)
    qed
  qed
qed

lemma rr_insert_eq:
  assumes inv: "rr_inv rr" and l: "list_head rr = b @ a"
  shows "rr_insert rr pn b a =
    (if node_count rr < 64 then rr\<lparr>list_head := b @ \<lparr>low = pn, high = pn\<rparr> # a, node_count := node_count rr + 1\<rparr>
     else if a = [] then rr else rr\<lparr>list_head := b @ \<lparr>low = pn, high = pn\<rparr> # butlast a\<rparr>)"
proof -
  have cnt: "node_count rr = int (length b + length a)" "node_count rr \<le> 64"
    using inv by (simp_all add: rr_inv_def l)
  have "rr_trim_rev (rev a @ \<lparr>low = pn, high = pn\<rparr> # rev b) (node_count rr + 1)
      = (rev (b @ \<lparr>low = pn, high = pn\<rparr> # butlast a), 64)" if "a \<noteq> []" "\<not> node_count rr < 64"
    using that cnt rr_trim_rev_one [of "rev a @ \<lparr>low = pn, high = pn\<rparr> # rev b" "node_count rr + 1"]
    by (cases a rule: rev_cases) auto
  then show ?thesis using cnt by (simp add: rr_insert_def)
qed


text \<open>One step on the sorted range list, in each of the cases.\<close>

lemma ranges_join:
  assumes "ranges_ok (b @ l # r # rs)" "lo l = n + 1" "n = hi r + 1"
  shows "ranges_ok (b @ l\<lparr>low := low r\<rparr> # rs)"
    "ranges_set (b @ l\<lparr>low := low r\<rparr> # rs) = insert n (ranges_set (b @ l # r # rs))"
  using assms by (auto simp: ranges_ok_simps)

lemma ranges_down:
  assumes "ranges_ok (b @ l # a)" "lo l = unat pn + 1" "\<forall>r \<in> set a. hi r + 1 < unat pn"
  shows "ranges_ok (b @ l\<lparr>low := pn\<rparr> # a)"
    "ranges_set (b @ l\<lparr>low := pn\<rparr> # a) = insert (unat pn) (ranges_set (b @ l # a))"
  using assms by (auto simp: ranges_ok_simps)

lemma ranges_up:
  assumes "ranges_ok (b @ r # rs)" "unat pn = hi r + 1" "\<forall>l \<in> set b. unat pn + 1 < lo l" "unat pn < 2 ^ 62"
  shows "ranges_ok (b @ r\<lparr>high := pn\<rparr> # rs)"
    "ranges_set (b @ r\<lparr>high := pn\<rparr> # rs) = insert (unat pn) (ranges_set (b @ r # rs))"
  using assms by (auto simp: ranges_ok_simps)

lemma ranges_alone:
  assumes "ranges_ok (b @ a)" "\<forall>l \<in> set b. unat pn + 1 < lo l" "\<forall>r \<in> set a. hi r + 1 < unat pn"
    "unat pn < 2 ^ 62"
  shows "ranges_ok (b @ \<lparr>low = pn, high = pn\<rparr> # a)"
    "ranges_set (b @ \<lparr>low = pn, high = pn\<rparr> # a) = insert (unat pn) (ranges_set (b @ a))"
  using assms by (auto simp: ranges_ok_simps)

lemma ranges_last: "ranges_ok (rs @ [z]) \<Longrightarrow> x \<in> {lo z..hi z} \<Longrightarrow> y \<in> ranges_set rs \<Longrightarrow> x < y"
  by (fastforce simp: ranges_ok_simps ranges_set_def)

lemmas ranges_steps = ranges_join ranges_down ranges_up ranges_alone

text \<open>What \<open>rqc_recv_record_add\<close> returns and leaves, in terms of the set of numbers.\<close>

lemma rqc_recv_record_add_inv:
  assumes "rr_inv rr" "unat pn < 2 ^ 62"
  shows "\<exists>st rr'. rqc_recv_record_add ok rr pn = Inr (st, rr') \<and> rr_inv rr' \<and>
    rr_del_from rr' = rr_del_from rr"
  using assms(1,2)
proof (cases rule: rqc_recv_record_add_cases [where ok = ok])
  case (join b l r rs)
  with assms show ?thesis using ranges_join [of b l r rs "unat pn"] by (auto simp: rr_inv_def)
next
  case (down b l a)
  with assms show ?thesis using ranges_down [of b l a pn] by (auto simp: rr_inv_def)
next
  case (up b r rs)
  with assms show ?thesis using ranges_up [of b r rs pn] by (auto simp: rr_inv_def)
next
  case (alone b a)
  have "ranges_ok (b @ \<lparr>low = pn, high = pn\<rparr> # a)"
    using assms alone ranges_alone by (metis rr_inv_def)
  moreover from this have "ranges_ok (b @ \<lparr>low = pn, high = pn\<rparr> # butlast a)"
    by (cases a rule: rev_cases) (auto simp: ranges_ok_simps)
  ultimately show ?thesis using assms alone rr_insert_eq [OF assms(1) alone(1), of pn]
    by (auto simp: rr_inv_def)
qed (use assms in auto)


lemma rqc_recv_record_add_status:
  assumes "rr_inv rr" "unat pn < 2 ^ 62" "rqc_recv_record_add ok rr pn = Inr (st, rr')"
  shows "st = RQC_PKTRANGE_DUP \<longleftrightarrow> unat pn \<in> rr_set rr"
    and "st \<noteq> RQC_PKTRANGE_OK \<Longrightarrow> rr' = rr"
    and "ok \<Longrightarrow> st \<noteq> RQC_PKTRANGE_ERR"
proof -
  have *: "(st = RQC_PKTRANGE_DUP \<longleftrightarrow> unat pn \<in> rr_set rr) \<and> (st \<noteq> RQC_PKTRANGE_OK \<longrightarrow> rr' = rr) \<and>
      (ok \<longrightarrow> st \<noteq> RQC_PKTRANGE_ERR)"
  proof (cases "rr_scan pn (list_head rr)")
    case None
    then show ?thesis using assms rr_scan_None [of "list_head rr" pn]
      by (auto simp: rr_inv_def rr_set_def rqc_recv_record_add_def)
  next
    case (Some ba)
    then have "unat pn \<notin> rr_set rr" using assms rr_scan_None [of "list_head rr" pn]
      by (auto simp: rr_inv_def rr_set_def)
    with Some assms(3) show ?thesis
      by (cases "rr_join rr (fst (snd (rr_try_merge pn (fst ba) (snd ba)))) (snd (snd (rr_try_merge pn (fst ba) (snd ba))))")
        (auto simp: rqc_recv_record_add_def split: prod.splits bool.splits if_splits)
  qed
  then show "st = RQC_PKTRANGE_DUP \<longleftrightarrow> unat pn \<in> rr_set rr"
    "st \<noteq> RQC_PKTRANGE_OK \<Longrightarrow> rr' = rr" "ok \<Longrightarrow> st \<noteq> RQC_PKTRANGE_ERR" by auto
qed

lemma rqc_recv_record_add_set:
  assumes "rr_inv rr" "unat pn < 2 ^ 62" "rqc_recv_record_add True rr pn = Inr (st, rr')"
  shows "rr_set rr' \<subseteq> insert (unat pn) (rr_set rr)"
    and "node_count rr < 64 \<Longrightarrow> rr_set rr' = insert (unat pn) (rr_set rr)"
    and "x \<in> insert (unat pn) (rr_set rr) - rr_set rr' \<Longrightarrow> y \<in> rr_set rr' \<Longrightarrow> x < y"
proof -
  have okr: "ranges_ok (list_head rr)" using assms by (simp add: rr_inv_def)
  have "rr_set rr' = insert (unat pn) (rr_set rr) \<or> \<not> node_count rr < 64 \<and>
      rr_set rr' \<subseteq> insert (unat pn) (rr_set rr) \<and>
      (\<forall>x \<in> insert (unat pn) (rr_set rr) - rr_set rr'. \<forall>y \<in> rr_set rr'. x < y)"
    using assms(1,2)
  proof (cases rule: rqc_recv_record_add_cases [where ok = True])
    case (alone b a)
    then have rr': "rr' = rr_insert rr pn b a" using assms(3) by simp
    note rr' = rr' [unfolded rr_insert_eq [OF assms(1) alone(1)]]
    show ?thesis
    proof (cases "node_count rr < 64")
      case True
      then show ?thesis using rr' alone(1) by (auto simp: rr_set_def)
    next
      case False
      have *: "ranges_ok (b @ \<lparr>low = pn, high = pn\<rparr> # a)"
        using okr alone(1-3) assms(2) ranges_alone(1) by metis
      show ?thesis
      proof (cases a rule: rev_cases)
        case Nil
        then show ?thesis
          using * False rr' alone(1) ranges_last [of b "\<lparr>low = pn, high = pn\<rparr>"] by (auto simp: rr_set_def)
      next
        case (snoc a' z)
        then show ?thesis
          using * False rr' alone(1) ranges_last [of "b @ \<lparr>low = pn, high = pn\<rparr> # a'" z] by (auto simp: rr_set_def)
      qed
    qed
  qed (use assms okr ranges_steps(2,4,6) in \<open>auto simp: rr_set_def\<close>)
  then show "rr_set rr' \<subseteq> insert (unat pn) (rr_set rr)"
    "node_count rr < 64 \<Longrightarrow> rr_set rr' = insert (unat pn) (rr_set rr)"
    "x \<in> insert (unat pn) (rr_set rr) - rr_set rr' \<Longrightarrow> y \<in> rr_set rr' \<Longrightarrow> x < y" by blast+
qed


lemma rr_del_loop_spec:
  assumes "ranges_ok rs" "rr_del_loop d rs c = (rs', c')"
  shows "ranges_ok rs' \<and> ranges_set rs' = {x \<in> ranges_set rs. unat d \<le> x} \<and>
    c' - int (length rs') = c - int (length rs) \<and> length rs' \<le> length rs \<and>
    (\<forall>r' \<in> set rs'. \<exists>r \<in> set rs. hi r' = hi r)"
  using assms
proof (induction rs arbitrary: rs' c c')
  case (Cons r rs)
  obtain qs k where q: "rr_del_loop d rs (if low r < d \<and> high r < d then c - 1 else c) = (qs, k)" by force
  have ok: "ranges_ok rs" and r: "lo r \<le> hi r" "hi r < 2 ^ 62" "\<forall>y \<in> set rs. hi y + 1 < lo r"
    using Cons.prems by (auto simp: ranges_ok_Cons)
  note IH = Cons.IH [OF ok q]
  have far: "\<forall>y \<in> set qs. hi y + 1 < lo r" using IH r(3) by fastforce
  consider "high r < d" | "low r < d" "\<not> high r < d" | "\<not> low r < d"
    by blast
  then show ?case
  proof cases
    case 1
    then have "low r < d" using r(1) by (simp add: word_less_nat_alt)
    with 1 Cons.prems q IH show ?thesis by (auto simp: word_less_nat_alt)
  next
    case 2
    with Cons.prems q have "rs' = r\<lparr>low := d\<rparr> # qs" "c' = k" by auto
    with 2 IH r far show ?thesis by (fastforce simp: ranges_ok_Cons word_less_nat_alt not_less)
  next
    case 3
    with Cons.prems q have "rs' = r # qs" "c' = k" by auto
    with 3 IH r far show ?thesis by (auto simp: ranges_ok_Cons word_less_nat_alt not_less)
  qed
qed simp

lemma rqc_recv_record_del_spec:
  assumes "rr_inv rr"
  shows "rr_inv (rqc_recv_record_del rr d)"
    and "rr_set (rqc_recv_record_del rr d) = {x \<in> rr_set rr. rr_del_from rr \<le> d \<longrightarrow> unat d \<le> x}"
    and "rr_del_from (rqc_recv_record_del rr d) = max (rr_del_from rr) d"
proof -
  obtain rs c where l: "rr_del_loop d (list_head rr) (node_count rr) = (rs, c)" by force
  have "ranges_ok (list_head rr)" using assms by (simp add: rr_inv_def)
  note s = rr_del_loop_spec [OF this l]
  have del: "rqc_recv_record_del rr d = (if d < rr_del_from rr then rr
      else rr\<lparr>rr_del_from := d, list_head := rs, node_count := c\<rparr>)"
    by (simp add: rqc_recv_record_del_def l)
  show "rr_inv (rqc_recv_record_del rr d)"
    "rr_set (rqc_recv_record_del rr d) = {x \<in> rr_set rr. rr_del_from rr \<le> d \<longrightarrow> unat d \<le> x}"
    "rr_del_from (rqc_recv_record_del rr d) = max (rr_del_from rr) d"
    using assms s by (auto simp: del rr_inv_def rr_set_def max_def not_less)
qed

lemma rqc_recv_record_largest_spec:
  assumes "rr_inv rr"
  shows "rr_set rr = {} \<Longrightarrow> rqc_recv_record_largest rr = 0"
    and "rr_set rr \<noteq> {} \<Longrightarrow>
      unat (rqc_recv_record_largest rr) \<in> rr_set rr \<and> (\<forall>x \<in> rr_set rr. x \<le> unat (rqc_recv_record_largest rr))"
  using assms
  by (cases "list_head rr";
      fastforce simp: rqc_recv_record_largest_def rr_set_def rr_inv_def ranges_ok_Cons ranges_set_def)+


subsection \<open>Sent acknowledgements\<close>

text \<open>The record holds at most eight entries, the newest first.\<close>

definition as_entries :: "rqc_ack_sent_record \<Rightarrow> rqc_ack_sent_entry list" where
  "as_entries record = ra_entries (ack_sent record)"

definition as_inv :: "rqc_ack_sent_record \<Rightarrow> bool" where
  "as_inv record \<longleftrightarrow> ra_live (ack_sent record) \<and> ra_cap (ack_sent record) = 8 \<and>
     sorted_wrt (\<lambda>a b. as_pkt_num b < as_pkt_num a) (as_entries record)"

text \<open>The ranges of an ACK frame as the parser leaves them: \<open>n_ranges\<close> of them, highest first.\<close>

definition ack_ranges :: "rqc_ack_info \<Rightarrow> rqc_pktno_range list" where
  "ack_ranges ai = take (unat (n_ranges ai)) (ranges ai)"

definition ack_info_ok :: "rqc_ack_info \<Rightarrow> bool" where
  "ack_info_ok ai \<longleftrightarrow> 0 < n_ranges ai \<and> unat (n_ranges ai) \<le> length (ranges ai) \<and> ranges_ok (ack_ranges ai)"

lemma rqc_ack_sent_record_init_spec:
  "\<exists>record. rqc_ack_sent_record_init True = Some record \<and> as_inv record \<and> as_entries record = []"
proof -
  have "rqc_pow2_upper 8 = 8"
    by (simp add: rqc_pow2_upper_def pow2_loop.simps)
  then obtain ra where ra: "rqc_rarray_create True 8 16 = Some (ra :: rqc_ack_sent_entry rqc_rarray)"
    "ra_inv ra" "ra_items ra = []" "ra_cap ra = 8"
    using rqc_rarray_create_spec [of 16 8] by (auto simp: rqc_rarray_create_def)
  then show ?thesis
    by (simp add: rqc_ack_sent_record_init_def as_inv_def as_entries_def ra_live_def ra_entries_def)
qed

lemma rqc_ack_sent_record_add_spec:
  assumes inv: "as_inv record" and new: "\<forall>e \<in> set (as_entries record). as_pkt_num e < pn"
    and due: "last_add_time record + srtt \<le> now"
  shows "\<exists>record'. rqc_ack_sent_record_add record pn la srtt now = (0, record') \<and> as_inv record' \<and>
    as_entries record' = take 8 (\<lparr>as_pkt_num = pn, largest_ack = la\<rparr> # as_entries record) \<and>
    last_add_time record' = now"
proof -
  let ?e = "\<lparr>as_pkt_num = pn, largest_ack = la\<rparr>" and ?ra = "ack_sent record"
  have live: "ra_live ?ra" and cap: "ra_cap ?ra = 8" using inv by (simp_all add: as_inv_def)
  define d where "d = (if rqc_rarray_full ?ra then snd (rqc_rarray_pop_back ?ra) else ?ra)"
  obtain ra' where ra': "ra_put_front d ?e = Some ra'" "ra_live ra'"
    "ra_entries ra' = take 8 (?e # ra_entries ?ra)" "unat (ra_cap ra') = 8"
    using ring.put_latest [OF live, of ?e] cap unfolding d_def by auto
  then have "rqc_ack_sent_record_add record pn la srtt now = (0, record\<lparr>ack_sent := ra', last_add_time := now\<rparr>)"
    using due unfolding rqc_ack_sent_record_add_def d_def [symmetric]
    by (auto simp: ra_put_front_def not_less split: prod.splits option.splits)
  moreover have "sorted_wrt (\<lambda>a b. as_pkt_num b < as_pkt_num a) (take 8 (?e # ra_entries ?ra))"
    using inv new by (intro sorted_wrt_take) (simp add: as_inv_def as_entries_def)
  moreover have "ra_cap ra' = 8" using ra'(4) by (simp add: word_unat_eq_iff)
  ultimately show ?thesis using ra' by (simp add: as_inv_def as_entries_def)
qed


text \<open>What the inner loop returns on a well-formed ACK: the first range that is not above \<open>pn\<close>.\<close>

lemma n_ranges_pred: "0 < n_ranges ai \<Longrightarrow> unat (n_ranges ai - 1) = unat (n_ranges ai) - 1"
  by (simp add: unat_minus_one word_neq_0_conv)

lemma ack_skip_ranges_spec:
  assumes ok: "ack_info_ok ai" and r: "r < unat (n_ranges ai)"
  shows "case ack_skip_ranges ai pn r of
      Inl f \<Rightarrow> False
    | Inr None \<Rightarrow> \<forall>j. r \<le> j \<and> j < unat (n_ranges ai) \<longrightarrow> pn < low (ranges ai ! j)
    | Inr (Some r') \<Rightarrow> r \<le> r' \<and> r' < unat (n_ranges ai) \<and> \<not> pn < low (ranges ai ! r') \<and>
        (\<forall>j. r \<le> j \<and> j < r' \<longrightarrow> pn < low (ranges ai ! j))"
  using ok r
proof (induction ai pn r rule: ack_skip_ranges.induct)
  case (1 ai pn r)
  have n: "unat (n_ranges ai - 1) = unat (n_ranges ai) - 1" "r < length (ranges ai)"
    using "1.prems" n_ranges_pred by (auto simp: ack_info_ok_def)
  show ?case
  proof (cases "pn < low (ranges ai ! r) \<and> r \<noteq> unat (n_ranges ai - 1)")
    case True
    with n "1.prems" have "r + 1 < unat (n_ranges ai)" by linarith
    with "1.IH" True n "1.prems"(1)
    have "case ack_skip_ranges ai pn (r + 1) of
      Inl f \<Rightarrow> False
    | Inr None \<Rightarrow> \<forall>j. r + 1 \<le> j \<and> j < unat (n_ranges ai) \<longrightarrow> pn < low (ranges ai ! j)
    | Inr (Some r') \<Rightarrow> r + 1 \<le> r' \<and> r' < unat (n_ranges ai) \<and> \<not> pn < low (ranges ai ! r') \<and>
        (\<forall>j. r + 1 \<le> j \<and> j < r' \<longrightarrow> pn < low (ranges ai ! j))"
      by auto
    moreover have "ack_skip_ranges ai pn r = ack_skip_ranges ai pn (r + 1)"
      using True n by (subst ack_skip_ranges.simps) simp
    ultimately show ?thesis using True
      by (auto split: sum.splits option.splits simp: Suc_le_eq) (metis le_neq_implies_less)+
  next
    case False
    have "j = r" if "r = unat (n_ranges ai - 1)" "r \<le> j" "j < unat (n_ranges ai)" for j
      using that n by linarith
    with False n "1.prems" show ?thesis by (subst ack_skip_ranges.simps) auto
  qed
qed

lemma ack_ranges_nth: "ack_info_ok ai \<Longrightarrow> j < unat (n_ranges ai) \<Longrightarrow> ack_ranges ai ! j = ranges ai ! j"
  by (simp add: ack_ranges_def)

lemma ack_ranges_mem:
  "ack_info_ok ai \<Longrightarrow> x \<in> ranges_set (ack_ranges ai) \<longleftrightarrow>
     (\<exists>j < unat (n_ranges ai). lo (ranges ai ! j) \<le> x \<and> x \<le> hi (ranges ai ! j))"
  by (auto simp: ranges_set_def ack_ranges_def ack_info_ok_def simp flip: nth_image)

lemma ack_ranges_sorted:
  assumes "ack_info_ok ai" "i < j" "j < unat (n_ranges ai)"
  shows "hi (ranges ai ! j) < lo (ranges ai ! i)"
proof -
  have "hi (ack_ranges ai ! j) + 1 < lo (ack_ranges ai ! i)"
    using assms by (auto simp: ack_info_ok_def ranges_ok_def ack_ranges_def dest: sorted_wrt_nth_less)
  then show ?thesis using assms by (simp add: ack_ranges_nth)
qed

text \<open>The outer loop finds the first entry that the ACK covers, in one pass over the ranges.\<close>

definition ack_covers :: "rqc_ack_info \<Rightarrow> rqc_ack_sent_entry \<Rightarrow> bool" where
  "ack_covers ai e \<longleftrightarrow> (\<exists>r \<in> set (ack_ranges ai). low r \<le> as_pkt_num e \<and> as_pkt_num e \<le> high r)"

lemma ack_covers_iff:
  "ack_info_ok ai \<Longrightarrow> ack_covers ai e \<longleftrightarrow>
     (\<exists>j < unat (n_ranges ai). lo (ranges ai ! j) \<le> unat (as_pkt_num e) \<and> unat (as_pkt_num e) \<le> hi (ranges ai ! j))"
  using ack_ranges_mem [of ai "unat (as_pkt_num e)"] by (auto simp: ack_covers_def ranges_set_def word_le_nat_alt)


lemma not_covered_above:
  "ack_info_ok ai \<Longrightarrow> \<forall>j < unat (n_ranges ai). as_pkt_num e < low (ranges ai ! j) \<Longrightarrow> \<not> ack_covers ai e"
  by (auto simp: ack_covers_iff word_less_nat_alt not_le)

lemma covered_iff_first:
  assumes ok: "ack_info_ok ai" and r: "r < unat (n_ranges ai)" "\<not> as_pkt_num e < low (ranges ai ! r)"
    and before: "\<forall>j < r. as_pkt_num e < low (ranges ai ! j)"
  shows "ack_covers ai e \<longleftrightarrow> as_pkt_num e \<le> high (ranges ai ! r) \<and> as_pkt_num e \<ge> low (ranges ai ! r)"
proof
  assume "ack_covers ai e"
  then obtain j where j: "j < unat (n_ranges ai)" "lo (ranges ai ! j) \<le> unat (as_pkt_num e)"
    "unat (as_pkt_num e) \<le> hi (ranges ai ! j)" by (auto simp: ack_covers_iff [OF ok])
  have "\<not> j < r" using before j by (auto simp: word_less_nat_alt)
  moreover have "\<not> r < j" using ack_ranges_sorted [OF ok _ j(1), of r] r(2) j(3) by (auto simp: word_less_nat_alt)
  ultimately have "j = r" by linarith
  with j show "as_pkt_num e \<le> high (ranges ai ! r) \<and> as_pkt_num e \<ge> low (ranges ai ! r)"
    by (simp add: word_le_nat_alt)
qed (use r in \<open>auto simp: ack_covers_iff [OF ok] word_le_nat_alt\<close>)

lemma find_none: "\<forall>e \<in> set es. \<not> P e \<Longrightarrow> dropWhile (\<lambda>e. \<not> P e) es = [] \<and> takeWhile (\<lambda>e. \<not> P e) es = es"
  by (induction es) auto

lemma find_at:
  "\<forall>e \<in> set (take i es). \<not> P e \<Longrightarrow> i < length es \<Longrightarrow> P (es ! i) \<Longrightarrow>
   dropWhile (\<lambda>e. \<not> P e) es = drop i es \<and> takeWhile (\<lambda>e. \<not> P e) es = take i es"
  by (induction es arbitrary: i) (auto simp: take_Cons drop_Cons split: nat.splits)

text \<open>
  The reference: the value of the newest covered entry, and the entries newer than it.
\<close>

definition first_covered :: "rqc_ack_info \<Rightarrow> rqc_ack_sent_entry list \<Rightarrow> u64" where
  "first_covered ai es = (case dropWhile (\<lambda>e. \<not> ack_covers ai e) es of [] \<Rightarrow> 0 | e # _ \<Rightarrow> largest_ack e)"

definition newer_entries :: "rqc_ack_info \<Rightarrow> rqc_ack_sent_entry list \<Rightarrow> rqc_ack_sent_entry list" where
  "newer_entries ai es = takeWhile (\<lambda>e. \<not> ack_covers ai e) es"

lemmas reference_defs = first_covered_def newer_entries_def

lemma sorted_later:
  "sorted_wrt (\<lambda>a b. as_pkt_num b < as_pkt_num a) es \<Longrightarrow> i < length es \<Longrightarrow> x \<in> set (drop (Suc i) es) \<Longrightarrow>
   as_pkt_num x < as_pkt_num (es ! i)"
  by (auto simp: in_set_conv_nth sorted_wrt_iff_nth_less)

lemma on_ack_loop_spec:
  assumes ok: "ack_info_ok ai" and live: "ra_live ra"
    and sorted: "sorted_wrt (\<lambda>a b. as_pkt_num b < as_pkt_num a) (ra_entries ra)"
    and len: "i + k = length (ra_entries ra)" and r: "r < unat (n_ranges ai)"
    and skipped: "\<forall>j < r. \<forall>e \<in> set (drop i (ra_entries ra)). as_pkt_num e < low (ranges ai ! j)"
    and none: "\<forall>e \<in> set (take i (ra_entries ra)). \<not> ack_covers ai e"
  shows "\<exists>ra'. on_ack_loop ra ai i r k = Inr (first_covered ai (ra_entries ra), ra') \<and>
    ra_live ra' \<and> ra_cap ra' = ra_cap ra \<and> ra_entries ra' = newer_entries ai (ra_entries ra)"
  using len r skipped none
proof (induction k arbitrary: i r)
  case 0
  then show ?case using live by (simp add: reference_defs find_none)
next
  case (Suc k)
  let ?es = "ra_entries ra"
  have i: "i < length ?es" using Suc.prems(1) by simp
  define e where "e = ?es ! i"
  have drop_i: "set (drop i ?es) = insert e (set (drop (Suc i) ?es))"
    using i by (simp add: e_def flip: Cons_nth_drop_Suc)
  note later = sorted_later [OF sorted i, folded e_def]
  obtain slot where slot: "rqc_rarray_get ra (of_nat i) = Some slot" "ra_buf ra ! slot = Some e"
    using ring.at_ok [OF live i] by (auto simp: ra_at_def e_def split: option.splits)
  note sk = ack_skip_ranges_spec [OF ok Suc.prems(2), of "as_pkt_num e"]
  then obtain opt where opt: "ack_skip_ranges ai (as_pkt_num e) r = Inr opt"
    by (cases "ack_skip_ranges ai (as_pkt_num e) r") auto
  show ?case
  proof (cases opt)
    case None
    then have above: "\<forall>j < unat (n_ranges ai). as_pkt_num e < low (ranges ai ! j)"
      using sk opt Suc.prems(3) drop_i by (auto simp: not_less [symmetric])
    have "\<not> ack_covers ai x" if "x \<in> set (drop i ?es)" for x
      using that above drop_i later not_covered_above [OF ok, of x] by (auto intro: less_trans)
    then have "\<forall>x \<in> set ?es. \<not> ack_covers ai x"
      using Suc.prems(4) by (metis append_take_drop_id set_append Un_iff)
    then show ?thesis using live slot opt None by (simp add: reference_defs find_none)
  next
    case (Some r')
    then have r': "r \<le> r'" "r' < unat (n_ranges ai)" "\<not> as_pkt_num e < low (ranges ai ! r')"
      "\<forall>j. r \<le> j \<and> j < r' \<longrightarrow> as_pkt_num e < low (ranges ai ! j)"
      using sk opt by auto
    have before: "\<forall>j < r'. as_pkt_num e < low (ranges ai ! j)"
      using r'(4) Suc.prems(3) drop_i by (auto simp: not_less [symmetric])
    note cov = covered_iff_first [OF ok r'(2,3) before]
    show ?thesis
    proof (cases "ack_covers ai e")
      case True
      then show ?thesis
        using slot opt Some cov i find_at [OF Suc.prems(4) i] ring.cut_ok [OF live i]
        by (simp add: reference_defs e_def rqc_rarray_pop_from_def flip: Cons_nth_drop_Suc)
    next
      case False
      have "\<forall>j < r'. \<forall>x \<in> set (drop (i + 1) ?es). as_pkt_num x < low (ranges ai ! j)"
        using before later by (auto intro: less_trans)
      moreover have "\<forall>x \<in> set (take (i + 1) ?es). \<not> ack_covers ai x"
        using False Suc.prems(4) i by (auto simp: take_Suc_conv_app_nth e_def)
      ultimately show ?thesis
        using Suc.IH [of "i + 1" r'] Suc.prems(1) r'(2) False cov slot opt Some by auto
    qed
  qed
qed


lemma on_ack_spec:
  assumes "as_inv record" "ack_info_ok ai"
  shows "\<exists>record'. rqc_ack_sent_record_on_ack record ai = Inr (first_covered ai (as_entries record), record') \<and>
    as_inv record' \<and> as_entries record' = newer_entries ai (as_entries record) \<and>
    last_add_time record' = last_add_time record"
proof -
  have pos: "0 < unat (n_ranges ai)" using assms(2) by (auto simp: ack_info_ok_def word_less_nat_alt)
  obtain ra' where ra': "on_ack_loop (ack_sent record) ai 0 0 (unat (rqc_rarray_size (ack_sent record)))
      = Inr (first_covered ai (as_entries record), ra')" "ra_live ra'" "ra_cap ra' = ra_cap (ack_sent record)"
      "ra_entries ra' = newer_entries ai (as_entries record)"
    using on_ack_loop_spec [OF assms(2), of "ack_sent record" 0 "unat (ra_count (ack_sent record))" 0] assms(1) pos
    by (auto simp: as_inv_def as_entries_def rqc_rarray_size_def)
  moreover have "sorted_wrt (\<lambda>a b. as_pkt_num b < as_pkt_num a) (newer_entries ai (as_entries record))"
    unfolding newer_entries_def using assms(1)
    by (subst takeWhile_eq_take) (simp add: as_inv_def sorted_wrt_take)
  ultimately show ?thesis using assms(1) by (simp add: rqc_ack_sent_record_on_ack_def as_inv_def as_entries_def)
qed

subsection \<open>The contract of the record\<close>

text \<open>
  What the receive path relies on: adding reports a known number exactly, and otherwise
  records it. \<open>room_for\<close> says that the record has room for every gap it sees on the way through
  a sequence of numbers.
\<close>

fun room_for ::
  "('s \<Rightarrow> bool) \<Rightarrow> ('s \<Rightarrow> u64 \<Rightarrow> (rqc_pkt_range_status \<times> 's) res) \<Rightarrow> 's \<Rightarrow> u64 list \<Rightarrow> bool" where
  "room_for room add s [] \<longleftrightarrow> True"
| "room_for room add s (pn # pns) \<longleftrightarrow>
     room s \<and> (case add s pn of Inl f \<Rightarrow> False | Inr (st, s') \<Rightarrow> room_for room add s' pns)"

locale pktno_set =
  fixes inv :: "'s \<Rightarrow> bool" and nums :: "'s \<Rightarrow> nat set" and room :: "'s \<Rightarrow> bool"
    and add :: "'s \<Rightarrow> u64 \<Rightarrow> (rqc_pkt_range_status \<times> 's) res"
  assumes add_ok: "inv s \<Longrightarrow> unat pn < 2 ^ 62 \<Longrightarrow> \<exists>st s'. add s pn = Inr (st, s') \<and> inv s'"
    and add_dup: "inv s \<Longrightarrow> unat pn < 2 ^ 62 \<Longrightarrow> add s pn = Inr (st, s') \<Longrightarrow>
      st = RQC_PKTRANGE_DUP \<longleftrightarrow> unat pn \<in> nums s"
    and add_no_err: "inv s \<Longrightarrow> unat pn < 2 ^ 62 \<Longrightarrow> add s pn = Inr (st, s') \<Longrightarrow> st \<noteq> RQC_PKTRANGE_ERR"
    and add_nums: "inv s \<Longrightarrow> unat pn < 2 ^ 62 \<Longrightarrow> add s pn = Inr (st, s') \<Longrightarrow> room s \<Longrightarrow>
      nums s' = insert (unat pn) (nums s)"
    and add_forget: "inv s \<Longrightarrow> unat pn < 2 ^ 62 \<Longrightarrow> add s pn = Inr (st, s') \<Longrightarrow>
      nums s' \<subseteq> insert (unat pn) (nums s) \<and>
      (\<forall>x \<in> insert (unat pn) (nums s) - nums s'. \<forall>y \<in> nums s'. x < y)"
begin

lemma add_new:
  assumes "inv s" "unat pn < 2 ^ 62" "room s"
  obtains st s' where "add s pn = Inr (st, s')" "inv s'" "nums s' = insert (unat pn) (nums s)"
    "st = (if unat pn \<in> nums s then RQC_PKTRANGE_DUP else RQC_PKTRANGE_OK)"
proof -
  from add_ok [OF assms(1,2)] obtain st s' where a: "add s pn = Inr (st, s')" "inv s'" by blast
  have "st = (if unat pn \<in> nums s then RQC_PKTRANGE_DUP else RQC_PKTRANGE_OK)"
    using add_dup [OF assms(1,2) a(1)] add_no_err [OF assms(1,2) a(1)] by (cases st) auto
  then show thesis using that a add_nums [OF assms(1,2) a(1) assms(3)] by blast
qed

lemma forgotten_below:
  assumes "inv s" "unat pn < 2 ^ 62" "add s pn = Inr (st, s')" "x \<in> insert (unat pn) (nums s)" "x \<notin> nums s'"
  shows "\<forall>y \<in> nums s'. x < y"
  using add_forget [OF assms(1-3)] assms(4,5) by blast

end

interpretation rr: pktno_set rr_inv rr_set "\<lambda>rr. node_count rr < RQC_MAX_ACK_RANGE_CNT" "rqc_recv_record_add True"
proof unfold_locales
  fix s pn st s'
  assume *: "rr_inv s" "unat (pn :: u64) < 2 ^ 62"
  show "\<exists>st s'. rqc_recv_record_add True s pn = Inr (st, s') \<and> rr_inv s'"
    using rqc_recv_record_add_inv [OF *, of True] by blast
  assume a: "rqc_recv_record_add True s pn = Inr (st, s')"
  show "st = RQC_PKTRANGE_DUP \<longleftrightarrow> unat pn \<in> rr_set s" by (rule rqc_recv_record_add_status(1) [OF * a])
  show "st \<noteq> RQC_PKTRANGE_ERR" using rqc_recv_record_add_status(3) [OF * a] by simp
  show "node_count s < RQC_MAX_ACK_RANGE_CNT \<Longrightarrow> rr_set s' = insert (unat pn) (rr_set s)"
    by (rule rqc_recv_record_add_set(2) [OF * a])
  show "rr_set s' \<subseteq> insert (unat pn) (rr_set s) \<and>
      (\<forall>x \<in> insert (unat pn) (rr_set s) - rr_set s'. \<forall>y \<in> rr_set s'. x < y)"
    using rqc_recv_record_add_set(1,3) [OF * a] by blast
qed


subsection \<open>Properties\<close>

text \<open>
  C2: \<open>rqc_recv_record_add\<close> on a well-formed record and a packet number below \<open>2 ^ 62\<close> never
  touches the list head, keeps the record well formed, reports a duplicate exactly when the
  number is recorded, changes nothing unless it returns \<open>RQC_PKTRANGE_OK\<close>, inserts the number
  when there is room for another range, and otherwise forgets only numbers below every
  number it keeps.
\<close>

theorem rqc_recv_record_add_correct:
  assumes "rr_inv rr" and "unat pn < 2 ^ 62"
  shows "\<exists>st rr'. rqc_recv_record_add ok rr pn = Inr (st, rr') \<and> rr_inv rr' \<and>
    (st = RQC_PKTRANGE_DUP \<longleftrightarrow> unat pn \<in> rr_set rr) \<and>
    (st \<noteq> RQC_PKTRANGE_OK \<longrightarrow> rr' = rr) \<and>
    (ok \<longrightarrow> st \<noteq> RQC_PKTRANGE_ERR \<and> rr_set rr' \<subseteq> insert (unat pn) (rr_set rr) \<and>
      (node_count rr < RQC_MAX_ACK_RANGE_CNT \<longrightarrow> rr_set rr' = insert (unat pn) (rr_set rr)) \<and>
      (\<forall>x \<in> insert (unat pn) (rr_set rr) - rr_set rr'. \<forall>y \<in> rr_set rr'. x < y))"
proof -
  obtain st rr' where a: "rqc_recv_record_add ok rr pn = Inr (st, rr')" "rr_inv rr'"
    using rqc_recv_record_add_inv [OF assms, of ok] by blast
  note s = rqc_recv_record_add_status [OF assms a(1)]
  show ?thesis
  proof (cases ok)
    case True
    then have t: "rqc_recv_record_add True rr pn = Inr (st, rr')" using a by simp
    have "\<forall>x \<in> insert (unat pn) (rr_set rr) - rr_set rr'. \<forall>y \<in> rr_set rr'. x < y"
      using rr.forgotten_below [OF assms t] by simp
    then show ?thesis
      by (intro exI [of _ st] exI [of _ rr'] conjI impI a s True
          rqc_recv_record_add_set(1) [OF assms t] rqc_recv_record_add_set(2) [OF assms t])
  next
    case False
    then show ?thesis by (intro exI [of _ st] exI [of _ rr'] conjI impI a s) simp_all
  qed
qed

theorem rqc_recv_record_add_correct_witness:
  "\<exists>rr'. rqc_recv_record_add True \<lparr>list_head = [\<lparr>low = 7, high = 9\<rparr>, \<lparr>low = 2, high = 5\<rparr>], rr_del_from = 0, node_count = 2\<rparr> 6
     = Inr (RQC_PKTRANGE_OK, rr') \<and> rr_inv rr' \<and> 6 \<in> rr_set rr' \<and> list_head rr' = [\<lparr>low = 2, high = 9\<rparr>]"
  using rqc_recv_record_add_correct [of "\<lparr>list_head = [\<lparr>low = 7, high = 9\<rparr>, \<lparr>low = 2, high = 5\<rparr>], rr_del_from = 0, node_count = 2\<rparr>" 6 True]
  by (simp add: rr_inv_def ranges_ok_def rqc_recv_record_add_def rr_try_merge_def rqc_pktno_range_can_merge_def
      rr_join_def rr_set_def)

text \<open>
  \<open>rqc_recv_record_del\<close> keeps the record well formed, removes exactly the numbers below
  its bound, and its bound never decreases; \<open>rqc_recv_record_largest\<close> is the maximum of what
  is left.
\<close>

theorem rqc_recv_record_del_correct:
  assumes "rr_inv rr"
  shows "rr_inv (rqc_recv_record_del rr d) \<and>
    rr_set (rqc_recv_record_del rr d) = {x \<in> rr_set rr. rr_del_from rr \<le> d \<longrightarrow> unat d \<le> x} \<and>
    rr_del_from (rqc_recv_record_del rr d) = max (rr_del_from rr) d \<and>
    (rr_set (rqc_recv_record_del rr d) \<noteq> {} \<longrightarrow>
       unat (rqc_recv_record_largest (rqc_recv_record_del rr d)) = Max (rr_set (rqc_recv_record_del rr d)))"
proof -
  note d = rqc_recv_record_del_spec [OF assms, of d]
  have "finite (rr_set (rqc_recv_record_del rr d))" by (simp add: rr_set_def ranges_set_def)
  with d rqc_recv_record_largest_spec(2) [OF d(1)] show ?thesis
    by (metis (no_types, lifting) Max_eqI)
qed

theorem rqc_recv_record_del_correct_witness:
  "rr_set (rqc_recv_record_del \<lparr>list_head = [\<lparr>low = 7, high = 9\<rparr>, \<lparr>low = 2, high = 5\<rparr>], rr_del_from = 0, node_count = 2\<rparr> 8) = {8, 9}"
proof -
  let ?rr = "\<lparr>list_head = [\<lparr>low = 7, high = 9\<rparr>, \<lparr>low = 2, high = 5\<rparr>], rr_del_from = 0, node_count = 2\<rparr>"
  have "rr_inv ?rr" by (simp add: rr_inv_def ranges_ok_def)
  from rqc_recv_record_del_correct [OF this, of 8, THEN conjunct2, THEN conjunct1]
  have "rr_set (rqc_recv_record_del ?rr 8) = {x \<in> {7..9} \<union> {2..5}. 8 \<le> x}" by (simp add: rr_set_def)
  also have "\<dots> = {8, 9}" by auto
  finally show ?thesis .
qed

text \<open>
  C9: on a well-formed ACK, the one-pass scan of \<open>rqc_ack_sent_record_on_ack\<close> finds the newest
  recorded packet that the ACK covers, returns the largest number that packet acknowledged
  (0 if there is none), and drops that entry and the older ones.
\<close>

theorem rqc_ack_sent_record_on_ack_correct:
  assumes "as_inv record" and "ack_info_ok ai"
  shows "\<exists>record'. rqc_ack_sent_record_on_ack record ai = Inr (first_covered ai (as_entries record), record') \<and>
    as_inv record' \<and> as_entries record' = newer_entries ai (as_entries record)"
  using on_ack_spec [OF assms] by blast

text \<open>
  \<open>rqc_ack_sent_record_add\<close> records at most once per round trip, always succeeds, and
  keeps the eight newest packets.
\<close>

theorem rqc_ack_sent_record_add_correct:
  assumes "as_inv record" and "\<forall>e \<in> set (as_entries record). as_pkt_num e < pn"
  shows "\<exists>record'. rqc_ack_sent_record_add record pn la srtt now = (0, record') \<and> as_inv record' \<and>
    as_entries record' =
      (if last_add_time record + srtt > now then as_entries record
       else take 8 (\<lparr>as_pkt_num = pn, largest_ack = la\<rparr> # as_entries record))"
  using rqc_ack_sent_record_add_spec [OF assms, of srtt now la] assms
  by (cases "last_add_time record + srtt > now") (auto simp: rqc_ack_sent_record_add_def not_less)

definition as_example :: rqc_ack_sent_record where
  "as_example = \<lparr>ack_sent = \<lparr>ra_buf = [None, None, None, None, None, None, Some \<lparr>as_pkt_num = 20, largest_ack = 14\<rparr>, Some \<lparr>as_pkt_num = 10, largest_ack = 4\<rparr>],
      ra_esize = 16, ra_cap = 8, ra_count = 2, ra_offset = 6, ra_mask = 7\<rparr>, last_add_time = 0\<rparr>"

lemma as_example_ok: "as_inv as_example"
  "as_entries as_example = [\<lparr>as_pkt_num = 20, largest_ack = 14\<rparr>, \<lparr>as_pkt_num = 10, largest_ack = 4\<rparr>]"
proof -
  have 2: "[0..<2] = [0, 1 :: nat]" by (simp add: upt_rec)
  show "as_entries as_example = [\<lparr>as_pkt_num = 20, largest_ack = 14\<rparr>, \<lparr>as_pkt_num = 10, largest_ack = 4\<rparr>]"
    by (simp add: as_example_def as_entries_def ra_entries_def ra_items_def 2)
  then show "as_inv as_example"
    by (auto simp: as_inv_def ra_live_def ra_inv_def as_example_def ra_items_def 2 intro!: exI [of _ 3])
qed

theorem rqc_ack_sent_record_on_ack_correct_witness:
  "\<exists>record'. rqc_ack_sent_record_on_ack as_example
     \<lparr>ai_path_id = 0, n_ranges = 2, ranges = [\<lparr>low = 15, high = 18\<rparr>, \<lparr>low = 8, high = 12\<rparr>], ack_delay = 0, largest_acked = 18\<rparr>
     = Inr (4, record') \<and> as_entries record' = [\<lparr>as_pkt_num = 20, largest_ack = 14\<rparr>]"
  using rqc_ack_sent_record_on_ack_correct [OF as_example_ok(1), of
     "\<lparr>ai_path_id = 0, n_ranges = 2, ranges = [\<lparr>low = 15, high = 18\<rparr>, \<lparr>low = 8, high = 12\<rparr>], ack_delay = 0, largest_acked = 18\<rparr>"]
  by (auto simp: ack_info_ok_def ranges_ok_def ack_ranges_def as_example_ok(2) reference_defs ack_covers_def)

theorem rqc_ack_sent_record_add_correct_witness:
  "\<exists>record'. rqc_ack_sent_record_add as_example 25 17 30 100 = (0, record') \<and>
     map as_pkt_num (as_entries record') = [25, 20, 10]"
  using rqc_ack_sent_record_add_correct [OF as_example_ok(1), of 25 17 30 100]
  by (auto simp: as_example_ok(2)) (auto simp: as_example_def)

end
