(* ===== verification/Rqc_Frame_Ack.thy ===== *)
theory Rqc_Frame_Ack
  imports Rqc_Frame_Ctrl Rqc_Recv_Record
begin

text \<open>
  The ACK frame of \<open>src/transport/rqc_frame_parser.c\<close>: \<open>rqc_gen_ack_frame\<close> encodes the range
  list of a \<open>rqc_recv_record_t\<close>, \<open>rqc_parse_ack_frame\<close> decodes it into an \<open>rqc_ack_info_t\<close>.

  \<open>first_ack_range\<close>, \<open>gap\<close> and \<open>acks\<close> are \<open>unsigned\<close> in the generator: the 64-bit differences
  are truncated to 32 bits (\<open>ucast\<close>). The parser subtracts what it reads from 64-bit numbers
  without a check. The lemmas show that the receiver of a frame recovers exactly the ranges
  of the record, provided they are less than \<open>2 ^ 32\<close> wide and apart.
\<close>

subsection \<open>The generator\<close>

text \<open>
  The loop over the nodes after the first: \<open>e\<close> is \<open>end\<close>; the result is an error with what was
  written so far, or \<open>range_count\<close> and the cursor.
\<close>

fun gen_ack_ranges ::
  "nat \<Rightarrow> u64 \<Rightarrow> rqc_pktno_range list \<Rightarrow> nat \<Rightarrow> wcur \<Rightarrow> (rqc_fail \<times> wcur) + (nat \<times> wcur)" where
  "gen_ack_ranges e prev_low [] range_count c = Inr (range_count, c)"
| "gen_ack_ranges e prev_low (r # rs) range_count c =
     (let gap = ucast (prev_low - high r - 2) :: u32;
          acks = ucast (high r - low r) :: u32;
          gap_bits = rqc_vint_get_2bit (uint gap);
          acks_bits = rqc_vint_get_2bit (uint acks);
          need = rqc_vint_len gap_bits + rqc_vint_len acks_bits
      in if snd c + need > e then Inl (Ret (- RQC_ENOBUF), c)
         else case do { c \<leftarrow> wr_vint (ucast gap) gap_bits c; wr_vint (ucast acks) acks_bits c } of
                None \<Rightarrow> Inl (Fault, c)
              | Some c \<Rightarrow>
                  if range_count + 1 \<ge> nat RQC_MAX_ACK_RANGE_CNT - 1 then Inr (range_count + 1, c)
                  else gen_ack_ranges e (low r) rs (range_count + 1) c)"

declare gen_ack_ranges.simps(2) [simp del]

text \<open>The result is the length, \<open>*has_gap\<close> and \<open>*largest_ack\<close>.\<close>

definition rqc_gen_ack_frame ::
  "rqc_packet_out \<Rightarrow> u64 \<Rightarrow> nat \<Rightarrow> rqc_recv_record \<Rightarrow> u64 \<Rightarrow> (nat \<times> bool \<times> u64) gen" where
  "rqc_gen_ack_frame po now ack_delay_exponent recv_record largest_pkt_recv_time =
     (case list_head recv_record of
        [] \<Rightarrow> (Err (- RQC_ENULLPTR), po)
      | first_range # rest \<Rightarrow>
          (let begin = po_used_size po;
               end = begin + rqc_get_po_remained_size_with_ack_spc po;
               ack_delay = drop_bit ack_delay_exponent (now - largest_pkt_recv_time);
               largest_recv = high first_range;
               first_ack_range = ucast (largest_recv - low first_range) :: u32;
               largest_recv_bits = rqc_vint_get_2bit (uint largest_recv);
               ack_delay_bits = rqc_vint_get_2bit (uint ack_delay);
               first_ack_range_bits = rqc_vint_get_2bit (uint first_ack_range);
               need = 1 + rqc_vint_len largest_recv_bits + rqc_vint_len ack_delay_bits + 1 +
                      rqc_vint_len first_ack_range_bits
           in if begin + need > end then (Err (- RQC_ENOBUF), po)
              else case do {
                  c \<leftarrow> wr_u8 0x02 (po_buf po, begin);
                  c \<leftarrow> wr_vint largest_recv largest_recv_bits c;
                  (buf, p_range_count) \<leftarrow> wr_vint ack_delay ack_delay_bits c;
                  c \<leftarrow> wr_vint (ucast first_ack_range) first_ack_range_bits (buf, p_range_count + 1);
                  Some (p_range_count, c) } of
                None \<Rightarrow> (Inl Fault, po)
              | Some (p_range_count, c) \<Rightarrow>
                  (case gen_ack_ranges end (low first_range) rest 0 c of
                     Inl (f, (buf, _)) \<Rightarrow> (Inl f, po\<lparr>po_buf := buf\<rparr>)
                   | Inr (range_count, (buf, q)) \<Rightarrow>
                       (case rqc_vint_write buf p_range_count (of_nat range_count) 0 1 of
                          None \<Rightarrow> (Inl Fault, po)
                        | Some buf' \<Rightarrow>
                            (Inr (q - begin, range_count > 0, largest_recv),
                             po\<lparr>po_buf := buf', po_frame_types := po_frame_types po OR RQC_FRAME_BIT_ACK\<rparr>)))))"

subsection \<open>The parser\<close>

text \<open>
  The loop over \<open>k\<close> more ranges: all are read, at most \<open>RQC_MAX_ACK_RANGE_CNT\<close> are stored.
\<close>

fun parse_ack_ranges ::
  "rqc_packet_in \<Rightarrow> nat \<Rightarrow> nat \<Rightarrow> rqc_pktno_range list \<Rightarrow> nat \<Rightarrow> (nat \<times> rqc_pktno_range list \<times> nat) res" where
  "parse_ack_ranges pi p k rs n =
     (if k = 0 then Inr (p, rs, n)
      else
        res_bind (rd_vint (- RQC_EVINTREAD) pi p) (\<lambda>(gap, p).
        res_bind (rd_vint (- RQC_EVINTREAD) pi p) (\<lambda>(range, p).
          if n < nat RQC_MAX_ACK_RANGE_CNT then
            (let h = low (rs ! (n - 1)) - gap - 2
             in parse_ack_ranges pi p (k - 1) (rs[n := \<lparr>low = h - range, high = h\<rparr>]) (n + 1))
          else parse_ack_ranges pi p (k - 1) rs n)))"

declare parse_ack_ranges.simps [simp del]

definition rqc_parse_ack_frame ::
  "rqc_packet_in \<Rightarrow> nat \<Rightarrow> rqc_ack_info \<Rightarrow> (rqc_packet_in \<times> rqc_ack_info) res" where
  "rqc_parse_ack_frame pi ack_delay_exponent ack_info =
     res_bind (rd_vint (- RQC_EVINTREAD) pi (pi_pos pi)) (\<lambda>(frame_type, p).
     res_bind (rd_vint (- RQC_EVINTREAD) pi p) (\<lambda>(largest_acked, p).
     res_bind (rd_vint (- RQC_EVINTREAD) pi p) (\<lambda>(ack_delay, p).
     res_bind (rd_vint (- RQC_EVINTREAD) pi p) (\<lambda>(ack_range_count, p).
     res_bind (rd_vint (- RQC_EVINTREAD) pi p) (\<lambda>(first_ack_range, p).
     res_bind (parse_ack_ranges pi p (unat ack_range_count)
                 ((ranges ack_info)[0 := \<lparr>low = largest_acked - first_ack_range, high = largest_acked\<rparr>]) 1)
       (\<lambda>(p, rs, n).
     res_bind (if frame_type = 0x03 then
                 res_bind (rd_vint (- RQC_EVINTREAD) pi p) (\<lambda>(_, p).
                 res_bind (rd_vint (- RQC_EVINTREAD) pi p) (\<lambda>(_, p).
                 res_bind (rd_vint (- RQC_EVINTREAD) pi p) (\<lambda>(_, p). Inr p)))
               else Inr p) (\<lambda>p.
       Inr (pi_done pi p RQC_FRAME_BIT_ACK,
            \<lparr>ai_path_id = 0, n_ranges = of_nat n, ranges = rs,
             ack_delay = push_bit ack_delay_exponent ack_delay, largest_acked = largest_acked\<rparr>))))))))"

subsection \<open>Bytes of an ACK frame\<close>

definition gap32 :: "u64 \<Rightarrow> rqc_pktno_range \<Rightarrow> u64" where
  "gap32 prev r = ucast (ucast (prev - high r - 2) :: u32)"

definition acks32 :: "rqc_pktno_range \<Rightarrow> u64" where
  "acks32 r = ucast (ucast (high r - low r) :: u32)"

fun ack_tail :: "u64 \<Rightarrow> rqc_pktno_range list \<Rightarrow> byte list" where
  "ack_tail prev [] = []"
| "ack_tail prev (r # rs) = vint_enc (gap32 prev r) @ vint_enc (acks32 r) @ ack_tail (low r) rs"

definition ack_head :: "u64 \<Rightarrow> rqc_pktno_range \<Rightarrow> byte list" where
  "ack_head delay r = [0x02] @ vint_enc (high r) @ vint_enc delay"

definition ack_bytes :: "u64 \<Rightarrow> rqc_pktno_range \<Rightarrow> rqc_pktno_range list \<Rightarrow> byte list" where
  "ack_bytes delay r rs =
     ack_head delay r @ [of_nat (length rs)] @ vint_enc (acks32 r) @ ack_tail (low r) rs"

declare length_vint_enc [simp del]

lemma uint_ucast32: "uint (ucast (x :: u32) :: u64) = uint x"
proof -
  have "uint x < 2 ^ 32" using unsigned_less [of x] by simp
  then have "uint x < 2 ^ 64" by simp
  then show ?thesis by (simp add: unsigned_ucast_eq take_bit_int_eq_self)
qed

lemma wr_vint32:
  "wr_vint (ucast (x :: u32)) (rqc_vint_get_2bit (uint x)) = wr_mem (vint_enc (ucast x))"
  using wr_vint_mem [of "ucast x"] by (simp only: uint_ucast32)

lemma vint_len32: "length (vint_enc (ucast (x :: u32))) = rqc_vint_len (rqc_vint_get_2bit (uint x))"
  by (simp only: length_vint_enc uint_ucast32)

lemma gen_ack_ranges_step:
  assumes "snd c \<le> e" "e \<le> length (fst c)"
  shows "gen_ack_ranges e prev (r # rs) cnt c =
    (let b = vint_enc (gap32 prev r) @ vint_enc (acks32 r);
         c' = (overwrite (fst c) (snd c) b, snd c + length b)
     in if snd c + length b > e then Inl (Ret (- RQC_ENOBUF), c)
        else if cnt + 1 \<ge> 63 then Inr (cnt + 1, c') else gen_ack_ranges e (low r) rs (cnt + 1) c')"
proof -
  have lb: "length (vint_enc (gap32 prev r) @ vint_enc (acks32 r)) =
      rqc_vint_len (rqc_vint_get_2bit (uint (ucast (prev - high r - 2) :: u32))) +
      rqc_vint_len (rqc_vint_get_2bit (uint (ucast (high r - low r) :: u32)))"
    by (simp only: length_append gap32_def acks32_def vint_len32)
  have w: "do { c \<leftarrow> wr_vint (ucast (ucast (prev - high r - 2) :: u32))
                  (rqc_vint_get_2bit (uint (ucast (prev - high r - 2) :: u32))) c;
               wr_vint (ucast (ucast (high r - low r) :: u32)) (rqc_vint_get_2bit (uint (ucast (high r - low r) :: u32))) c }
     = wr_mem (vint_enc (gap32 prev r) @ vint_enc (acks32 r)) c"
    unfolding wr_vint32 by (simp add: gap32_def acks32_def)
  show ?thesis
    unfolding gen_ack_ranges.simps Let_def lb [symmetric] w
    using assms by (cases c) (auto simp: not_less wr_mem_def simp del: length_vint_enc)
qed

lemma gen_ack_ranges_spec:
  assumes "cnt + length rs \<le> 63" "snd c \<le> e" "e \<le> length (fst c)"
  shows "if snd c + length (ack_tail prev rs) \<le> e
    then gen_ack_ranges e prev rs cnt c = Inr (cnt + length rs,
           (overwrite (fst c) (snd c) (ack_tail prev rs), snd c + length (ack_tail prev rs)))
    else \<exists>c'. gen_ack_ranges e prev rs cnt c = Inl (Ret (- RQC_ENOBUF), c')"
  using assms
proof (induction rs arbitrary: prev cnt c)
  case (Cons r rs)
  define b where "b = vint_enc (gap32 prev r) @ vint_enc (acks32 r)"
  let ?c = "(overwrite (fst c) (snd c) b, snd c + length b)"
  have tail: "ack_tail prev (r # rs) = b @ ack_tail (low r) rs" by (simp add: b_def)
  note step = gen_ack_ranges_step [OF Cons.prems(2,3), of prev r rs cnt, folded b_def, unfolded Let_def]
  show ?case
  proof (cases "snd c + length b \<le> e")
    case True
    have le: "snd c + length b \<le> length (fst c)" using True Cons.prems(3) by simp
    have lc: "length (fst ?c) = length (fst c)" using le by simp
    show ?thesis
    proof (cases "cnt + 1 \<ge> 63")
      case c: True
      then have "rs = []" using Cons.prems(1) by (cases rs) auto
      then show ?thesis using True c Cons.prems(1) unfolding step tail by simp
    next
      case False
      have IH: "if snd ?c + length (ack_tail (low r) rs) \<le> e
        then gen_ack_ranges e (low r) rs (cnt + 1) ?c = Inr (cnt + 1 + length rs,
           (overwrite (fst ?c) (snd ?c) (ack_tail (low r) rs), snd ?c + length (ack_tail (low r) rs)))
        else \<exists>c'. gen_ack_ranges e (low r) rs (cnt + 1) ?c = Inl (Ret (- RQC_ENOBUF), c')"
        using Cons.prems True lc by (intro Cons.IH) auto
      have "overwrite (fst ?c) (snd ?c) (ack_tail (low r) rs) = overwrite (fst c) (snd c) (b @ ack_tail (low r) rs)"
        if "snd ?c + length (ack_tail (low r) rs) \<le> e"
        using that Cons.prems(3) by (simp add: overwrite_overwrite)
      with IH show ?thesis using True False unfolding step tail
        by (auto simp: add.assoc split: if_splits)
    qed
  next
    case False
    then show ?thesis unfolding step tail by auto
  qed
qed simp


lemma length_ack_tail_ge: "length rs \<le> length (ack_tail prev rs)"
proof (induction rs arbitrary: prev)
  case (Cons r rs)
  have "length rs \<le> length (ack_tail (low r) rs)" by (rule Cons.IH)
  then show ?case using vint_enc_len_bounds(1) [of "gap32 prev r"] by simp
qed simp

lemma range_count_byte: "n < 64 \<Longrightarrow> rqc_vint_bytes (of_nat n) 0 (Suc 0) = [of_nat n]"
  using rqc_vint_bytes_eq [of 0 "of_nat n"]
  by (simp add: unsigned_of_nat take_bit_nat_eq_self)

lemma overwrite_hole:
  assumes "u + length H + 1 + length X \<le> length buf"
  shows "overwrite (overwrite (overwrite buf u H) (u + length H + 1) X) (u + length H) [b] = overwrite buf u (H @ [b] @ X)"
  using assms
  by (intro nth_equalityI) (auto simp: nth_overwrite nth_append nth_Cons Suc_diff_Suc split: nat.splits intro!: arg_cong [where f = "(!) X"])

text \<open>
  Writing the whole frame: success exactly when its bytes fit into the space with the part
  reserved for an ACK.
\<close>

lemma rqc_gen_ack_frame_spec:
  fixes po :: rqc_packet_out and now t :: u64 and ex :: nat
  assumes po: "po_ok po" and rr: "list_head rr = r # rs" "length rs \<le> 63"
  defines "bs \<equiv> ack_bytes (drop_bit ex (now - t)) r rs"
  shows "if length bs \<le> rqc_get_po_remained_size_with_ack_spc po
    then rqc_gen_ack_frame po now ex rr t = (Inr (length bs, rs \<noteq> [], high r),
       po\<lparr>po_buf := overwrite (po_buf po) (po_used_size po) bs,
          po_frame_types := po_frame_types po OR RQC_FRAME_BIT_ACK\<rparr>)
    else \<exists>po'. rqc_gen_ack_frame po now ex rr t = (Err (- RQC_ENOBUF), po')"
proof -
  let ?u = "po_used_size po" and ?rem = "rqc_get_po_remained_size_with_ack_spc po" and ?buf = "po_buf po"
  define d where "d = drop_bit ex (now - t)"
  define H where "H = ack_head d r"
  have fit: "?u + n \<le> length ?buf" if "n \<le> ?rem" for n using remained_ack_fits [OF po that] .
  have need: "1 + rqc_vint_len (rqc_vint_get_2bit (uint (high r))) + rqc_vint_len (rqc_vint_get_2bit (uint d)) + 1 +
      rqc_vint_len (rqc_vint_get_2bit (uint (ucast (high r - low r) :: u32))) = length H + 1 + length (vint_enc (acks32 r))"
    by (simp add: H_def ack_head_def acks32_def vint_len32) (simp add: length_vint_enc)
  have lbs: "length bs = length H + 1 + length (vint_enc (acks32 r)) + length (ack_tail (low r) rs)"
    by (simp add: bs_def ack_bytes_def H_def d_def)
  show ?thesis
  proof (cases "?u + (length H + 1 + length (vint_enc (acks32 r))) > ?u + ?rem")
    case True
    then have "rqc_gen_ack_frame po now ex rr t = (Err (- RQC_ENOBUF), po)"
      unfolding rqc_gen_ack_frame_def rr(1) list.case Let_def d_def [symmetric] need by simp
    with True lbs show ?thesis by simp
  next
    case False
    define F where "F = vint_enc (acks32 r)"
    define c where "c = (overwrite (overwrite ?buf ?u H) (?u + length H + 1) F, ?u + length H + 1 + length F)"
    have f1: "?u + length H + 1 + length F \<le> length ?buf"
      using False fit [of "length H + 1 + length F"] by (simp add: F_def)
    have w: "do {
        c \<leftarrow> wr_u8 0x02 (?buf, ?u);
        c \<leftarrow> wr_vint (high r) (rqc_vint_get_2bit (uint (high r))) c;
        (buf, p) \<leftarrow> wr_vint d (rqc_vint_get_2bit (uint d)) c;
        c \<leftarrow> wr_vint (ucast (ucast (high r - low r) :: u32)) (rqc_vint_get_2bit (uint (ucast (high r - low r) :: u32))) (buf, p + 1);
        Some (p, c) } = Some (?u + length H, c)"
      unfolding wr_vint32 using f1
        overwrite_overwrite [of ?u "[2]" "vint_enc (high r) @ vint_enc d" ?buf]
      by (simp add: c_def F_def H_def ack_head_def acks32_def [symmetric])
    have c: "snd c \<le> ?u + ?rem" "?u + ?rem \<le> length (fst c)"
      using False fit [of ?rem] f1 by (simp_all add: c_def F_def del: length_vint_enc)
    note loop = gen_ack_ranges_spec [OF _ c, of 0 rs "low r"]
    have gen: "rqc_gen_ack_frame po now ex rr t =
        (case gen_ack_ranges (?u + ?rem) (low r) rs 0 c of
           Inl (f, (buf, _)) \<Rightarrow> (Inl f, po\<lparr>po_buf := buf\<rparr>)
         | Inr (n, (buf, q)) \<Rightarrow>
             (case rqc_vint_write buf (?u + length H) (of_nat n) 0 1 of
                None \<Rightarrow> (Inl Fault, po)
              | Some buf' \<Rightarrow> (Inr (q - ?u, n > 0, high r),
                  po\<lparr>po_buf := buf', po_frame_types := po_frame_types po OR RQC_FRAME_BIT_ACK\<rparr>)))"
      unfolding rqc_gen_ack_frame_def rr(1) list.case Let_def d_def [symmetric] need w
      using False by simp
    show ?thesis
    proof (cases "snd c + length (ack_tail (low r) rs) \<le> ?u + ?rem")
      case True
      define T where "T = ack_tail (low r) rs"
      have ft: "?u + length H + 1 + length (F @ T) \<le> length ?buf"
        using True fit [of ?rem] by (simp add: c_def T_def del: length_vint_enc)
      have g: "gen_ack_ranges (?u + ?rem) (low r) rs 0 c = Inr (length rs,
          (overwrite (overwrite ?buf ?u H) (?u + length H + 1) (F @ T), ?u + length H + 1 + length F + length T))"
        using loop True rr(2) ft
          overwrite_overwrite [of "?u + length H + 1" F T "overwrite ?buf ?u H"]
        by (simp add: c_def T_def)
      have wc: "rqc_vint_write (overwrite (overwrite ?buf ?u H) (?u + length H + 1) (F @ T)) (?u + length H) (of_nat (length rs)) 0 1
          = Some (overwrite ?buf ?u bs)"
        using ft overwrite_hole [of ?u H "F @ T" ?buf "of_nat (length rs)"] rr(2)
        by (simp add: rqc_vint_write_def range_count_byte bs_def ack_bytes_def H_def d_def F_def T_def)
      have "length bs \<le> ?rem" using True lbs by (simp add: c_def F_def T_def)
      moreover have "?u + length H + 1 + length F + length T - ?u = length bs" using lbs by (simp add: F_def T_def)
      ultimately show ?thesis unfolding gen g by (simp add: wc [unfolded One_nat_def add_0_right add_Suc_right])
    next
      case f: False
      have "\<not> length bs \<le> ?rem" using f lbs by (simp add: c_def F_def)
      moreover have "\<exists>c'. gen_ack_ranges (?u + ?rem) (low r) rs 0 c = Inl (Ret (- RQC_ENOBUF), c')"
        using loop f rr(2) by simp
      ultimately show ?thesis unfolding gen by (auto split: prod.splits)
    qed
  qed
qed

subsection \<open>Reading the ranges back\<close>

text \<open>The widths and gaps that survive the 32-bit variables of the generator.\<close>

fun ranges32 :: "u64 \<Rightarrow> rqc_pktno_range list \<Rightarrow> bool" where
  "ranges32 prev [] = True"
| "ranges32 prev (r # rs) \<longleftrightarrow> prev - high r - 2 < 2 ^ 32 \<and> high r - low r < 2 ^ 32 \<and> ranges32 (low r) rs"

lemma ucast32_id:
  assumes "x < 2 ^ 32"
  shows "ucast (ucast (x :: u64) :: u32) = x"
proof -
  have "uint x < 2 ^ 32" using assms unfolding word_less_alt by simp
  then have "uint (ucast x :: u32) = uint x" by (simp add: unsigned_ucast_eq take_bit_int_eq_self)
  then show ?thesis by (simp only: word_uint_eq_iff uint_ucast32)
qed

lemma ucast32_62: "(ucast (x :: u32) :: u64) < 2 ^ 62"
proof -
  have "uint (ucast x :: u64) < 2 ^ 32" using unsigned_less [of x] by (simp add: uint_ucast32)
  then show ?thesis unfolding word_less_alt by simp
qed

lemma overwrite_Cons: "n < length a \<Longrightarrow> overwrite a n (r # rs) = overwrite (a[n := r]) (n + 1) rs"
  by (simp add: overwrite_def upd_conv_take_nth_drop take_Suc_conv_app_nth add.commute)

lemma parse_ack_tail:
  assumes "carries pi p (ack_tail (low (a ! (n - 1))) rs)" "ranges32 (low (a ! (n - 1))) rs"
    "0 < n" "n + length rs \<le> 64" "length a = 64"
  shows "parse_ack_ranges pi p (length rs) a n =
    Inr (p + length (ack_tail (low (a ! (n - 1))) rs), overwrite a n rs, n + length rs)"
  using assms
proof (induction rs arbitrary: p a n)
  case Nil
  then show ?case by (simp add: parse_ack_ranges.simps)
next
  case (Cons r rs)
  let ?prev = "low (a ! (n - 1))"
  have g: "gap32 ?prev r = ?prev - high r - 2" "acks32 r = high r - low r"
    using Cons.prems(2) by (simp_all add: gap32_def acks32_def ucast32_id)
  have b: "gap32 ?prev r < 2 ^ 62" "acks32 r < 2 ^ 62" by (simp_all only: gap32_def acks32_def ucast32_62)
  have r: "\<lparr>low = ?prev - gap32 ?prev r - 2 - acks32 r, high = ?prev - gap32 ?prev r - 2\<rparr> = r"
    by (simp only: g) simp
  have low: "low (a[n := r] ! (n + 1 - 1)) = low r" using Cons.prems(4,5) by simp
  have IH: "parse_ack_ranges pi (p + length (vint_enc (gap32 ?prev r)) + length (vint_enc (acks32 r))) (length rs) (a[n := r]) (n + 1) =
      Inr (p + length (vint_enc (gap32 ?prev r)) + length (vint_enc (acks32 r)) + length (ack_tail (low r) rs),
           overwrite (a[n := r]) (n + 1) rs, n + 1 + length rs)"
    using Cons.IH [where a = "a[n := r]" and n = "n + 1", unfolded low] Cons.prems by simp
  have n: "n < 64" using Cons.prems(4) by simp
  have c: "carries pi p (vint_enc (gap32 ?prev r))"
    "carries pi (p + length (vint_enc (gap32 ?prev r))) (vint_enc (acks32 r))"
    using Cons.prems(1) by simp_all
  note reads = rd_vint_carries [OF c(1) b(1)] rd_vint_carries [OF c(2) b(2)]
  have "parse_ack_ranges pi p (length (r # rs)) a n =
      parse_ack_ranges pi (p + length (vint_enc (gap32 ?prev r)) + length (vint_enc (acks32 r))) (length rs) (a[n := r]) (n + 1)"
    unfolding parse_ack_ranges.simps [of pi p "length (r # rs)"] reads res_bind_simps prod.case Let_def r
    using n by simp
  then show ?case using IH Cons.prems(5) n by (simp add: overwrite_Cons)
qed

lemma rqc_parse_ack_carries:
  assumes "carries pi (pi_pos pi) (ack_bytes d r rs)" "ranges32 (low r) rs" "high r - low r < 2 ^ 32"
    "high r < 2 ^ 62" "d < 2 ^ 62" "length rs \<le> 63" "length (ranges ai) = 64"
  shows "rqc_parse_ack_frame pi ex ai =
    Inr (pi_done pi (pi_pos pi + length (ack_bytes d r rs)) RQC_FRAME_BIT_ACK,
         \<lparr>ai_path_id = 0, n_ranges = of_nat (length (r # rs)), ranges = overwrite (ranges ai) 0 (r # rs),
          ack_delay = push_bit ex d, largest_acked = high r\<rparr>)"
proof -
  let ?n = "of_nat (length rs) :: u64"
  have n: "?n < 2 ^ 62" "unat ?n = length rs" using assms(6) of_nat_less_62 [of "length rs"] by (simp_all add: unat_of_nat_small)
  have cnt: "vint_enc ?n = [of_nat (length rs)]"
    using assms(6) by (simp add: vint_enc_def rqc_vint_get_2bit_def uint_of_nat_small range_count_byte rqc_vint_len_def)
  have two: "vint_enc 2 = [2]"
    by (simp add: vint_enc_def rqc_vint_get_2bit_def rqc_vint_bytes_eq [of 0, simplified])
  have bytes: "ack_bytes d r rs =
      vint_enc 2 @ vint_enc (high r) @ vint_enc d @ vint_enc ?n @ vint_enc (acks32 r) @ ack_tail (low r) rs"
    by (simp add: ack_bytes_def ack_head_def cnt two)
  have a: "acks32 r = high r - low r" "acks32 r < 2 ^ 62"
    using assms(3) ucast32_id ucast32_62 [of "ucast (high r - low r)"] by (simp_all only: acks32_def)
  have r: "\<lparr>low = high r - acks32 r, high = high r\<rparr> = r" by (simp add: a(1))
  let ?a = "(ranges ai)[0 := r]"
  have low: "low (?a ! (1 - 1)) = low r" using assms(7) by simp
  define q where "q = pi_pos pi + length (vint_enc 2) + length (vint_enc (high r)) + length (vint_enc d) +
    length (vint_enc ?n) + length (vint_enc (acks32 r))"
  have tail: "parse_ack_ranges pi q (length rs) ?a 1 =
      Inr (q + length (ack_tail (low r) rs), overwrite ?a 1 rs, 1 + length rs)"
    using parse_ack_tail [where a = ?a and n = 1 and p = q and pi = pi and rs = rs, unfolded low] assms
    unfolding bytes q_def by (simp add: add.assoc)
  define l where "l = (\<lambda>v :: u64. length (vint_enc v))"
  let ?p = "pi_pos pi" and ?e = "- RQC_EVINTREAD"
  have c: "carries pi ?p (vint_enc 2)" "carries pi (?p + l 2) (vint_enc (high r))"
    "carries pi (?p + l 2 + l (high r)) (vint_enc d)" "carries pi (?p + l 2 + l (high r) + l d) (vint_enc ?n)"
    "carries pi (?p + l 2 + l (high r) + l d + l ?n) (vint_enc (acks32 r))"
    using assms(1) unfolding bytes l_def by (simp_all add: add.assoc)
  have v: "rd_vint ?e pi ?p = Inr (2, ?p + l 2)" "rd_vint ?e pi (?p + l 2) = Inr (high r, ?p + l 2 + l (high r))"
    "rd_vint ?e pi (?p + l 2 + l (high r)) = Inr (d, ?p + l 2 + l (high r) + l d)"
    "rd_vint ?e pi (?p + l 2 + l (high r) + l d) = Inr (?n, ?p + l 2 + l (high r) + l d + l ?n)"
    "rd_vint ?e pi (?p + l 2 + l (high r) + l d + l ?n) = Inr (acks32 r, q)"
    using c assms(4,5) n a(2) unfolding q_def by (simp_all add: l_def)
  have "length (ack_bytes d r rs) = q - ?p + length (ack_tail (low r) rs)"
    by (simp add: bytes q_def)
  moreover have "?p \<le> q" by (simp add: q_def)
  ultimately show ?thesis
    unfolding rqc_parse_ack_frame_def v res_bind_simps prod.case n(2) r tail
    using assms(7) by (simp add: overwrite_Cons)
qed

text \<open>Safety of the loop: it only moves forward, stays before \<open>last\<close> and stores at most 64 ranges.\<close>

lemma parse_ack_ranges_post:
  assumes "p \<le> pi_last pi" "length a = 64" "0 < n" "n \<le> 64"
  shows "res_post (\<lambda>(q, a', n'). p + 2 * k \<le> q \<and> q \<le> pi_last pi \<and> length a' = 64 \<and> n' = min 64 (n + k))
    (parse_ack_ranges pi p k a n)"
  using assms
proof (induction k arbitrary: p a n)
  case 0
  then show ?case by (simp add: parse_ack_ranges.simps)
next
  case (Suc k)
  define Q where "Q = (\<lambda>(q, a' :: rqc_pktno_range list, n'). p + 2 * Suc k \<le> q \<and> q \<le> pi_last pi \<and>
    length a' = 64 \<and> n' = min 64 (n + Suc k))"
  have store: "res_post Q (parse_ack_ranges pi q k (a[n := x]) (n + 1))"
    if "p + 2 \<le> q" "q \<le> pi_last pi" "n < 64" for q x
    unfolding Q_def by (rule res_post_mono [OF Suc.IH]) (use that Suc.prems in auto)
  have full: "res_post Q (parse_ack_ranges pi q k a n)" if "p + 2 \<le> q" "q \<le> pi_last pi" "\<not> n < 64" for q
    unfolding Q_def by (rule res_post_mono [OF Suc.IH]) (use that Suc.prems in auto)
  have "res_post Q (parse_ack_ranges pi p (Suc k) a n)"
    unfolding parse_ack_ranges.simps [of pi p "Suc k"] Let_def
    by (simp only: nat.simps if_False diff_Suc_1, rule res_post_bind [OF rd_vint_post], clarify,
        rule res_post_bind [OF rd_vint_post], clarify, rule res_post_if) (simp_all add: store [simplified] full)
  then show ?case by (simp only: Q_def)
qed

lemma ack_ecn_post:
  "p \<le> pi_last pi \<Longrightarrow> res_post (\<lambda>q. p \<le> q \<and> q \<le> pi_last pi)
     (if frame_type = (0x03 :: u64) then
        res_bind (rd_vint (- RQC_EVINTREAD) pi p) (\<lambda>(_, p).
        res_bind (rd_vint (- RQC_EVINTREAD) pi p) (\<lambda>(_, p).
        res_bind (rd_vint (- RQC_EVINTREAD) pi p) (\<lambda>(_, p). Inr p)))
      else Inr p)"
  by (auto intro!: res_post_bind [OF rd_vint_post])

lemma unat_n_ranges: "n \<le> 64 \<Longrightarrow> unat (of_nat n :: u32) = n"
  by (simp add: unat_of_nat)

lemma rqc_parse_ack_frame_post:
  assumes "pi_ok pi" "length (ranges ai) = 64"
  shows "res_post (\<lambda>(pi', ai'). pi_ok pi' \<and> pi_pos pi < pi_pos pi' \<and> pi_buf pi' = pi_buf pi \<and> pi_last pi' = pi_last pi \<and>
      length (ranges ai') = 64 \<and> 0 < unat (n_ranges ai') \<and> unat (n_ranges ai') \<le> 64)
    (rqc_parse_ack_frame pi ex ai)"
  unfolding rqc_parse_ack_frame_def
proof (intro res_post_bind [OF rd_vint_post], clarify, intro res_post_bind [OF rd_vint_post], clarify,
    intro res_post_bind [OF rd_vint_post], clarify, intro res_post_bind [OF rd_vint_post], clarify,
    intro res_post_bind [OF rd_vint_post], clarify, goal_cases)
  case (1 _ a _ b _ c _ d _ p)
  show ?case
  proof (rule res_post_bind [OF parse_ack_ranges_post], goal_cases)
    case (5 x)
    then obtain q rs n where x: "x = (q, rs, n)" "p \<le> q" "q \<le> pi_last pi" "length rs = 64" "0 < n" "n \<le> 64"
      by (cases x) auto
    show ?case
      unfolding x prod.case
      by (rule res_post_bind [OF ack_ecn_post [OF x(3)]]) (use 1 x assms(1) in \<open>auto simp: pi_ok_def pi_done_def unat_n_ranges\<close>)
  qed (use 1 assms in simp_all)
qed

subsection \<open>Properties\<close>

text \<open>
  C20: the acknowledged packet numbers survive the wire. For a well-formed non-empty record whose
  ranges are less than \<open>2 ^ 32\<close> wide and apart, in a packet with room for the frame, the
  generator succeeds and keeps the bytes already written, and a receiver whose packet carries
  the frame parses it to the end and recovers exactly the ranges of the record, a well-formed
  \<open>rqc_ack_info_t\<close> with the same set of packet numbers, the largest one, and the delay up to
  the precision of \<open>ack_delay_exponent\<close>.
\<close>

theorem ack_frame_roundtrip:
  fixes po :: rqc_packet_out and now t :: u64
  assumes "po_ok po" and "rr_inv rr" and "list_head rr = r # rs" and "ranges32 (low r) rs" and "high r - low r < 2 ^ 32"
    and "drop_bit ex (now - t) < 2 ^ 62"
    and "length (ack_bytes (drop_bit ex (now - t)) r rs) \<le> rqc_get_po_remained_size_with_ack_spc po"
  shows "\<exists>n po'. rqc_gen_ack_frame po now ex rr t = (Inr (n, rs \<noteq> [], high r), po') \<and> po_ok po' \<and>
    take (po_used_size po) (po_buf po') = take (po_used_size po) (po_buf po) \<and>
    (\<forall>pi ai. carries pi (pi_pos pi) (po_frame po' n) \<and> length (ranges ai) = 64 \<longrightarrow>
       (\<exists>ai'. rqc_parse_ack_frame pi ex ai = Inr (pi_done pi (pi_pos pi + n) RQC_FRAME_BIT_ACK, ai') \<and>
          ack_info_ok ai' \<and> ack_ranges ai' = list_head rr \<and> ranges_set (ack_ranges ai') = rr_set rr \<and>
          largest_acked ai' = high r \<and> ack_delay ai' = push_bit ex (drop_bit ex (now - t))))"
proof -
  define bs where "bs = ack_bytes (drop_bit ex (now - t)) r rs"
  have rs: "ranges_ok (r # rs)" "length rs \<le> 63"
    using assms(2,3) by (auto simp: rr_inv_def)
  then have hi: "high r < 2 ^ 62" by (simp add: ranges_ok_def word_less_nat_alt)
  define po' where "po' = po\<lparr>po_buf := overwrite (po_buf po) (po_used_size po) bs,
    po_frame_types := po_frame_types po OR RQC_FRAME_BIT_ACK\<rparr>"
  have fit: "po_used_size po + length bs \<le> length (po_buf po)"
    using remained_ack_fits [OF assms(1)] assms(7) by (simp add: bs_def)
  have gen: "rqc_gen_ack_frame po now ex rr t = (Inr (length bs, rs \<noteq> [], high r), po')"
    using rqc_gen_ack_frame_spec [OF assms(1,3) rs(2), of ex now t] assms(7) by (simp add: bs_def po'_def)
  have frame: "po_frame po' (length bs) = bs" using fit by (simp add: po'_def)
  have parse: "\<exists>ai'. rqc_parse_ack_frame pi ex ai = Inr (pi_done pi (pi_pos pi + length bs) RQC_FRAME_BIT_ACK, ai') \<and>
          ack_info_ok ai' \<and> ack_ranges ai' = list_head rr \<and> ranges_set (ack_ranges ai') = rr_set rr \<and>
          largest_acked ai' = high r \<and> ack_delay ai' = push_bit ex (drop_bit ex (now - t))"
    if "carries pi (pi_pos pi) bs" "length (ranges ai) = 64" for pi ai
  proof -
    let ?ai = "\<lparr>ai_path_id = 0, n_ranges = of_nat (length (r # rs)), ranges = overwrite (ranges ai) 0 (r # rs),
          ack_delay = push_bit ex (drop_bit ex (now - t)), largest_acked = high r\<rparr>"
    have n: "unat (n_ranges ?ai) = length (r # rs)" using rs(2) unat_n_ranges [of "length (r # rs)"] by simp
    have ack: "ack_ranges ?ai = r # rs" unfolding ack_ranges_def n by (simp add: overwrite_def)
    have pos: "0 < n_ranges ?ai" using n by (simp add: word_less_nat_alt)
    have "length (ranges ?ai) = 64" using that(2) rs(2) by simp
    then have "ack_info_ok ?ai" using pos n rs ack unfolding ack_info_ok_def by simp
    moreover have "rqc_parse_ack_frame pi ex ai = Inr (pi_done pi (pi_pos pi + length bs) RQC_FRAME_BIT_ACK, ?ai)"
      unfolding bs_def
      by (rule rqc_parse_ack_carries [OF that(1) [unfolded bs_def] assms(4,5) hi assms(6) rs(2) that(2)])
    ultimately show ?thesis using ack assms(3) by (intro exI [of _ ?ai]) (simp add: rr_set_def)
  qed
  show ?thesis
    using gen parse assms(1) fit frame
    by (intro exI [of _ "length bs"] exI [of _ po']) (auto simp: po'_def po_ok_def)
qed

definition rr_example :: rqc_recv_record where
  "rr_example = \<lparr>list_head = [\<lparr>low = 7, high = 9\<rparr>, \<lparr>low = 2, high = 5\<rparr>], rr_del_from = 0, node_count = 2\<rparr>"

theorem ack_frame_roundtrip_witness:
  "\<exists>n po'. rqc_gen_ack_frame po_example 5000 3 rr_example 1000 = (Inr (n, True, 9), po') \<and>
    (\<forall>pi ai. carries pi (pi_pos pi) (po_frame po' n) \<and> length (ranges ai) = 64 \<longrightarrow>
       (\<exists>ai'. rqc_parse_ack_frame pi 3 ai = Inr (pi_done pi (pi_pos pi + n) RQC_FRAME_BIT_ACK, ai') \<and>
          ranges_set (ack_ranges ai') = {2, 3, 4, 5, 7, 8, 9} \<and> ack_delay ai' = 4000))"
proof -
  let ?r = "\<lparr>low = 7, high = 9\<rparr> :: rqc_pktno_range" and ?s = "\<lparr>low = 2, high = 5\<rparr> :: rqc_pktno_range"
  have v: "length (vint_enc v) \<le> 8" for v using vint_enc_len_bounds [of v] by simp
  have len: "length (ack_bytes (drop_bit 3 (5000 - 1000)) ?r [?s]) \<le> rqc_get_po_remained_size_with_ack_spc po_example"
    using v [of 9] v [of 500] v [of "acks32 ?r"] v [of "gap32 7 ?s"] v [of "acks32 ?s"]
    by (simp add: ack_bytes_def ack_head_def)
  have set: "rr_set rr_example = {2, 3, 4, 5, 7, 8, 9}" by (auto simp: rr_set_def rr_example_def)
  have pre: "rr_inv rr_example" "list_head rr_example = [?r, ?s]" "ranges32 (low ?r) [?s]"
    "high ?r - low ?r < 2 ^ 32" "drop_bit 3 (5000 - 1000 :: u64) < 2 ^ 62"
    by (simp_all add: rr_inv_def rr_example_def ranges_ok_def)
  have t: "([?s] \<noteq> []) = True" by simp
  have d: "push_bit 3 (drop_bit 3 (5000 - 1000 :: u64)) = 4000" by simp
  from ack_frame_roundtrip [OF po_example_simps(1) pre len] show ?thesis
    unfolding set d rqc_pktno_range.simps t
    by (elim exE conjE) (intro exI conjI, assumption, blast)
qed

text \<open>
  C21: parsing an ACK frame from any received bytes is memory safe: no read outside the buffer
  and no write outside the 64 entries of \<open>ranges\<close>, whatever range count the frame announces;
  on success the position has advanced and is inside the packet, and between 1 and 64 ranges are
  stored.
\<close>

theorem ack_parse_safe:
  assumes "pi_ok pi" and "length (ranges ai) = 64"
  shows "rqc_parse_ack_frame pi ex ai \<noteq> Inl Fault \<and>
    (\<forall>pi' ai'. rqc_parse_ack_frame pi ex ai = Inr (pi', ai') \<longrightarrow>
       pi_ok pi' \<and> pi_pos pi < pi_pos pi' \<and> pi_buf pi' = pi_buf pi \<and>
       length (ranges ai') = 64 \<and> 0 < unat (n_ranges ai') \<and> unat (n_ranges ai') \<le> 64)"
  using res_postD [OF rqc_parse_ack_frame_post [OF assms, of ex]] by fastforce

definition ai_example :: rqc_ack_info where
  "ai_example = \<lparr>ai_path_id = 0, n_ranges = 0, ranges = replicate 64 \<lparr>low = 0, high = 0\<rparr>, ack_delay = 0, largest_acked = 0\<rparr>"

theorem ack_parse_safe_witness:
  "rqc_parse_ack_frame (pi_example [0x02, 0x05, 0x00, 0x3f, 0x00, 0x01]) 3 ai_example \<noteq> Inl Fault"
  using ack_parse_safe [of "pi_example [0x02, 0x05, 0x00, 0x3f, 0x00, 0x01]" ai_example 3] by (simp add: ai_example_def)

text \<open>
  The errors of the generator: with nothing received it returns \<open>-RQC_ENULLPTR\<close> and leaves
  the packet alone; for a well-formed record it returns \<open>-RQC_ENOBUF\<close> exactly when the whole
  frame does not fit into the remaining space plus the space reserved for an ACK, and it never
  writes outside the packet.
\<close>

theorem ack_gen_errors:
  assumes "po_ok po" and "rr_inv rr"
  shows "(list_head rr = [] \<longrightarrow> rqc_gen_ack_frame po now ex rr t = (Err (- RQC_ENULLPTR), po)) \<and>
    (\<forall>r rs. list_head rr = r # rs \<longrightarrow>
       (fst (rqc_gen_ack_frame po now ex rr t) = Err (- RQC_ENOBUF) \<longleftrightarrow>
        rqc_get_po_remained_size_with_ack_spc po < length (ack_bytes (drop_bit ex (now - t)) r rs)) \<and>
       fst (rqc_gen_ack_frame po now ex rr t) \<noteq> Inl Fault)"
proof (intro conjI allI impI)
  show "list_head rr = [] \<Longrightarrow> rqc_gen_ack_frame po now ex rr t = (Err (- RQC_ENULLPTR), po)"
    by (simp add: rqc_gen_ack_frame_def)
next
  fix r rs assume h: "list_head rr = r # rs"
  then have "length rs \<le> 63" using assms(2) by (simp add: rr_inv_def)
  note spec = rqc_gen_ack_frame_spec [OF assms(1) h this, of ex now t]
  show "fst (rqc_gen_ack_frame po now ex rr t) = Err (- RQC_ENOBUF) \<longleftrightarrow>
        rqc_get_po_remained_size_with_ack_spc po < length (ack_bytes (drop_bit ex (now - t)) r rs)"
    using spec by (auto split: if_splits)
  show "fst (rqc_gen_ack_frame po now ex rr t) \<noteq> Inl Fault"
    using spec by (auto split: if_splits)
qed

theorem ack_gen_errors_witness:
  "rqc_gen_ack_frame po_example 0 3 \<lparr>list_head = [], rr_del_from = 0, node_count = 0\<rparr> 0 = (Err (- RQC_ENULLPTR), po_example) \<and>
   fst (rqc_gen_ack_frame (po_example\<lparr>po_used_size := 1216\<rparr>) 0 3 rr_example 0) = Err (- RQC_ENOBUF)"
proof
  show "rqc_gen_ack_frame po_example 0 3 \<lparr>list_head = [], rr_del_from = 0, node_count = 0\<rparr> 0 = (Err (- RQC_ENULLPTR), po_example)"
    using ack_gen_errors [of po_example "\<lparr>list_head = [], rr_del_from = 0, node_count = 0\<rparr>" 0 3 0]
    by (simp add: rr_inv_def ranges_ok_def)
  have "po_ok (po_example\<lparr>po_used_size := 1216\<rparr>)" "rr_inv rr_example"
    "rqc_get_po_remained_size_with_ack_spc (po_example\<lparr>po_used_size := 1216\<rparr>) = 0"
    by (simp_all add: po_ok_def po_example_def rr_inv_def rr_example_def ranges_ok_def rqc_get_po_remained_size_with_ack_spc_def)
  with ack_gen_errors [of "po_example\<lparr>po_used_size := 1216\<rparr>" rr_example 0 3 0]
  show "fst (rqc_gen_ack_frame (po_example\<lparr>po_used_size := 1216\<rparr>) 0 3 rr_example 0) = Err (- RQC_ENOBUF)"
    by (simp add: rr_example_def ack_bytes_def)
qed

end
