(* ===== verification/Rqc_Priority_Q.thy ===== *)
theory Rqc_Priority_Q
  imports Rqc_Prelude "HOL-Library.Multiset"
begin

text \<open>
  The binary heap of \<open>src/common/rqc_priority_q.h\<close>.

  An element is its key and its data; \<open>elements\<close> is the list of the slots of the allocated
  block, of which the first \<open>count\<close> are in use. A block that \<open>malloc\<close> returns is an argument
  (\<open>None\<close> for \<open>NULL\<close>), with whatever content it has. The callback \<open>eop\<close> sees the index of the
  slot (\<open>rqc_pq_element_index\<close>), the element, and changes a state \<open>'s\<close> outside the queue,
  which the operations thread through. Indices are natural numbers: a queue whose \<open>uint32_t\<close>
  indices overflow would hold more than \<open>2 ^ 31\<close> elements.

  The keys are compared by \<open>cmp\<close>: \<open>cmp a b\<close> holds when \<open>b\<close> goes before \<open>a\<close>. What the proofs need
  of it is the locale \<open>pq_order\<close>, interpreted for both comparison functions of the source.
\<close>

subsection \<open>State\<close>

definition rqc_pq_default_cmp :: "u64 \<Rightarrow> u64 \<Rightarrow> bool" where
  "rqc_pq_default_cmp a b \<longleftrightarrow> a < b"

definition rqc_pq_revert_cmp :: "u64 \<Rightarrow> u64 \<Rightarrow> bool" where
  "rqc_pq_revert_cmp a b \<longleftrightarrow> b < a"

type_synonym 'a rqc_pq_element = "u64 \<times> 'a"

abbreviation "pq_key \<equiv> (fst :: 'a rqc_pq_element \<Rightarrow> u64)"

type_synonym ('a, 's) pq_eop = "(nat \<Rightarrow> 'a rqc_pq_element \<Rightarrow> 's \<Rightarrow> 's) option"

record ('a, 's) rqc_pq =
  elements :: "'a rqc_pq_element list"
  pq_count :: nat
  capacity :: nat
  pq_cmp :: "u64 \<Rightarrow> u64 \<Rightarrow> bool"
  pq_eop :: "('a, 's) pq_eop"

text \<open>\<open>if (pq->eop) pq->eop(pq, rqc_pq_element(pq, i));\<close>\<close>

definition call_eop :: "('a, 's) pq_eop \<Rightarrow> 'a rqc_pq_element list \<Rightarrow> nat \<Rightarrow> 's \<Rightarrow> 's" where
  "call_eop eop es i s = (case eop of None \<Rightarrow> s | Some f \<Rightarrow> f i (es ! i) s)"

subsection \<open>Operations\<close>

text \<open>
  \<open>sizeof(rqc_pq_element_t)\<close> is 8: the key, and an array of no elements for the data.
\<close>

definition rqc_pq_init ::
  "'a rqc_pq_element list option \<Rightarrow> nat \<Rightarrow> nat \<Rightarrow> (u64 \<Rightarrow> u64 \<Rightarrow> bool) \<Rightarrow> ('a, 's) pq_eop \<Rightarrow> ('a, 's) rqc_pq res" where
  "rqc_pq_init block element_size cap cmp eop =
     (if element_size < 8 \<or> cap = 0 then Err (-1)
      else case block of
             None \<Rightarrow> Err (-2)
           | Some es \<Rightarrow> Inr \<lparr>elements = es, pq_count = 0, capacity = cap, pq_cmp = cmp, pq_eop = eop\<rparr>)"

definition rqc_pq_element_swap ::
  "('a, 's) pq_eop \<Rightarrow> 'a rqc_pq_element list \<Rightarrow> nat \<Rightarrow> nat \<Rightarrow> 's \<Rightarrow> 'a rqc_pq_element list \<times> 's" where
  "rqc_pq_element_swap eop es i j s =
     (let es' = (es[j := es ! i])[i := es ! j]
      in (es', call_eop eop es' j (call_eop eop es' i s)))"

fun rqc_pq_move_towards_top ::
  "(u64 \<Rightarrow> u64 \<Rightarrow> bool) \<Rightarrow> ('a, 's) pq_eop \<Rightarrow> 'a rqc_pq_element list \<Rightarrow> nat \<Rightarrow> 's \<Rightarrow> nat \<times> 'a rqc_pq_element list \<times> 's" where
  "rqc_pq_move_towards_top cmp eop es i s =
     (if i \<noteq> 0 then
        (let j = (i - 1) div 2
         in if \<not> cmp (pq_key (es ! j)) (pq_key (es ! i)) then (i, es, s)
            else (let (es', s') = rqc_pq_element_swap eop es i j s
                  in rqc_pq_move_towards_top cmp eop es' j s'))
      else (i, es, s))"

text \<open>
  \<open>n\<close> is \<open>pq->count\<close>; both callers have made sure that it is not 0, so that \<open>count - 1\<close> does
  not wrap.
\<close>

function rqc_pq_move_towards_bottom ::
  "(u64 \<Rightarrow> u64 \<Rightarrow> bool) \<Rightarrow> ('a, 's) pq_eop \<Rightarrow> nat \<Rightarrow> 'a rqc_pq_element list \<Rightarrow> nat \<Rightarrow> 's \<Rightarrow> 'a rqc_pq_element list \<times> 's" where
  "rqc_pq_move_towards_bottom cmp eop n es i s =
     (let j = 2 * i + 1
      in if j \<le> n - 1 then
           (let j = (if j < n - 1 \<and> cmp (pq_key (es ! j)) (pq_key (es ! (j + 1))) then j + 1 else j)
            in if \<not> cmp (pq_key (es ! i)) (pq_key (es ! j)) then (es, s)
               else (let (es', s') = rqc_pq_element_swap eop es i j s
                     in rqc_pq_move_towards_bottom cmp eop n es' j s'))
         else (es, s))"
  by pat_completeness auto
termination
  by (relation "measure (\<lambda>(cmp, eop, n, es, i, s). n - i)") (auto simp: Let_def split: if_splits)

declare rqc_pq_move_towards_top.simps [simp del] rqc_pq_move_towards_bottom.simps [simp del]

text \<open>
  The result is the index of the element in place of the pointer. \<open>block\<close> is the new block of
  twice the capacity, when one is needed.
\<close>

definition rqc_pq_push ::
  "'a rqc_pq_element list option \<Rightarrow> ('a, 's) rqc_pq \<Rightarrow> u64 \<Rightarrow> 'a \<Rightarrow> 's \<Rightarrow> nat option \<times> ('a, 's) rqc_pq \<times> 's" where
  "rqc_pq_push block pq key data s =
     (let grown = (if pq_count pq = capacity pq then
                     (case block of
                        None \<Rightarrow> None
                      | Some buf \<Rightarrow> Some (pq\<lparr>elements := overwrite buf 0 (take (capacity pq) (elements pq)),
                                              capacity := capacity pq * 2\<rparr>))
                   else Some pq)
      in case grown of
           None \<Rightarrow> (None, pq, s)
         | Some pq \<Rightarrow>
             (let es = (elements pq)[pq_count pq := (key, data)];
                  s1 = call_eop (pq_eop pq) es (pq_count pq) s;
                  (i, es', s') = rqc_pq_move_towards_top (pq_cmp pq) (pq_eop pq) es (pq_count pq) s1
              in (Some i, pq\<lparr>elements := es', pq_count := pq_count pq + 1\<rparr>, s')))"

definition rqc_pq_top :: "('a, 's) rqc_pq \<Rightarrow> 'a rqc_pq_element option" where
  "rqc_pq_top pq = (if pq_count pq = 0 then None else Some (elements pq ! 0))"

definition rqc_pq_empty :: "('a, 's) rqc_pq \<Rightarrow> bool" where
  "rqc_pq_empty pq \<longleftrightarrow> pq_count pq = 0"

definition rqc_pq_pop :: "('a, 's) rqc_pq \<Rightarrow> 's \<Rightarrow> ('a, 's) rqc_pq \<times> 's" where
  "rqc_pq_pop pq s =
     (if pq_count pq = 0 then (pq, s)
      else if pq_count pq - 1 = 0 then (pq\<lparr>pq_count := pq_count pq - 1\<rparr>, s)
      else (let n = pq_count pq - 1;
                es = (elements pq)[0 := elements pq ! n];
                s1 = call_eop (pq_eop pq) es 0 s;
                (es', s') = rqc_pq_move_towards_bottom (pq_cmp pq) (pq_eop pq) n es 0 s1
            in (pq\<lparr>elements := es', pq_count := n\<rparr>, s')))"

definition rqc_pq_remove :: "('a, 's) rqc_pq \<Rightarrow> nat \<Rightarrow> 's \<Rightarrow> ('a, 's) rqc_pq \<times> 's" where
  "rqc_pq_remove pq index s =
     (if index \<ge> pq_count pq \<or> pq_count pq = 0 then (pq, s)
      else if pq_count pq - 1 = 0 then (pq\<lparr>pq_count := pq_count pq - 1\<rparr>, s)
      else (let n = pq_count pq - 1;
                es = (elements pq)[index := elements pq ! n];
                s1 = call_eop (pq_eop pq) es index s;
                (es', s') = rqc_pq_move_towards_bottom (pq_cmp pq) (pq_eop pq) n es index s1;
                (_, es'', s'') = rqc_pq_move_towards_top (pq_cmp pq) (pq_eop pq) es' index s'
            in (pq\<lparr>elements := es'', pq_count := n\<rparr>, s'')))"

definition rqc_pq_destroy :: "('a, 's) rqc_pq \<Rightarrow> ('a, 's) rqc_pq" where
  "rqc_pq_destroy pq = pq\<lparr>elements := [], pq_count := 0, capacity := 0, pq_eop := None\<rparr>"

subsection \<open>The order of the keys\<close>

definition par :: "nat \<Rightarrow> nat" where
  "par k = (k - 1) div 2"

text \<open>
  A key function is a heap below \<open>n\<close>; a heap but for slot \<open>i\<close> and its parent; a heap but for
  slot \<open>i\<close> and its children.
\<close>

definition heap_keys :: "(u64 \<Rightarrow> u64 \<Rightarrow> bool) \<Rightarrow> nat \<Rightarrow> (nat \<Rightarrow> u64) \<Rightarrow> bool" where
  "heap_keys cmp n K \<longleftrightarrow> (\<forall>k. 0 < k \<and> k < n \<longrightarrow> \<not> cmp (K (par k)) (K k))"

definition children_ok :: "(u64 \<Rightarrow> u64 \<Rightarrow> bool) \<Rightarrow> nat \<Rightarrow> (nat \<Rightarrow> u64) \<Rightarrow> nat \<Rightarrow> bool" where
  "children_ok cmp n K i \<longleftrightarrow> (\<forall>k. 0 < i \<and> 0 < k \<and> k < n \<and> par k = i \<longrightarrow> \<not> cmp (K (par i)) (K k))"

definition heap_up :: "(u64 \<Rightarrow> u64 \<Rightarrow> bool) \<Rightarrow> nat \<Rightarrow> (nat \<Rightarrow> u64) \<Rightarrow> nat \<Rightarrow> bool" where
  "heap_up cmp n K i \<longleftrightarrow>
     (\<forall>k. 0 < k \<and> k < n \<and> k \<noteq> i \<longrightarrow> \<not> cmp (K (par k)) (K k)) \<and> children_ok cmp n K i"

definition heap_down :: "(u64 \<Rightarrow> u64 \<Rightarrow> bool) \<Rightarrow> nat \<Rightarrow> (nat \<Rightarrow> u64) \<Rightarrow> nat \<Rightarrow> bool" where
  "heap_down cmp n K i \<longleftrightarrow>
     (\<forall>k. 0 < k \<and> k < n \<and> par k \<noteq> i \<longrightarrow> \<not> cmp (K (par k)) (K k)) \<and> children_ok cmp n K i"

lemmas heap_defs = heap_keys_def heap_up_def heap_down_def children_ok_def

lemma par_less: "0 < k \<Longrightarrow> par k < k"
  by (auto simp: par_def)

lemma par_eq_iff: "0 < k \<Longrightarrow> par k = i \<longleftrightarrow> k = 2 * i + 1 \<or> k = 2 * i + 2"
  by (auto simp: par_def)

locale pq_order =
  fixes cmp :: "u64 \<Rightarrow> u64 \<Rightarrow> bool"
  assumes asym: "cmp a b \<Longrightarrow> \<not> cmp b a"
    and neg_trans: "\<not> cmp a b \<Longrightarrow> \<not> cmp b c \<Longrightarrow> \<not> cmp a c"
begin

lemma irrefl: "\<not> cmp a a"
  using asym by blast

lemma below_trans: "cmp a b \<Longrightarrow> \<not> cmp a c \<Longrightarrow> \<not> cmp b c"
  using asym neg_trans by blast

lemma heap_up_swap:
  assumes "heap_up cmp n K i" "0 < i" "i < n" "cmp (K (par i)) (K i)"
  shows "heap_up cmp n (K(i := K (par i), par i := K i)) (par i)"
proof -
  let ?j = "par i" and ?K = "K(i := K (par i), par i := K i)"
  have ji: "?j < i" using par_less [OF assms(2)] .
  have ok: "\<not> cmp (K (par k)) (K k)" if "0 < k" "k < n" "k \<noteq> i" for k
    using assms(1) that by (simp add: heap_up_def)
  have ch: "\<not> cmp (K ?j) (K k)" if "0 < k" "k < n" "par k = i" for k
    using assms(1,2) that by (simp add: heap_up_def children_ok_def)
  have 1: "\<not> cmp (?K (par k)) (?K k)" if k: "0 < k" "k < n" "k \<noteq> ?j" for k
  proof (cases "k = i")
    case True
    then show ?thesis using asym [OF assms(4)] ji by simp
  next
    case ki: False
    show ?thesis
    proof (cases "par k = i \<or> par k = ?j")
      case True
      then show ?thesis using ki k ch [of k] ok [of k] below_trans [OF assms(4)] ji by auto
    next
      case False
      then show ?thesis using ki k ok [of k] by simp
    qed
  qed
  have 2: "\<not> cmp (?K (par ?j)) (?K k)" if "0 < ?j" "0 < k" "k < n" "par k = ?j" for k
  proof -
    have pj: "par ?j < ?j" "par ?j \<noteq> i" "?K (par ?j) = K (par ?j)" using par_less [OF that(1)] ji by auto
    have jj: "\<not> cmp (K (par ?j)) (K ?j)" using ok [of ?j] that(1) ji assms(3) by simp
    show ?thesis
    proof (cases "k = i")
      case True
      then show ?thesis using pj jj ji by simp
    next
      case False
      then have "\<not> cmp (K ?j) (K k)" using ok [of k] that by simp
      then show ?thesis using neg_trans [OF jj] pj False that(4) par_less [OF that(2)] by auto
    qed
  qed
  show ?thesis unfolding heap_up_def children_ok_def using 1 2 by blast
qed

lemma heap_down_stop:
  assumes "heap_down cmp n K i" "\<And>k. 0 < k \<Longrightarrow> k < n \<Longrightarrow> par k = i \<Longrightarrow> \<not> cmp (K i) (K k)"
  shows "heap_keys cmp n K"
  using assms unfolding heap_down_def heap_keys_def by metis

lemma heap_down_swap:
  assumes "heap_down cmp n K i" "0 < j" "j < n" "par j = i" "cmp (K i) (K j)"
    and best: "\<And>k. 0 < k \<Longrightarrow> k < n \<Longrightarrow> par k = i \<Longrightarrow> \<not> cmp (K j) (K k)"
  shows "heap_down cmp n (K(j := K i, i := K j)) j"
proof -
  let ?K = "K(j := K i, i := K j)"
  have ij: "i < j" using par_less [OF assms(2)] assms(4) by simp
  have ok: "\<not> cmp (K (par k)) (K k)" if "0 < k" "k < n" "par k \<noteq> i" for k
    using assms(1) that by (simp add: heap_down_def)
  have ch: "\<not> cmp (K (par i)) (K k)" if "0 < i" "0 < k" "k < n" "par k = i" for k
    using assms(1) that by (simp add: heap_down_def children_ok_def)
  have 1: "\<not> cmp (?K (par k)) (?K k)" if k: "0 < k" "k < n" "par k \<noteq> j" for k
  proof (cases "k = j \<or> par k = i")
    case True
    then show ?thesis using asym [OF assms(5)] ij best [of k] k assms(4) par_less [OF k(1)] by auto
  next
    case False
    then show ?thesis using ok [of k] ch [of j] k ij assms(2,3,4) par_less [OF k(1)] by auto
  qed
  have 2: "\<not> cmp (?K (par j)) (?K k)" if "0 < k" "k < n" "par k = j" for k
    using ok [of k] that ij assms(4) par_less [OF that(1)] by auto
  show ?thesis unfolding heap_down_def children_ok_def using 1 2 by blast
qed

text \<open>The root of a heap comes before everything in it.\<close>

lemma heap_root:
  assumes "heap_keys cmp n K" "k < n"
  shows "\<not> cmp (K 0) (K k)"
  using assms(2)
proof (induction k rule: less_induct)
  case (less k)
  show ?case
  proof (cases "k = 0")
    case False
    then have "\<not> cmp (K 0) (K (par k))" using less.IH [of "par k"] less.prems par_less [of k] by simp
    then show ?thesis using neg_trans False less.prems assms(1) unfolding heap_keys_def by blast
  qed (simp add: irrefl)
qed

end

subsection \<open>The loops\<close>

abbreviation keys_of :: "'a rqc_pq_element list \<Rightarrow> nat \<Rightarrow> u64" where
  "keys_of es \<equiv> (\<lambda>k. pq_key (es ! k))"

text \<open>What a sequence of swaps below \<open>n\<close> keeps.\<close>

definition permutes :: "nat \<Rightarrow> 'a rqc_pq_element list \<Rightarrow> 'a rqc_pq_element list \<Rightarrow> bool" where
  "permutes n es es' \<longleftrightarrow> length es' = length es \<and> mset (take n es') = mset (take n es)"

lemma permutes_refl [simp]: "permutes n es es"
  by (simp add: permutes_def)

lemma permutes_trans [trans]: "permutes n es es' \<Longrightarrow> permutes n es' es'' \<Longrightarrow> permutes n es es''"
  by (simp add: permutes_def)

lemma swap_permutes:
  "i < n \<Longrightarrow> j < n \<Longrightarrow> n \<le> length es \<Longrightarrow> permutes n es (fst (rqc_pq_element_swap eop es i j s))"
  using mset_swap [of i "take n es" j]
  by (simp add: permutes_def rqc_pq_element_swap_def Let_def take_update_swap)

lemma swap_nth:
  "i < length es \<Longrightarrow> j < length es \<Longrightarrow> k < length es \<Longrightarrow>
   fst (rqc_pq_element_swap eop es i j s) ! k = (if k = i then es ! j else if k = j then es ! i else es ! k)"
  by (simp add: rqc_pq_element_swap_def Let_def nth_list_update)

lemma heap_cong:
  assumes "\<And>k. k < n \<Longrightarrow> K k = K' k"
  shows "heap_keys cmp n K = heap_keys cmp n K'"
    and "i < n \<Longrightarrow> heap_up cmp n K i = heap_up cmp n K' i"
    and "i < n \<Longrightarrow> heap_down cmp n K i = heap_down cmp n K' i"
proof -
  have p: "K (par k) = K' (par k)" if "k < n" for k
    using that assms [of "par k"] by (auto simp: par_def)
  have "children_ok cmp n K i = children_ok cmp n K' i" if "i < n"
    using assms p that by (auto simp: children_ok_def)
  then show "i < n \<Longrightarrow> heap_up cmp n K i = heap_up cmp n K' i" "i < n \<Longrightarrow> heap_down cmp n K i = heap_down cmp n K' i"
    using assms p by (auto simp: heap_up_def heap_down_def)
  show "heap_keys cmp n K = heap_keys cmp n K'" using assms p by (auto simp: heap_keys_def)
qed

text \<open>The loops do nothing but swap: what every swap below \<open>n\<close> keeps, they keep.\<close>

lemma towards_top_swaps:
  assumes "\<And>es s i j. I es s \<Longrightarrow> i < n \<Longrightarrow> j < i \<Longrightarrow> I (fst (rqc_pq_element_swap eop es i j s)) (snd (rqc_pq_element_swap eop es i j s))"
    and "i < n" "I es s" "rqc_pq_move_towards_top cmp eop es i s = (i', es', s')"
  shows "I es' s'"
  using assms(2-)
proof (induction i arbitrary: es s rule: less_induct)
  case (less i)
  let ?j = "(i - 1) div 2"
  show ?case
  proof (cases "i = 0 \<or> \<not> cmp (pq_key (es ! ?j)) (pq_key (es ! i))")
    case True
    then have "rqc_pq_move_towards_top cmp eop es i s = (i, es, s)"
      unfolding rqc_pq_move_towards_top.simps [of cmp eop es i] Let_def by auto
    then show ?thesis using less.prems by simp
  next
    case False
    then have j: "?j < i" by auto
    from False less.prems(3) have "rqc_pq_move_towards_top cmp eop (fst (rqc_pq_element_swap eop es i ?j s)) ?j
        (snd (rqc_pq_element_swap eop es i ?j s)) = (i', es', s')"
      by (simp add: rqc_pq_move_towards_top.simps [of cmp eop es i] Let_def split_beta)
    with less.IH [OF j] show ?thesis using assms(1) [OF less.prems(2,1) j] j less.prems(1) by simp
  qed
qed

lemma towards_bottom_swaps:
  assumes "\<And>es s i j. I es s \<Longrightarrow> j < n \<Longrightarrow> i < j \<Longrightarrow> I (fst (rqc_pq_element_swap eop es i j s)) (snd (rqc_pq_element_swap eop es i j s))"
    and "I es s" "rqc_pq_move_towards_bottom cmp eop n es i s = (es', s')"
  shows "I es' s'"
  using assms(2-)
proof (induction "n - i" arbitrary: i es s rule: less_induct)
  case less
  let ?c = "2 * i + 1"
  let ?j = "if ?c < n - 1 \<and> cmp (pq_key (es ! ?c)) (pq_key (es ! (?c + 1))) then ?c + 1 else ?c"
  show ?case
  proof (cases "?c \<le> n - 1 \<and> cmp (pq_key (es ! i)) (pq_key (es ! ?j))")
    case False
    then show ?thesis using less.prems
      by (auto simp: rqc_pq_move_towards_bottom.simps [of cmp eop n es i] Let_def split: if_splits)
  next
    case True
    then have j: "i < ?j" "?j < n" by auto
    from True less.prems(2) have "rqc_pq_move_towards_bottom cmp eop n (fst (rqc_pq_element_swap eop es i ?j s)) ?j
        (snd (rqc_pq_element_swap eop es i ?j s)) = (es', s')"
      by (simp add: rqc_pq_move_towards_bottom.simps [of cmp eop n es i] Let_def split_beta del: One_nat_def)
    with less.hyps [of ?j] show ?thesis using assms(1) [OF less.prems(1) j(2,1)] j by auto
  qed
qed

lemma loops_permute:
  assumes "n \<le> length es"
  shows "i < n \<Longrightarrow> rqc_pq_move_towards_top cmp eop es i s = (i', es', s') \<Longrightarrow> permutes n es es'"
    and "rqc_pq_move_towards_bottom cmp eop n es i s = (es', s') \<Longrightarrow> permutes n es es'"
proof -
  let ?I = "\<lambda>es' s. permutes n es es'"
  have *: "?I (fst (rqc_pq_element_swap eop es' i j s)) x" if "?I es' s" "i < n" "j < n" for es' s i j x
    using that swap_permutes [of i n j es' eop s] assms by (auto simp: permutes_def)
  show "i < n \<Longrightarrow> rqc_pq_move_towards_top cmp eop es i s = (i', es', s') \<Longrightarrow> permutes n es es'"
    by (rule towards_top_swaps [where I = ?I and n = n]) (auto intro: *)
  show "rqc_pq_move_towards_bottom cmp eop n es i s = (es', s') \<Longrightarrow> permutes n es es'"
    by (rule towards_bottom_swaps [where I = ?I and n = n]) (auto intro: *)
qed

context pq_order begin

lemma towards_top_heap:
  assumes "i < n" "n \<le> length es" "heap_up cmp n (keys_of es) i"
    and "rqc_pq_move_towards_top cmp eop es i s = (i', es', s')"
  shows "heap_keys cmp n (keys_of es') \<and> i' < n \<and> es' ! i' = es ! i"
  using assms
proof (induction i arbitrary: es s rule: less_induct)
  case (less i)
  let ?j = "par i" and ?sw = "rqc_pq_element_swap eop es i (par i) s"
  show ?case
  proof (cases "i = 0 \<or> \<not> cmp (pq_key (es ! ?j)) (pq_key (es ! i))")
    case True
    then have "rqc_pq_move_towards_top cmp eop es i s = (i, es, s)"
      unfolding rqc_pq_move_towards_top.simps [of cmp eop es i] Let_def par_def by auto
    then have "i' = i" "es' = es" using less.prems(4) by simp_all
    moreover have "heap_keys cmp n (keys_of es)"
      using True less.prems(3) unfolding heap_up_def heap_keys_def by blast
    ultimately show ?thesis using less.prems(1) by simp
  next
    case False
    then have j: "?j < i" using par_less [of i] by simp
    have rec: "rqc_pq_move_towards_top cmp eop (fst ?sw) ?j (snd ?sw) = (i', es', s')"
      using False less.prems(4) by (simp add: rqc_pq_move_towards_top.simps [of cmp eop es i] Let_def split_beta par_def)
    have len: "n \<le> length (fst ?sw)" "?j < n" using less.prems(1,2) j by (auto simp: rqc_pq_element_swap_def Let_def)
    have eq: "((keys_of es)(i := keys_of es ?j, ?j := keys_of es i)) k = keys_of (fst ?sw) k" if "k < n" for k
      using that less.prems(1,2) j by (simp add: swap_nth)
    have "heap_up cmp n (keys_of (fst ?sw)) ?j"
      using heap_up_swap [OF less.prems(3) _ less.prems(1)] False
        heap_cong(2) [where n = n and i = ?j, OF eq len(2)] by simp
    with less.IH [OF j len(2,1) _ rec] show ?thesis using less.prems(1,2) j by (simp add: swap_nth)
  qed
qed

lemma towards_top_stop:
  assumes "heap_keys cmp n (keys_of es)" "i < n"
  shows "rqc_pq_move_towards_top cmp eop es i s = (i, es, s)"
  using assms by (auto simp: rqc_pq_move_towards_top.simps [of cmp eop es i] Let_def heap_keys_def par_def)

lemma best_child:
  fixes K :: "nat \<Rightarrow> u64"
  assumes "2 * i + 1 \<le> n - 1"
    and j: "j = (if 2 * i + 1 < n - 1 \<and> cmp (K (2 * i + 1)) (K (2 * i + 1 + 1)) then 2 * i + 1 + 1 else 2 * i + 1)"
  shows "0 < j \<and> j < n \<and> par j = i \<and> (\<forall>k. 0 < k \<and> k < n \<and> par k = i \<longrightarrow> \<not> cmp (K j) (K k))"
proof -
  have "par j = i" "0 < j" "j < n" using assms by (auto simp: par_def)
  moreover have "\<not> cmp (K j) (K k)" if "0 < k" "k < n" "par k = i" for k
    using that par_eq_iff [OF that(1), of i] j irrefl asym by (auto split: if_splits)
  ultimately show ?thesis by blast
qed

lemma towards_bottom_heap:
  assumes "n \<le> length es" "heap_down cmp n (keys_of es) i"
    and "rqc_pq_move_towards_bottom cmp eop n es i s = (es', s')"
  shows "heap_keys cmp n (keys_of es')"
  using assms
proof (induction "n - i" arbitrary: i es s rule: less_induct)
  case less
  let ?c = "2 * i + 1"
  define j where "j = (if ?c < n - 1 \<and> cmp (pq_key (es ! ?c)) (pq_key (es ! (?c + 1))) then ?c + 1 else ?c)"
  let ?sw = "rqc_pq_element_swap eop es i j s"
  show ?case
  proof (cases "?c \<le> n - 1")
    case False
    have "par k \<noteq> i" if "0 < k" "k < n" for k using that par_eq_iff [OF that(1), of i] False by auto
    then have "heap_keys cmp n (keys_of es)" using less.prems(2) unfolding heap_down_def heap_keys_def by blast
    then show ?thesis using False less.prems(3)
      by (auto simp: rqc_pq_move_towards_bottom.simps [of cmp eop n es i] Let_def)
  next
    case c: True
    note best = best_child [OF c j_def]
    then have ij: "i < j" "j < n" using par_less [of j] by auto
    show ?thesis
    proof (cases "cmp (pq_key (es ! i)) (pq_key (es ! j))")
      case False
      then have "heap_keys cmp n (keys_of es)"
        using heap_down_stop [OF less.prems(2)] best neg_trans [OF False] by blast
      then show ?thesis using False c less.prems(3) unfolding j_def
        by (auto simp: rqc_pq_move_towards_bottom.simps [of cmp eop n es i] Let_def split: if_splits)
    next
      case True
      have rec: "rqc_pq_move_towards_bottom cmp eop n (fst ?sw) j (snd ?sw) = (es', s')"
        using True c less.prems(3) unfolding j_def
        by (simp add: rqc_pq_move_towards_bottom.simps [of cmp eop n es i] Let_def split_beta del: One_nat_def)
      have len: "n \<le> length (fst ?sw)" using less.prems(1) by (auto simp: rqc_pq_element_swap_def Let_def)
      have eq: "((keys_of es)(j := keys_of es i, i := keys_of es j)) k = keys_of (fst ?sw) k" if "k < n" for k
        using that less.prems(1) ij by (simp add: swap_nth)
      have "heap_down cmp n ((keys_of es)(j := keys_of es i, i := keys_of es j)) j"
        using best True by (intro heap_down_swap [OF less.prems(2)]) auto
      then have "heap_down cmp n (keys_of (fst ?sw)) j"
        using heap_cong(3) [where n = n and i = j, OF eq ij(2)] by simp
      with less.hyps [OF _ len _ rec] show ?thesis using ij by simp
    qed
  qed
qed

lemma towards_bottom_stop:
  assumes "\<And>k. 0 < k \<Longrightarrow> k < n \<Longrightarrow> par k = i \<Longrightarrow> \<not> cmp (pq_key (es ! i)) (pq_key (es ! k))"
  shows "rqc_pq_move_towards_bottom cmp eop n es i s = (es, s)"
proof -
  have 1: "\<not> cmp (pq_key (es ! i)) (pq_key (es ! (2 * i + 1)))" if "2 * i + 1 < n"
    using assms [of "2 * i + 1"] that by (simp add: par_def)
  have 2: "\<not> cmp (pq_key (es ! i)) (pq_key (es ! (2 * i + 1 + 1)))" if "2 * i + 1 + 1 < n"
    using assms [of "2 * i + 1 + 1"] that by (simp add: par_def)
  have n: "2 * i + 1 \<le> n - 1 \<longleftrightarrow> 2 * i + 1 < n" "2 * i + 1 < n - 1 \<longleftrightarrow> 2 * i + 1 + 1 < n" by arith+
  show ?thesis using 1 2
    unfolding rqc_pq_move_towards_bottom.simps [of cmp eop n es i] Let_def n by auto
qed

end

subsection \<open>The queue\<close>

text \<open>The invariant of a queue, and the multiset of elements it stands for.\<close>

definition pq_ok :: "('a, 's) rqc_pq \<Rightarrow> bool" where
  "pq_ok pq \<longleftrightarrow> pq_count pq \<le> capacity pq \<and> length (elements pq) = capacity pq \<and> 0 < capacity pq \<and>
     heap_keys (pq_cmp pq) (pq_count pq) (keys_of (elements pq))"

definition pq_items :: "('a, 's) rqc_pq \<Rightarrow> 'a rqc_pq_element multiset" where
  "pq_items pq = mset (take (pq_count pq) (elements pq))"

text \<open>A block that \<open>malloc\<close> may return for a queue that is full.\<close>

definition pq_block_ok :: "('a, 's) rqc_pq \<Rightarrow> 'a rqc_pq_element list option \<Rightarrow> bool" where
  "pq_block_ok pq block \<longleftrightarrow> (\<forall>buf. block = Some buf \<longrightarrow> length buf = capacity pq * 2)"

lemma size_pq_items: "pq_ok pq \<Longrightarrow> size (pq_items pq) = pq_count pq"
  by (simp add: pq_ok_def pq_items_def)

lemma pq_items_nth: "pq_ok pq \<Longrightarrow> x \<in># pq_items pq \<longleftrightarrow> (\<exists>k < pq_count pq. x = elements pq ! k)"
  by (auto simp: pq_ok_def pq_items_def in_set_conv_nth)

context pq_order begin

lemma push_room:
  assumes "pq_ok pq" "pq_cmp pq = cmp" "pq_count pq < capacity pq"
    and es: "es = (elements pq)[pq_count pq := (key, data)]"
    and up: "rqc_pq_move_towards_top cmp eop es (pq_count pq) s = (i, es', s')"
  shows "pq_ok (pq\<lparr>elements := es', pq_count := pq_count pq + 1\<rparr>) \<and>
    pq_items (pq\<lparr>elements := es', pq_count := pq_count pq + 1\<rparr>) = add_mset (key, data) (pq_items pq) \<and>
    i < pq_count pq + 1 \<and> es' ! i = (key, data)"
proof -
  let ?n = "pq_count pq"
  have len: "length (elements pq) = capacity pq" "?n < length (elements pq)" using assms(1,3) by (simp_all add: pq_ok_def)
  have "heap_keys cmp ?n (keys_of es)"
    using assms(1,2) heap_cong(1) [of ?n "keys_of (elements pq)" "keys_of es" cmp] by (simp add: pq_ok_def es)
  then have "heap_up cmp (?n + 1) (keys_of es) ?n"
    unfolding heap_up_def children_ok_def heap_keys_def using par_less
    by (metis less_Suc_eq Suc_eq_plus1 less_asym)
  from towards_top_heap [OF _ _ this up]
  have h: "heap_keys cmp (?n + 1) (keys_of es')" "i < ?n + 1" "es' ! i = es ! ?n" using len by (auto simp: es)
  have "permutes (?n + 1) es es'" using loops_permute(1) [OF _ _ up] len by (simp add: es)
  then have p: "length es' = capacity pq" "mset (take (?n + 1) es') = mset (take (?n + 1) es)"
    using len by (simp_all add: permutes_def es)
  have "take (?n + 1) es = take ?n (elements pq) @ [(key, data)]"
    using len by (simp add: es take_Suc_conv_app_nth)
  then have "pq_items (pq\<lparr>elements := es', pq_count := ?n + 1\<rparr>) = add_mset (key, data) (pq_items pq)"
    unfolding pq_items_def using p(2) by simp
  then show ?thesis using h p(1) len assms by (simp add: pq_ok_def es)
qed

lemma push_correct:
  assumes "pq_ok pq" "pq_cmp pq = cmp" "pq_block_ok pq block"
    and "rqc_pq_push block pq key data s = (r, pq', s')"
  shows "case r of
     None \<Rightarrow> pq_count pq = capacity pq \<and> block = None \<and> pq' = pq \<and> s' = s
   | Some i \<Rightarrow> pq_ok pq' \<and> pq_cmp pq' = cmp \<and> pq_items pq' = add_mset (key, data) (pq_items pq) \<and>
       i < pq_count pq' \<and> elements pq' ! i = (key, data)"
proof (cases "pq_count pq = capacity pq")
  case full: True
  show ?thesis
  proof (cases block)
    case None
    then show ?thesis using full assms(4) by (auto simp: rqc_pq_push_def)
  next
    case (Some buf)
    let ?pq = "pq\<lparr>elements := overwrite buf 0 (take (capacity pq) (elements pq)), capacity := capacity pq * 2\<rparr>"
    have buf: "length buf = capacity pq * 2" using assms(3) Some by (simp add: pq_block_ok_def)
    have take: "take (pq_count pq) (elements ?pq) = take (pq_count pq) (elements pq)"
      using assms(1) full buf by (simp add: pq_ok_def overwrite_def)
    have "elements ?pq ! k = elements pq ! k" if "k < pq_count pq" for k
      using that take by (metis nth_take)
    then have ok: "pq_ok ?pq"
      using assms(1) full buf heap_cong(1) [of "pq_count pq" "keys_of (elements ?pq)" "keys_of (elements pq)" "pq_cmp pq"]
      by (simp add: pq_ok_def)
    have items: "pq_items ?pq = pq_items pq" unfolding pq_items_def using take by simp
    have lt: "pq_count ?pq < capacity ?pq" using assms(1) full by (simp add: pq_ok_def)
    let ?es = "(elements ?pq)[pq_count ?pq := (key, data)]"
    obtain i es' s'' where up: "rqc_pq_move_towards_top cmp (pq_eop pq) ?es (pq_count ?pq)
        (call_eop (pq_eop pq) ?es (pq_count ?pq) s) = (i, es', s'')"
      by (metis prod_cases3)
    have "(r, pq', s') = (Some i, ?pq\<lparr>elements := es', pq_count := pq_count ?pq + 1\<rparr>, s'')"
      using assms(2,4) full Some up by (simp add: rqc_pq_push_def Let_def)
    then show ?thesis using push_room [OF ok _ lt refl up] assms(2) items by simp
  qed
next
  case False
  then have lt: "pq_count pq < capacity pq" using assms(1) by (simp add: pq_ok_def)
  let ?es = "(elements pq)[pq_count pq := (key, data)]"
  obtain i es' s'' where up: "rqc_pq_move_towards_top cmp (pq_eop pq) ?es (pq_count pq)
      (call_eop (pq_eop pq) ?es (pq_count pq) s) = (i, es', s'')"
    by (metis prod_cases3)
  have "(r, pq', s') = (Some i, pq\<lparr>elements := es', pq_count := pq_count pq + 1\<rparr>, s'')"
    using assms(2,4) False up by (simp add: rqc_pq_push_def Let_def)
  then show ?thesis using push_room [OF assms(1,2) lt refl up] assms(2) by simp
qed

lemma top_correct:
  assumes "pq_ok pq" "pq_cmp pq = cmp"
  shows "case rqc_pq_top pq of
     None \<Rightarrow> pq_items pq = {#}
   | Some e \<Rightarrow> e \<in># pq_items pq \<and> (\<forall>x \<in># pq_items pq. \<not> cmp (pq_key e) (pq_key x))"
proof (cases "pq_count pq = 0")
  case False
  then show ?thesis
    using assms heap_root [of "pq_count pq" "keys_of (elements pq)"]
    by (fastforce simp: rqc_pq_top_def pq_items_nth pq_ok_def dest: arg_cong [where f = fst])
qed (simp add: rqc_pq_top_def pq_items_def)

text \<open>
  Removing slot \<open>k\<close>: the last element takes its place, and one of the two loops repairs the
  heap. When the last element itself is removed, neither loop finds anything to do.
\<close>

lemma remove_loops:
  assumes heap: "heap_keys cmp (n + 1) (keys_of es0)" and len: "n + 1 \<le> length es0" "k \<le> n" "0 < n"
    and es: "es = es0[k := es0 ! n]"
    and down: "rqc_pq_move_towards_bottom cmp eop n es k s = (es1, s1)"
    and up: "rqc_pq_move_towards_top cmp eop es1 k s1 = (i, es2, s2)"
  shows "heap_keys cmp n (keys_of es2) \<and> permutes n es es2 \<and> (es2, s2) = (if k < n then (es2, s2) else (es, s))"
proof -
  have ok: "\<not> cmp (keys_of es0 (par j)) (keys_of es0 j)" if "0 < j" "j \<le> n" for j
    using heap that by (simp add: heap_keys_def)
  show ?thesis
  proof (cases "k < n")
    case False
    then have k: "k = n" and es0: "es = es0" using len(2) es by auto
    have "par j \<noteq> n" if "0 < j" "j < n" for j using par_less [OF that(1)] that(2) by simp
    then have "(es1, s1) = (es, s)" using down towards_bottom_stop [of n k es eop s] k by simp
    moreover have "heap_keys cmp (n + 1) (keys_of es)" using heap es0 by simp
    ultimately have "(es2, s2) = (es, s)" using up towards_top_stop [of "n + 1" es k eop s] k by simp
    moreover have "heap_keys cmp n (keys_of es)" using heap es0 by (simp add: heap_keys_def)
    ultimately show ?thesis using False by simp
  next
    case k: True
    have K: "keys_of es j = (if j = k then keys_of es0 n else keys_of es0 j)" for j
      using len by (simp add: es nth_list_update)
    have other: "\<not> cmp (keys_of es (par j)) (keys_of es j)" if "0 < j" "j < n" "j \<noteq> k" "par j \<noteq> k" for j
      using ok [of j] that K by simp
    have child: "\<not> cmp (keys_of es (par k)) (keys_of es j)" if "0 < k" "0 < j" "j < n" "par j = k" for j
      using ok [of k] ok [of j] that K neg_trans par_less [of k] par_less [of j] by (auto simp: len)
    have ch: "children_ok cmp n (keys_of es) k" using child by (simp add: children_ok_def)
    have lenes: "n \<le> length es" using len es by simp
    have p1: "permutes n es es1" using loops_permute(2) [OF lenes down] .
    then have len1: "n \<le> length es1" using lenes by (simp add: permutes_def)
    have p2: "permutes n es1 es2" using loops_permute(1) [OF len1 k up] .
    have heap2: "heap_keys cmp n (keys_of es2)"
    proof (cases "0 < k \<and> cmp (keys_of es (par k)) (keys_of es k)")
      case True
      have "\<not> cmp (keys_of es k) (keys_of es j)" if "0 < j" "j < n" "par j = k" for j
        using below_trans [OF conjunct2 [OF True]] child [of j] that True by blast
      then have stop: "es1 = es" "s1 = s" using down towards_bottom_stop [of n k es eop s] by simp_all
      have "\<not> cmp (keys_of es (par j)) (keys_of es j)" if "0 < j" "j < n" "j \<noteq> k" for j
        using other [of j] below_trans [OF conjunct2 [OF True]] child [of j] that True by (cases "par j = k") auto
      then have "heap_up cmp n (keys_of es) k" using ch by (simp add: heap_up_def)
      then show ?thesis using towards_top_heap [OF k lenes _ up [unfolded stop]] by simp
    next
      case False
      have "\<not> cmp (keys_of es (par j)) (keys_of es j)" if "0 < j" "j < n" "par j \<noteq> k" for j
        using other [of j] that False by (cases "j = k") auto
      then have "heap_down cmp n (keys_of es) k" using ch by (simp add: heap_down_def)
      from towards_bottom_heap [OF lenes this down] have h: "heap_keys cmp n (keys_of es1)" .
      then show ?thesis using towards_top_stop [OF h k, of eop s1] up by simp
    qed
    then show ?thesis using permutes_trans [OF p1 p2] k by simp
  qed
qed

end

lemma mset_take_update_last:
  "n < length es \<Longrightarrow> k \<le> n \<Longrightarrow> mset (take n (es[k := es ! n])) = mset (take (n + 1) es) - {#es ! k#}"
proof (cases "k = n")
  case False
  assume n: "n < length es" "k \<le> n"
  then have "es ! k \<in># mset (take n es)" using False by (auto simp: in_set_conv_nth intro!: exI [of _ k])
  then have "add_mset (es ! n) (mset (take n es) - {#es ! k#}) = add_mset (es ! n) (mset (take n es)) - {#es ! k#}"
    using diff_union_single_conv [of "es ! k" "mset (take n es)" "{#es ! n#}"] by simp
  with n False have "mset (take n (es[k := es ! n])) = add_mset (es ! n) (mset (take n es)) - {#es ! k#}"
    by (simp add: take_update_swap mset_update)
  then show ?thesis using n by (simp add: take_Suc_conv_app_nth)
qed (simp add: take_Suc_conv_app_nth)

context pq_order begin

lemma remove_correct:
  assumes "pq_ok pq" "pq_cmp pq = cmp" "k < pq_count pq" "rqc_pq_remove pq k s = (pq', s')"
  shows "pq_ok pq' \<and> pq_cmp pq' = cmp \<and> pq_items pq' = pq_items pq - {#elements pq ! k#}"
proof -
  define n where "n = pq_count pq - 1"
  have c: "pq_count pq = n + 1" using assms(3) by (simp add: n_def)
  have len: "n + 1 \<le> length (elements pq)" "k \<le> n" using assms(1,3) c by (simp_all add: pq_ok_def)
  show ?thesis
  proof (cases "n = 0")
    case True
    then have "pq' = pq\<lparr>pq_count := 0\<rparr>" "k = 0" using assms(3,4) c by (auto simp: rqc_pq_remove_def)
    then show ?thesis using assms(1,2) True c len
      by (auto simp: pq_ok_def pq_items_def heap_keys_def take_Suc_conv_app_nth)
  next
    case n: False
    let ?es = "(elements pq)[k := elements pq ! n]"
    obtain es1 s1 where down: "rqc_pq_move_towards_bottom cmp (pq_eop pq) n ?es k (call_eop (pq_eop pq) ?es k s) = (es1, s1)"
      by (metis surj_pair)
    obtain i es2 s2 where up: "rqc_pq_move_towards_top cmp (pq_eop pq) es1 k s1 = (i, es2, s2)" by (metis prod_cases3)
    have pq': "pq' = pq\<lparr>elements := es2, pq_count := n\<rparr>"
      using assms(2,3,4) c n down up by (auto simp: rqc_pq_remove_def Let_def)
    have "heap_keys cmp (n + 1) (keys_of (elements pq))" using assms(1,2) c by (simp add: pq_ok_def)
    from remove_loops [OF this len _ refl down up] n
    have h: "heap_keys cmp n (keys_of es2)" "permutes n ?es es2" by auto
    then have "mset (take n es2) = mset (take (n + 1) (elements pq)) - {#elements pq ! k#}"
      using mset_take_update_last [of n "elements pq" k] len by (simp add: permutes_def)
    then show ?thesis using h assms(1,2) c by (simp add: pq' pq_ok_def pq_items_def permutes_def)
  qed
qed

lemma pop_is_remove:
  assumes "pq_ok pq" "pq_cmp pq = cmp" "rqc_pq_pop pq s = (pq', s')"
  shows "rqc_pq_remove pq 0 s = (pq', s')"
proof (cases "pq_count pq \<le> 1")
  case True
  then show ?thesis using assms(3) by (cases "pq_count pq") (auto simp: rqc_pq_pop_def rqc_pq_remove_def)
next
  case False
  then show ?thesis using assms
    by (auto simp: rqc_pq_pop_def rqc_pq_remove_def Let_def rqc_pq_move_towards_top.simps split: prod.splits)
qed

lemma pop_correct:
  assumes "pq_ok pq" "pq_cmp pq = cmp" "rqc_pq_pop pq s = (pq', s')"
  shows "pq_ok pq' \<and> pq_cmp pq' = cmp \<and>
    pq_items pq' = (case rqc_pq_top pq of None \<Rightarrow> pq_items pq | Some e \<Rightarrow> pq_items pq - {#e#})"
proof (cases "pq_count pq = 0")
  case True
  then show ?thesis using assms by (simp add: rqc_pq_pop_def rqc_pq_top_def)
next
  case False
  then show ?thesis using remove_correct [OF assms(1,2) _ pop_is_remove [OF assms]] by (simp add: rqc_pq_top_def)
qed

end

subsection \<open>What the operations do to the state outside\<close>

text \<open>
  They only call the callback, and only on elements of the queue: a property of the state that
  these calls keep is kept by every operation.
\<close>

lemma set_take_subset: "(\<And>j. j < n \<Longrightarrow> es ! j \<in> E) \<Longrightarrow> n \<le> length es \<Longrightarrow> set (take n es) \<subseteq> E"
  by (metis in_set_conv_nth length_take min.absorb2 nth_take subsetI)

lemma swap_set:
  assumes "set (take n es) \<subseteq> E" "n \<le> length es" "i < n" "j < n"
  shows "set (take n (fst (rqc_pq_element_swap eop es i j s))) \<subseteq> E"
    and "n \<le> length (fst (rqc_pq_element_swap eop es i j s))"
    and "fst (rqc_pq_element_swap eop es i j s) ! i \<in> E" "fst (rqc_pq_element_swap eop es i j s) ! j \<in> E"
proof -
  have E: "es ! k \<in> E" if "k < n" for k
    using subsetD [OF assms(1), of "es ! k"] assms(2) that by (force simp: in_set_conv_nth)
  show "set (take n (fst (rqc_pq_element_swap eop es i j s))) \<subseteq> E"
    using swap_permutes [OF assms(3,4,2), of eop s] assms(1) by (metis permutes_def set_mset_mset)
  show "n \<le> length (fst (rqc_pq_element_swap eop es i j s))"
    using assms(2) by (simp add: rqc_pq_element_swap_def Let_def)
  show "fst (rqc_pq_element_swap eop es i j s) ! i \<in> E" "fst (rqc_pq_element_swap eop es i j s) ! j \<in> E"
    using assms E by (simp_all add: swap_nth)
qed

lemma loops_keep:
  assumes J: "\<And>i e s. J s \<Longrightarrow> e \<in> E \<Longrightarrow> J (f i e s)"
    and "set (take n es) \<subseteq> E" "n \<le> length es" "J s"
  shows "i < n \<Longrightarrow> rqc_pq_move_towards_top cmp (Some f) es i s = (i', es', s') \<Longrightarrow> J s' \<and> set (take n es') \<subseteq> E"
    and "rqc_pq_move_towards_bottom cmp (Some f) n es i s = (es', s') \<Longrightarrow> J s' \<and> set (take n es') \<subseteq> E"
proof -
  let ?I = "\<lambda>es s. set (take n es) \<subseteq> E \<and> n \<le> length es \<and> J s"
  have *: "?I (fst (rqc_pq_element_swap (Some f) es i j s)) (snd (rqc_pq_element_swap (Some f) es i j s))"
    if "?I es s" "i < n" "j < n" for es s i j
    using that swap_set [of n es E i j "Some f" s] J
    by (simp add: rqc_pq_element_swap_def Let_def call_eop_def)
  show "J s' \<and> set (take n es') \<subseteq> E" if "i < n" "rqc_pq_move_towards_top cmp (Some f) es i s = (i', es', s')"
    using towards_top_swaps [where I = ?I and n = n, OF _ that(1) _ that(2)] * assms by simp
  show "J s' \<and> set (take n es') \<subseteq> E" if "rqc_pq_move_towards_bottom cmp (Some f) n es i s = (es', s')"
    using towards_bottom_swaps [where I = ?I and n = n, OF _ _ that] * assms by simp
qed

lemma push_keeps:
  assumes J: "\<And>i e s. J s \<Longrightarrow> e \<in> E \<Longrightarrow> J (f i e s)"
    and "pq_ok pq" "pq_eop pq = Some f" "pq_block_ok pq block" "set_mset (pq_items pq) \<subseteq> E" "(key, data) \<in> E" "J s"
    and "rqc_pq_push block pq key data s = (r, pq', s')"
  shows "J s'"
proof (cases r)
  case None
  then show ?thesis using assms(7,8) by (auto simp: rqc_pq_push_def Let_def split: option.splits if_splits prod.splits)
next
  case (Some i)
  let ?n = "pq_count pq"
  define es0 where "es0 = (if ?n = capacity pq then overwrite (the block) 0 (take (capacity pq) (elements pq)) else elements pq)"
  define es where "es = es0[?n := (key, data)]"
  have len: "?n < length es0" "take ?n es0 = take ?n (elements pq)"
    using assms(2,4,8) Some
    by (auto simp: es0_def pq_ok_def pq_block_ok_def rqc_pq_push_def overwrite_def split: option.splits if_splits)
  then have E: "set (take (?n + 1) es) \<subseteq> E" "?n + 1 \<le> length es" "es ! ?n \<in> E"
    using assms(5,6) by (simp_all add: es_def take_Suc_conv_app_nth pq_items_def)
  obtain i2 es2 s2 where up: "rqc_pq_move_towards_top (pq_cmp pq) (Some f) es ?n (call_eop (Some f) es ?n s) = (i2, es2, s2)"
    by (metis prod_cases3)
  have "s' = s2"
    using assms(3,8) up Some
    by (auto simp: rqc_pq_push_def Let_def es_def es0_def split: option.splits if_splits prod.splits)
  moreover have "J (call_eop (Some f) es ?n s)" using J [OF assms(7) E(3)] by (simp add: call_eop_def)
  ultimately show ?thesis using loops_keep(1) [where J = J and f = f, OF J E(1,2) _ _ up] by simp
qed

lemma remove_keeps:
  assumes J: "\<And>i e s. J s \<Longrightarrow> e \<in> E \<Longrightarrow> J (f i e s)"
    and "pq_ok pq" "pq_eop pq = Some f" "set_mset (pq_items pq) \<subseteq> E" "J s"
    and "rqc_pq_remove pq k s = (pq', s')"
  shows "J s'"
proof (cases "k \<ge> pq_count pq \<or> pq_count pq \<le> 1")
  case True
  then show ?thesis using assms(5,6) by (auto simp: rqc_pq_remove_def split: if_splits)
next
  case False
  define n where "n = pq_count pq - 1"
  have c: "pq_count pq = n + 1" "k < n + 1" using False by (simp_all add: n_def)
  define es where "es = (elements pq)[k := elements pq ! n]"
  have len: "n + 1 \<le> length es" using assms(2) c by (simp add: pq_ok_def es_def)
  have E0: "elements pq ! j \<in> E" if "j < n + 1" for j
    using subsetD [OF assms(4), of "elements pq ! j"] that c by (auto simp: pq_items_nth [OF assms(2)])
  have nth: "es ! j \<in> E" if "j < n + 1" for j
    using E0 that len c by (simp add: es_def nth_list_update)
  have E: "set (take (n + 1) es) \<subseteq> E" "set (take n es) \<subseteq> E" "es ! k \<in> E"
    using set_take_subset [of "n + 1" es E] set_take_subset [of n es E] nth len c(2) by simp_all
  obtain es1 s1 where down: "rqc_pq_move_towards_bottom (pq_cmp pq) (Some f) n es k (call_eop (Some f) es k s) = (es1, s1)"
    by (metis surj_pair)
  obtain i es2 s2 where up: "rqc_pq_move_towards_top (pq_cmp pq) (Some f) es1 k s1 = (i, es2, s2)" by (metis prod_cases3)
  have s': "s' = s2" using assms(3,6) False down up n_def by (auto simp: rqc_pq_remove_def Let_def es_def)
  have "J (call_eop (Some f) es k s)" using J [OF assms(5) E(3)] by (simp add: call_eop_def)
  then have d: "J s1" "permutes n es es1" "set (take n es1) \<subseteq> E"
    using loops_keep(2) [where J = J and f = f, OF J E(2) _ _ down] loops_permute(2) [OF _ down] len by auto
  have last: "es1 ! n = es ! n"
    by (rule towards_bottom_swaps [where I = "\<lambda>es' s. es' ! n = es ! n" and n = n, OF _ _ down])
      (auto simp: rqc_pq_element_swap_def Let_def)
  have "take (n + 1) es1 = take n es1 @ [es ! n]"
    using d(2) len last by (simp add: permutes_def take_Suc_conv_app_nth)
  moreover have "es ! n \<in> E" using subsetD [OF E(1), of "es ! n"] len by (force simp: in_set_conv_nth)
  ultimately have "set (take (n + 1) es1) \<subseteq> E" using d(3) by simp
  then show ?thesis using loops_keep(1) [where J = J and f = f and E = E, OF J _ _ d(1) c(2) up] d(2) len s' by (simp add: permutes_def)
qed

subsection \<open>Elements that know their slot\<close>

text \<open>
  A callback that records the slot of an element, as the engine's does: \<open>pos s d\<close> is the index
  recorded for the data \<open>d\<close>, for the data that is \<open>valid\<close>. \<open>indexed n es s\<close> says that the record
  is right for the first \<open>n\<close> slots.
\<close>

locale pq_tracking =
  fixes eop :: "nat \<Rightarrow> 'a rqc_pq_element \<Rightarrow> 's \<Rightarrow> 's"
    and pos :: "'s \<Rightarrow> 'a \<Rightarrow> nat"
    and valid :: "'a \<Rightarrow> bool"
  assumes pos_eop: "valid (snd e) \<Longrightarrow> pos (eop i e s) (snd e) = i"
    and pos_other: "valid (snd e) \<Longrightarrow> valid d \<Longrightarrow> d \<noteq> snd e \<Longrightarrow> pos (eop i e s) d = pos s d"
begin

definition indexed :: "nat \<Rightarrow> 'a rqc_pq_element list \<Rightarrow> 's \<Rightarrow> bool" where
  "indexed n es s \<longleftrightarrow> (\<forall>k < n. valid (snd (es ! k)) \<and> pos s (snd (es ! k)) = k)"

lemma indexed_distinct: "indexed n es s \<Longrightarrow> i < n \<Longrightarrow> j < n \<Longrightarrow> snd (es ! i) = snd (es ! j) \<Longrightarrow> i = j"
  unfolding indexed_def by metis

text \<open>One call of the callback, for the element just stored into slot \<open>i\<close>.\<close>

lemma indexed_store:
  assumes "\<And>k. k < n \<Longrightarrow> k \<noteq> i \<Longrightarrow> valid (snd (es ! k)) \<and> pos s (snd (es ! k)) = k \<and> snd (es ! k) \<noteq> snd (es ! i)"
    and "valid (snd (es ! i))"
  shows "indexed n es (call_eop (Some eop) es i s)"
  unfolding indexed_def call_eop_def
proof (intro allI impI)
  fix k assume "k < n"
  then show "valid (snd (es ! k)) \<and> pos (case Some eop of None \<Rightarrow> s | Some f \<Rightarrow> f i (es ! i) s) (snd (es ! k)) = k"
    using assms(1) [of k] assms(2) pos_eop [of "es ! i"] pos_other [of "es ! i" "snd (es ! k)"] by (cases "k = i") auto
qed

lemma indexed_swap:
  assumes "indexed n es s" "i < n" "j < n" "i \<noteq> j" "n \<le> length es"
  shows "indexed n (fst (rqc_pq_element_swap (Some eop) es i j s)) (snd (rqc_pq_element_swap (Some eop) es i j s))"
proof -
  define es' where "es' = (es[j := es ! i])[i := es ! j]"
  have nth: "es' ! k = (if k = i then es ! j else if k = j then es ! i else es ! k)" if "k < n" for k
    using that assms by (simp add: es'_def nth_list_update)
  have d: "snd (es ! k) \<noteq> snd (es ! l)" if "k < n" "l < n" "k \<noteq> l" for k l
    using indexed_distinct [OF assms(1) that(1,2)] that(3) by blast
  have v: "valid (snd (es ! k))" "pos s (snd (es ! k)) = k" if "k < n" for k
    using assms(1) that by (simp_all add: indexed_def)
  let ?s = "call_eop (Some eop) es' i s"
  have p: "pos ?s (snd (es' ! k)) = k" if "k < n" "k \<noteq> j" for k
    using that assms(2-4) nth v d pos_eop [of "es' ! i" i s] pos_other [of "es' ! i" "snd (es' ! k)" i s]
    by (auto simp: call_eop_def)
  have "indexed n es' (call_eop (Some eop) es' j ?s)"
    by (rule indexed_store) (use p nth v d assms(2-4) in \<open>auto\<close>)
  then show ?thesis by (simp add: rqc_pq_element_swap_def Let_def es'_def)
qed

lemma loops_indexed:
  assumes "indexed n es s" "n \<le> length es"
  shows "i < n \<Longrightarrow> rqc_pq_move_towards_top cmp (Some eop) es i s = (i', es', s') \<Longrightarrow> indexed n es' s'"
    and "rqc_pq_move_towards_bottom cmp (Some eop) n es i s = (es', s') \<Longrightarrow> indexed n es' s'"
proof -
  let ?I = "\<lambda>es s. indexed n es s \<and> n \<le> length es"
  have *: "?I (fst (rqc_pq_element_swap (Some eop) es i j s)) (snd (rqc_pq_element_swap (Some eop) es i j s))"
    if "?I es s" "i < n" "j < n" "i \<noteq> j" for es s i j
    using that indexed_swap [of n es s i j] by (auto simp: rqc_pq_element_swap_def Let_def)
  show "indexed n es' s'" if "i < n" "rqc_pq_move_towards_top cmp (Some eop) es i s = (i', es', s')"
    by (rule towards_top_swaps [where I = ?I and n = n, THEN conjunct1, OF _ that(1) _ that(2)])
      (use * assms in simp_all)
  show "indexed n es' s'" if "rqc_pq_move_towards_bottom cmp (Some eop) n es i s = (es', s')"
    by (rule towards_bottom_swaps [where I = ?I and n = n, THEN conjunct1, OF _ _ that])
      (use * assms in simp_all)
qed

text \<open>What the operations keep of the record of slots.\<close>

definition pq_indexed :: "('a, 's) rqc_pq \<Rightarrow> 's \<Rightarrow> bool" where
  "pq_indexed pq s \<longleftrightarrow> pq_eop pq = Some eop \<and> indexed (pq_count pq) (elements pq) s"

lemma push_indexed:
  assumes "pq_ok pq" "pq_indexed pq s" "pq_block_ok pq block" "valid data"
    and new: "\<And>k. k < pq_count pq \<Longrightarrow> snd (elements pq ! k) \<noteq> data"
    and "rqc_pq_push block pq key data s = (Some i, pq', s')"
  shows "pq_indexed pq' s'"
proof -
  let ?n = "pq_count pq"
  define es0 where "es0 = (if ?n = capacity pq then overwrite (the block) 0 (take (capacity pq) (elements pq)) else elements pq)"
  define es where "es = es0[?n := (key, data)]"
  have len: "?n < length es0" "\<And>k. k < ?n \<Longrightarrow> es0 ! k = elements pq ! k"
    using assms(1,3,6) by (auto simp: es0_def pq_ok_def pq_block_ok_def rqc_pq_push_def nth_overwrite split: option.splits if_splits)
  have old: "valid (snd (elements pq ! k))" "pos s (snd (elements pq ! k)) = k" if "k < ?n" for k
    using assms(2) that by (simp_all add: pq_indexed_def indexed_def)
  have st: "indexed (?n + 1) es (call_eop (Some eop) es ?n s)"
    by (rule indexed_store) (use len old new assms(4) in \<open>auto simp: es_def less_Suc_eq\<close>)
  obtain i2 es2 s2 where up: "rqc_pq_move_towards_top (pq_cmp pq) (Some eop) es ?n (call_eop (Some eop) es ?n s) = (i2, es2, s2)"
    by (metis prod_cases3)
  have "elements pq' = es2 \<and> pq_count pq' = ?n + 1 \<and> pq_eop pq' = Some eop \<and> s' = s2"
    using assms(2,6) up
    by (auto simp: rqc_pq_push_def Let_def es_def es0_def pq_indexed_def split: option.splits if_splits prod.splits)
  then show ?thesis using loops_indexed(1) [OF st _ _ up] len(1) by (simp add: pq_indexed_def es_def)
qed

lemma remove_indexed:
  assumes "pq_ok pq" "pq_indexed pq s" "k < pq_count pq" "rqc_pq_remove pq k s = (pq', s')" "pq_order (pq_cmp pq)"
  shows "pq_indexed pq' s'"
proof -
  define n where "n = pq_count pq - 1"
  have c: "pq_count pq = n + 1" using assms(3) by (simp add: n_def)
  have eop: "pq_eop pq = Some eop" using assms(2) by (simp add: pq_indexed_def)
  have len: "n + 1 \<le> length (elements pq)" "k \<le> n" using assms(1,3) c by (simp_all add: pq_ok_def)
  have idx: "indexed (n + 1) (elements pq) s" using assms(2) c by (simp add: pq_indexed_def)
  show ?thesis
  proof (cases "n = 0")
    case True
    then show ?thesis using assms(3,4) c eop by (auto simp: rqc_pq_remove_def pq_indexed_def indexed_def)
  next
    case n: False
    define es where "es = (elements pq)[k := elements pq ! n]"
    have old: "valid (snd (elements pq ! j))" "pos s (snd (elements pq ! j)) = j" if "j \<le> n" for j
      using idx that by (simp_all add: indexed_def)
    have d: "snd (elements pq ! j) \<noteq> snd (elements pq ! n)" if "j < n" for j
      using indexed_distinct [OF idx, of j n] that by auto
    have st: "indexed n es (call_eop (Some eop) es k s)"
      by (rule indexed_store) (use len old d in \<open>auto simp: es_def nth_list_update\<close>)
    obtain es1 s1 where down: "rqc_pq_move_towards_bottom (pq_cmp pq) (Some eop) n es k (call_eop (Some eop) es k s) = (es1, s1)"
      by (metis surj_pair)
    obtain i es2 s2 where up: "rqc_pq_move_towards_top (pq_cmp pq) (Some eop) es1 k s1 = (i, es2, s2)" by (metis prod_cases3)
    have r: "pq' = pq\<lparr>elements := es2, pq_count := n\<rparr>" "s' = s2"
      using assms(3,4) c n down up eop by (auto simp: rqc_pq_remove_def Let_def es_def)
    have len1: "n \<le> length es" "n \<le> length es1"
      using len loops_permute(2) [OF _ down] by (simp_all add: es_def permutes_def)
    have i1: "indexed n es1 s1" using loops_indexed(2) [OF st len1(1) down] .
    have "indexed n es2 s2"
    proof (cases "k < n")
      case True
      then show ?thesis using loops_indexed(1) [OF i1 len1(2) _ up] by simp
    next
      case False
      have "heap_keys (pq_cmp pq) (n + 1) (keys_of (elements pq))" using assms(1) c by (simp add: pq_ok_def)
      from pq_order.remove_loops [OF assms(5) this len _ es_def down up] n False
      show ?thesis using st by auto
    qed
    then show ?thesis using r eop by (simp add: pq_indexed_def)
  qed
qed

end

subsection \<open>The contract of a priority queue\<close>

text \<open>
  What the clients rely on, with \<open>before a b\<close> for \<open>a\<close> not coming after \<open>b\<close>: \<open>top\<close> shows a first
  element and \<open>pop\<close> removes exactly it. A loop that takes the top element until there is none
  therefore sees all of them, in order.
\<close>

locale priority_queue =
  fixes inv :: "'q \<Rightarrow> bool" and items :: "'q \<Rightarrow> 'a rqc_pq_element multiset"
    and top :: "'q \<Rightarrow> 'a rqc_pq_element option" and pop :: "'q \<Rightarrow> 'q"
    and before :: "u64 \<Rightarrow> u64 \<Rightarrow> bool"
  assumes top_None: "inv q \<Longrightarrow> top q = None \<Longrightarrow> items q = {#}"
    and top_Some: "inv q \<Longrightarrow> top q = Some e \<Longrightarrow> e \<in># items q \<and> (\<forall>x \<in># items q. before (pq_key e) (pq_key x))"
    and pop_inv: "inv q \<Longrightarrow> inv (pop q)"
    and pop_items: "inv q \<Longrightarrow> top q = Some e \<Longrightarrow> items (pop q) = items q - {#e#}"
begin

fun drain :: "nat \<Rightarrow> 'q \<Rightarrow> 'a rqc_pq_element list" where
  "drain 0 q = []"
| "drain (Suc n) q = (case top q of None \<Rightarrow> [] | Some e \<Rightarrow> e # drain n (pop q))"

lemma drain_sorted:
  "inv q \<Longrightarrow> size (items q) \<le> n \<Longrightarrow>
   mset (drain n q) = items q \<and> sorted_wrt (\<lambda>a b. before (pq_key a) (pq_key b)) (drain n q)"
proof (induction n arbitrary: q)
  case (Suc n)
  show ?case
  proof (cases "top q")
    case None
    then show ?thesis using top_None [OF Suc.prems(1)] by simp
  next
    case (Some e)
    note e = top_Some [OF Suc.prems(1) Some] and pop = pop_items [OF Suc.prems(1) Some]
    have "size (items (pop q)) \<le> n" using Suc.prems(2) e pop by (simp add: size_Diff_singleton)
    from Suc.IH [OF pop_inv [OF Suc.prems(1)] this] e pop Some show ?thesis
      by (auto simp: in_diffD simp flip: set_mset_mset)
  qed
qed simp

end

definition min_pq :: "('a, 's) rqc_pq \<times> 's \<Rightarrow> bool" where
  "min_pq q \<longleftrightarrow> pq_ok (fst q) \<and> pq_cmp (fst q) = rqc_pq_revert_cmp"

interpretation max_first: pq_order rqc_pq_default_cmp
  by unfold_locales (auto simp: rqc_pq_default_cmp_def)

interpretation min_first: pq_order rqc_pq_revert_cmp
  by unfold_locales (auto simp: rqc_pq_revert_cmp_def)

interpretation mq: priority_queue min_pq "\<lambda>q. pq_items (fst q)" "\<lambda>q. rqc_pq_top (fst q)" "\<lambda>(pq, s). rqc_pq_pop pq s" "(\<le>)"
proof (unfold_locales, goal_cases)
  case (1 q)
  then show ?case using min_first.top_correct [of "fst q"] by (simp add: min_pq_def)
next
  case (2 q e)
  then show ?case using min_first.top_correct [of "fst q"] by (auto simp: min_pq_def rqc_pq_revert_cmp_def not_less)
next
  case (3 q)
  then show ?case using min_first.pop_correct [of "fst q" "snd q", OF _ _ prod.collapse [symmetric]]
    by (simp add: min_pq_def split_beta)
next
  case (4 q e)
  then show ?case using min_first.pop_correct [of "fst q" "snd q", OF _ _ prod.collapse [symmetric]]
    by (simp add: min_pq_def split_beta)
qed

subsection \<open>Properties\<close>

text \<open>The loop \<open>while (!rqc_pq_empty(pq)) { e = rqc_pq_top(pq); rqc_pq_pop(pq); ... }\<close> of the clients, run for at most \<open>n\<close> rounds.\<close>

fun pq_drain :: "nat \<Rightarrow> ('a, 's) rqc_pq \<Rightarrow> 's \<Rightarrow> 'a rqc_pq_element list" where
  "pq_drain 0 pq s = []"
| "pq_drain (Suc n) pq s =
     (if rqc_pq_empty pq then []
      else case rqc_pq_top pq of
             None \<Rightarrow> []
           | Some e \<Rightarrow> e # (case rqc_pq_pop pq s of (pq', s') \<Rightarrow> pq_drain n pq' s'))"

lemma rqc_pq_empty_iff: "rqc_pq_empty pq \<longleftrightarrow> rqc_pq_top pq = None"
  by (simp add: rqc_pq_empty_def rqc_pq_top_def)

lemma pq_drain_eq: "pq_drain n pq s = mq.drain n (pq, s)"
  by (induction n arbitrary: pq s) (auto simp: rqc_pq_empty_iff split: option.splits prod.splits)

text \<open>
  C28: the binary heap with the reverted comparison (the engine's queues) implements a priority
  queue over a multiset of elements: every operation keeps the heap invariant; pushing adds
  exactly the element, fails only when the block is full and no larger one can be allocated, and
  returns the slot the element ends in; the top is an element with the smallest key; popping
  removes exactly the top; removing a slot removes exactly its element; any slot index outside
  the queue changes nothing.
\<close>

theorem rqc_pq_refines_multiset:
  fixes pq :: "('a, 's) rqc_pq"
  assumes "pq_ok pq" and "pq_cmp pq = rqc_pq_revert_cmp" and "pq_block_ok pq block"
  shows "(\<forall>r pq' s'. rqc_pq_push block pq key data s = (r, pq', s') \<longrightarrow>
      (case r of
         None \<Rightarrow> pq_count pq = capacity pq \<and> block = None \<and> pq' = pq \<and> s' = s
       | Some i \<Rightarrow> pq_ok pq' \<and> pq_cmp pq' = rqc_pq_revert_cmp \<and> pq_items pq' = add_mset (key, data) (pq_items pq) \<and>
           i < pq_count pq' \<and> elements pq' ! i = (key, data))) \<and>
    (case rqc_pq_top pq of
       None \<Rightarrow> pq_items pq = {#}
     | Some e \<Rightarrow> e \<in># pq_items pq \<and> (\<forall>x \<in># pq_items pq. fst e \<le> fst x)) \<and>
    (\<forall>pq' s'. rqc_pq_pop pq s = (pq', s') \<longrightarrow> pq_ok pq' \<and> pq_cmp pq' = rqc_pq_revert_cmp \<and>
       pq_items pq' = (case rqc_pq_top pq of None \<Rightarrow> pq_items pq | Some e \<Rightarrow> pq_items pq - {#e#})) \<and>
    (\<forall>k pq' s'. rqc_pq_remove pq k s = (pq', s') \<longrightarrow>
       (if k < pq_count pq then pq_ok pq' \<and> pq_cmp pq' = rqc_pq_revert_cmp \<and> pq_items pq' = pq_items pq - {#elements pq ! k#}
        else pq' = pq \<and> s' = s))"
proof (intro conjI allI impI)
  show "case r of
         None \<Rightarrow> pq_count pq = capacity pq \<and> block = None \<and> pq' = pq \<and> s' = s
       | Some i \<Rightarrow> pq_ok pq' \<and> pq_cmp pq' = rqc_pq_revert_cmp \<and> pq_items pq' = add_mset (key, data) (pq_items pq) \<and>
           i < pq_count pq' \<and> elements pq' ! i = (key, data)"
    if "rqc_pq_push block pq key data s = (r, pq', s')" for r pq' s'
    by (rule min_first.push_correct [OF assms that])
  show "case rqc_pq_top pq of
       None \<Rightarrow> pq_items pq = {#}
     | Some e \<Rightarrow> e \<in># pq_items pq \<and> (\<forall>x \<in># pq_items pq. fst e \<le> fst x)"
    using min_first.top_correct [OF assms(1,2)] by (auto simp: rqc_pq_revert_cmp_def not_less split: option.splits)
  show "pq_ok pq'" "pq_cmp pq' = rqc_pq_revert_cmp"
    "pq_items pq' = (case rqc_pq_top pq of None \<Rightarrow> pq_items pq | Some e \<Rightarrow> pq_items pq - {#e#})"
    if "rqc_pq_pop pq s = (pq', s')" for pq' s'
    using min_first.pop_correct [OF assms(1,2) that] by simp_all
  show "if k < pq_count pq then pq_ok pq' \<and> pq_cmp pq' = rqc_pq_revert_cmp \<and> pq_items pq' = pq_items pq - {#elements pq ! k#}
        else pq' = pq \<and> s' = s" if "rqc_pq_remove pq k s = (pq', s')" for k pq' s'
    using min_first.remove_correct [OF assms(1,2) _ that] that by (auto simp: rqc_pq_remove_def)
qed

definition pq_example :: "(string, unit) rqc_pq" where
  "pq_example = \<lparr>elements = [(3, ''a''), (5, ''b'')], pq_count = 2, capacity = 2, pq_cmp = rqc_pq_revert_cmp, pq_eop = None\<rparr>"

lemma pq_example_ok: "pq_ok pq_example" "pq_cmp pq_example = rqc_pq_revert_cmp"
  "pq_items pq_example = {#(3, ''a''), (5, ''b'')#}" "capacity pq_example = 2"
proof -
  have "heap_keys rqc_pq_revert_cmp 2 (keys_of [(3, ''a''), (5, ''b'')])"
    by (auto simp: heap_keys_def par_def rqc_pq_revert_cmp_def less_2_cases_iff)
  then show "pq_ok pq_example" by (simp add: pq_ok_def pq_example_def)
qed (simp_all add: pq_example_def pq_items_def)

theorem rqc_pq_refines_multiset_witness:
  "case rqc_pq_push (Some (replicate 4 (0, []))) pq_example 1 ''c'' () of (r, pq', _) \<Rightarrow>
     r \<noteq> None \<and> pq_ok pq' \<and> pq_items pq' = {#(1, ''c''), (3, ''a''), (5, ''b'')#}"
proof -
  obtain r pq' where "rqc_pq_push (Some (replicate 4 (0, []))) pq_example 1 ''c'' () = (r, pq', ())"
    by (metis prod_cases3 old.unit.exhaust)
  then show ?thesis
    using rqc_pq_refines_multiset [where pq = pq_example and block = "Some (replicate 4 (0, []))" and key = 1
        and data = "''c''" and s = "()", THEN conjunct1]
    by (force simp: pq_example_ok pq_block_ok_def split: option.splits)
qed

text \<open>
  C29: taking the top of an engine queue until it is empty ends after as many rounds as there are
  elements, and delivers every element exactly once, in the order of the keys.
\<close>

theorem pq_drain_sorted:
  fixes pq :: "('a, 's) rqc_pq"
  assumes "pq_ok pq" and "pq_cmp pq = rqc_pq_revert_cmp" and "pq_count pq \<le> n"
  shows "mset (pq_drain n pq s) = pq_items pq \<and> sorted (map fst (pq_drain n pq s)) \<and> length (pq_drain n pq s) = pq_count pq"
proof -
  note size_pq_items [OF assms(1)]
  then have "mset (pq_drain n pq s) = pq_items pq \<and> sorted_wrt (\<lambda>a b. fst a \<le> fst b) (pq_drain n pq s)"
    using mq.drain_sorted [of "(pq, s)" n] assms by (simp add: pq_drain_eq min_pq_def)
  moreover from this have "length (pq_drain n pq s) = pq_count pq"
    using \<open>size (pq_items pq) = pq_count pq\<close> by (metis size_mset)
  ultimately show ?thesis by (simp add: sorted_wrt_map)
qed

theorem pq_drain_sorted_witness: "sorted (map fst (pq_drain 2 pq_example ())) \<and> length (pq_drain 2 pq_example ()) = 2"
  using pq_drain_sorted [OF pq_example_ok(1,2), of 2 "()"] by (simp add: pq_example_def)

end
