(* ===== verification/Rqc_Engine_Sched.thy ===== *)
theory Rqc_Engine_Sched
  imports Rqc_Priority_Q
begin

text \<open>
  The scheduling of connections in \<open>src/transport/rqc_engine.c\<close> and the queue functions of
  \<open>src/transport/rqc_utils.c\<close>: a connection waits in one of two priority queues, the active
  one (ordered by \<open>last_ticked_time\<close>) or the one for connections to wake up later (ordered by
  \<open>next_tick_time\<close>). The flags of the connection say in which, and \<open>wakeup_pq_index\<close>, kept up to
  date by the callback of both queues, says at which slot.

  A connection pointer is a value of a type \<open>'c\<close>; the fields of the connections that matter here
  are a store \<open>'c \<Rightarrow> rqc_conn_sched\<close>. \<open>alloc n\<close> is what \<open>malloc\<close> returns for a block of \<open>n\<close>
  elements.
\<close>

subsection \<open>State\<close>

abbreviation "RQC_CONN_FLAG_WAIT_WAKEUP \<equiv> (0x1 :: u64)"
abbreviation "RQC_CONN_FLAG_TICKING \<equiv> (0x10 :: u64)"

record rqc_conn_sched =
  wakeup_pq_index :: nat
  conn_flag :: u64
  next_tick_time :: u64
  last_ticked_time :: u64

type_synonym 'c conns = "'c \<Rightarrow> rqc_conn_sched"
type_synonym 'c conns_pq = "('c option, 'c conns) rqc_pq"
type_synonym 'c pq_alloc = "nat \<Rightarrow> 'c option rqc_pq_element list option"

record 'c rqc_engine =
  conns_active_pq :: "'c conns_pq"
  conns_wait_wakeup_pq :: "'c conns_pq"
  eng_conns :: "'c conns"

definition rqc_engine_conn_pq_operator :: "nat \<Rightarrow> 'c option rqc_pq_element \<Rightarrow> 'c conns \<Rightarrow> 'c conns" where
  "rqc_engine_conn_pq_operator i e s =
     (case snd e of None \<Rightarrow> s | Some conn \<Rightarrow> s(conn := (s conn)\<lparr>wakeup_pq_index := i\<rparr>))"

text \<open>\<open>sizeof(rqc_conns_pq_elem_t)\<close> is 16.\<close>

definition rqc_engine_conns_pq_create :: "'c pq_alloc \<Rightarrow> nat \<Rightarrow> 'c conns_pq option" where
  "rqc_engine_conns_pq_create alloc cap =
     (case rqc_pq_init (alloc cap) 16 cap rqc_pq_revert_cmp (Some rqc_engine_conn_pq_operator) of
        Inl _ \<Rightarrow> None
      | Inr q \<Rightarrow> Some q)"

subsection \<open>Queue functions\<close>

definition rqc_conns_pq_push ::
  "'c pq_alloc \<Rightarrow> 'c conns_pq \<Rightarrow> 'c \<Rightarrow> u64 \<Rightarrow> 'c conns \<Rightarrow> int \<times> 'c conns_pq \<times> 'c conns" where
  "rqc_conns_pq_push alloc pq conn time_us s =
     (case rqc_pq_push (alloc (capacity pq * 2)) pq time_us (Some conn) s of
        (None, pq', s') \<Rightarrow> (- RQC_EMALLOC, pq', s')
      | (Some _, pq', s') \<Rightarrow> (0, pq', s'))"

definition rqc_conns_pq_pop_top_conn :: "'c conns_pq \<Rightarrow> 'c conns \<Rightarrow> 'c option \<times> 'c conns_pq \<times> 'c conns" where
  "rqc_conns_pq_pop_top_conn pq s =
     (case rqc_pq_top pq of
        None \<Rightarrow> (None, rqc_pq_pop pq s)
      | Some el \<Rightarrow> (snd el, rqc_pq_pop pq s))"

definition rqc_conns_pq_remove :: "'c conns_pq \<Rightarrow> 'c \<Rightarrow> 'c conns \<Rightarrow> 'c conns_pq \<times> 'c conns" where
  "rqc_conns_pq_remove pq conn s = rqc_pq_remove pq (wakeup_pq_index (s conn)) s"

subsection \<open>Moving a connection between the queues\<close>

definition set_flag :: "u64 \<Rightarrow> 'c \<Rightarrow> 'c conns \<Rightarrow> 'c conns" where
  "set_flag fl conn s = s(conn := (s conn)\<lparr>conn_flag := conn_flag (s conn) OR fl\<rparr>)"

definition clear_flag :: "u64 \<Rightarrow> 'c \<Rightarrow> 'c conns \<Rightarrow> 'c conns" where
  "clear_flag fl conn s = s(conn := (s conn)\<lparr>conn_flag := conn_flag (s conn) AND NOT fl\<rparr>)"

definition rqc_engine_add_wakeup_queue :: "'c pq_alloc \<Rightarrow> 'c rqc_engine \<Rightarrow> 'c \<Rightarrow> int \<times> 'c rqc_engine" where
  "rqc_engine_add_wakeup_queue alloc engine conn =
     (if conn_flag (eng_conns engine conn) AND (RQC_CONN_FLAG_WAIT_WAKEUP OR RQC_CONN_FLAG_TICKING) = 0 then
        (case rqc_conns_pq_push alloc (conns_wait_wakeup_pq engine) conn
                (next_tick_time (eng_conns engine conn)) (eng_conns engine) of
           (ret, pq, s) \<Rightarrow>
             if ret \<noteq> 0 then (- RQC_EMALLOC, engine\<lparr>conns_wait_wakeup_pq := pq, eng_conns := s\<rparr>)
             else (0, engine\<lparr>conns_wait_wakeup_pq := pq, eng_conns := set_flag RQC_CONN_FLAG_WAIT_WAKEUP conn s\<rparr>))
      else (0, engine))"

definition rqc_engine_remove_wakeup_queue :: "'c rqc_engine \<Rightarrow> 'c \<Rightarrow> 'c rqc_engine" where
  "rqc_engine_remove_wakeup_queue engine conn =
     (if conn_flag (eng_conns engine conn) AND RQC_CONN_FLAG_WAIT_WAKEUP \<noteq> 0 then
        (case rqc_conns_pq_remove (conns_wait_wakeup_pq engine) conn (eng_conns engine) of
           (pq, s) \<Rightarrow> engine\<lparr>conns_wait_wakeup_pq := pq, eng_conns := clear_flag RQC_CONN_FLAG_WAIT_WAKEUP conn s\<rparr>)
      else engine)"

definition rqc_engine_add_active_queue :: "'c pq_alloc \<Rightarrow> 'c rqc_engine \<Rightarrow> 'c \<Rightarrow> int \<times> 'c rqc_engine" where
  "rqc_engine_add_active_queue alloc engine conn =
     (if conn_flag (eng_conns engine conn) AND (RQC_CONN_FLAG_WAIT_WAKEUP OR RQC_CONN_FLAG_TICKING) = 0 then
        (case rqc_conns_pq_push alloc (conns_active_pq engine) conn
                (last_ticked_time (eng_conns engine conn)) (eng_conns engine) of
           (ret, pq, s) \<Rightarrow>
             if ret = 0 then (0, engine\<lparr>conns_active_pq := pq, eng_conns := set_flag RQC_CONN_FLAG_TICKING conn s\<rparr>)
             else (ret, engine\<lparr>conns_active_pq := pq, eng_conns := s\<rparr>))
      else (0, engine))"

definition rqc_engine_remove_active_queue :: "'c rqc_engine \<Rightarrow> 'c \<Rightarrow> 'c rqc_engine" where
  "rqc_engine_remove_active_queue engine conn =
     (if conn_flag (eng_conns engine conn) AND RQC_CONN_FLAG_TICKING \<noteq> 0 then
        (case rqc_conns_pq_remove (conns_active_pq engine) conn (eng_conns engine) of
           (pq, s) \<Rightarrow> engine\<lparr>conns_active_pq := pq, eng_conns := clear_flag RQC_CONN_FLAG_TICKING conn s\<rparr>)
      else engine)"

definition rqc_engine_wakeup_after :: "'c rqc_engine \<Rightarrow> u64 \<Rightarrow> u64" where
  "rqc_engine_wakeup_after engine now =
     (case rqc_pq_top (conns_wait_wakeup_pq engine) of
        Some el \<Rightarrow> if fst el > now then fst el - now else 1
      | None \<Rightarrow> 0)"

text \<open>
  The first loop of \<open>rqc_engine_main_logic\<close>: connections whose time has come become active.
  \<open>errs\<close> lists the connections for which \<open>RQC_CONN_ERR(conn, TRA_INTERNAL_ERROR)\<close> is raised.
  \<open>fuel\<close> bounds the rounds; \<open>None\<close> means that it was used up.
\<close>

fun main_logic_wakeup :: "nat \<Rightarrow> 'c pq_alloc \<Rightarrow> u64 \<Rightarrow> 'c rqc_engine \<Rightarrow> 'c list \<Rightarrow> ('c rqc_engine \<times> 'c list) option" where
  "main_logic_wakeup 0 alloc now engine errs = None"
| "main_logic_wakeup (Suc fuel) alloc now engine errs =
     (if rqc_pq_empty (conns_wait_wakeup_pq engine) then Some (engine, errs)
      else case rqc_pq_top (conns_wait_wakeup_pq engine) of
             Some (time_us, Some conn) \<Rightarrow>
               if time_us \<le> now then
                 (let engine = rqc_engine_remove_wakeup_queue engine conn;
                      (ret, engine) = rqc_engine_add_active_queue alloc engine conn
                  in main_logic_wakeup fuel alloc now engine (if ret \<noteq> 0 then errs @ [conn] else errs))
               else Some (engine, errs)
           | _ \<Rightarrow>
               (case rqc_pq_pop (conns_wait_wakeup_pq engine) (eng_conns engine) of
                  (pq, s) \<Rightarrow> main_logic_wakeup fuel alloc now
                    (engine\<lparr>conns_wait_wakeup_pq := pq, eng_conns := s\<rparr>) errs))"

declare main_logic_wakeup.simps(2) [simp del]

subsection \<open>Invariant\<close>

definition has_flag :: "u64 \<Rightarrow> rqc_conn_sched \<Rightarrow> bool" where
  "has_flag fl conn \<longleftrightarrow> conn_flag conn AND fl \<noteq> 0"

text \<open>The connections of a queue, with their keys.\<close>

definition queued :: "'c conns_pq \<Rightarrow> 'c set" where
  "queued pq = {c. \<exists>t. (t, Some c) \<in># pq_items pq}"

definition slot_of :: "'c conns \<Rightarrow> 'c option \<Rightarrow> nat" where
  "slot_of s d = wakeup_pq_index (s (the d))"

definition is_conn :: "'c option \<Rightarrow> bool" where
  "is_conn d \<longleftrightarrow> d \<noteq> None"

interpretation trk: pq_tracking rqc_engine_conn_pq_operator slot_of is_conn
  by unfold_locales (auto simp: rqc_engine_conn_pq_operator_def slot_of_def is_conn_def split: option.splits)

text \<open>Every connection in the queue knows its slot.\<close>

definition slots_known :: "'c conns_pq \<Rightarrow> 'c conns \<Rightarrow> bool" where
  "slots_known pq s \<longleftrightarrow> pq_eop pq = Some rqc_engine_conn_pq_operator \<and>
     (\<forall>k < pq_count pq. \<exists>c. snd (elements pq ! k) = Some c \<and> wakeup_pq_index (s c) = k)"

lemma slots_known_eq: "slots_known pq s = trk.pq_indexed pq s"
  unfolding slots_known_def trk.pq_indexed_def trk.indexed_def
  by (force simp: slot_of_def is_conn_def)

definition queue_ok :: "u64 \<Rightarrow> 'c conns_pq \<Rightarrow> 'c conns \<Rightarrow> bool" where
  "queue_ok fl pq s \<longleftrightarrow> pq_ok pq \<and> pq_cmp pq = rqc_pq_revert_cmp \<and> slots_known pq s \<and>
     queued pq = {c. has_flag fl (s c)}"

definition engine_ok :: "'c rqc_engine \<Rightarrow> bool" where
  "engine_ok e \<longleftrightarrow>
     queue_ok RQC_CONN_FLAG_WAIT_WAKEUP (conns_wait_wakeup_pq e) (eng_conns e) \<and>
     queue_ok RQC_CONN_FLAG_TICKING (conns_active_pq e) (eng_conns e) \<and>
     queued (conns_wait_wakeup_pq e) \<inter> queued (conns_active_pq e) = {}"

definition alloc_ok :: "'c pq_alloc \<Rightarrow> bool" where
  "alloc_ok alloc \<longleftrightarrow> (\<forall>n buf. alloc n = Some buf \<longrightarrow> length buf = n)"

subsection \<open>One queue\<close>

definition same_but_index :: "rqc_conn_sched \<Rightarrow> rqc_conn_sched \<Rightarrow> bool" where
  "same_but_index x y \<longleftrightarrow> x\<lparr>wakeup_pq_index := 0\<rparr> = y\<lparr>wakeup_pq_index := 0\<rparr>"

lemma same_but_index_iff:
  "same_but_index x y \<longleftrightarrow> conn_flag x = conn_flag y \<and> next_tick_time x = next_tick_time y \<and> last_ticked_time x = last_ticked_time y"
  by (cases x; cases y) (auto simp: same_but_index_def)

lemma queued_data: "c \<in> queued pq \<longleftrightarrow> Some c \<in># image_mset snd (pq_items pq)"
  by (force simp: queued_def image_iff)

lemma operator_keeps:
  "(\<forall>d. same_but_index (s0 d) (s d)) \<and> (\<forall>d. d \<notin> A \<longrightarrow> s d = s0 d) \<Longrightarrow> \<forall>d. snd e = Some d \<longrightarrow> d \<in> A \<Longrightarrow>
   (\<forall>d. same_but_index (s0 d) (rqc_engine_conn_pq_operator i e s d)) \<and>
   (\<forall>d. d \<notin> A \<longrightarrow> rqc_engine_conn_pq_operator i e s d = s0 d)"
  by (auto simp: rqc_engine_conn_pq_operator_def same_but_index_iff split: option.splits)

lemma slots_distinct: "slots_known pq s \<Longrightarrow> pq_ok pq \<Longrightarrow> distinct (map snd (take (pq_count pq) (elements pq)))"
  unfolding distinct_conv_nth slots_known_eq trk.pq_indexed_def pq_ok_def
  using trk.indexed_distinct [of "pq_count pq" "elements pq" s] by auto

lemma queue_push:
  assumes "pq_ok pq" "pq_cmp pq = rqc_pq_revert_cmp" "slots_known pq s" "alloc_ok alloc" "c \<notin> queued pq"
    and push: "rqc_conns_pq_push alloc pq c t s = (ret, pq', s')"
  shows "(ret \<noteq> 0 \<longrightarrow> pq' = pq \<and> s' = s \<and> ret = - RQC_EMALLOC) \<and>
    (ret = 0 \<longrightarrow> pq_ok pq' \<and> pq_cmp pq' = rqc_pq_revert_cmp \<and> slots_known pq' s' \<and>
       pq_items pq' = add_mset (t, Some c) (pq_items pq) \<and> queued pq' = insert c (queued pq) \<and>
       (\<forall>d. same_but_index (s d) (s' d)) \<and> (\<forall>d. d \<notin> insert c (queued pq) \<longrightarrow> s' d = s d))"
proof -
  obtain r where r: "rqc_pq_push (alloc (capacity pq * 2)) pq t (Some c) s = (r, pq', s')"
    "ret = (case r of None \<Rightarrow> - RQC_EMALLOC | Some _ \<Rightarrow> 0)"
    using push by (auto simp: rqc_conns_pq_push_def split: prod.splits option.splits)
  have block: "pq_block_ok pq (alloc (capacity pq * 2))" using assms(4) by (simp add: alloc_ok_def pq_block_ok_def)
  note spec = min_first.push_correct [OF assms(1,2) block r(1)]
  show ?thesis
  proof (cases r)
    case None
    then show ?thesis using spec r(2) by simp
  next
    case (Some i)
    have new: "snd (elements pq ! k) \<noteq> Some c" if "k < pq_count pq" for k
      using assms(1,5) that unfolding queued_def by (metis (mono_tags, lifting) mem_Collect_eq pq_items_nth prod.collapse)
    have idx: "slots_known pq' s'"
      using trk.push_indexed [OF assms(1) assms(3) [unfolded slots_known_eq] block _ new] r(1) Some
      by (simp add: slots_known_eq is_conn_def)
    let ?J = "\<lambda>s'. (\<forall>d. same_but_index (s d) (s' d)) \<and> (\<forall>d. d \<notin> insert c (queued pq) \<longrightarrow> s' d = s d)"
    have "?J s'"
      by (rule push_keeps [where J = ?J and E = "{e. \<forall>d. snd e = Some d \<longrightarrow> d \<in> insert c (queued pq)}"
            and f = rqc_engine_conn_pq_operator, OF operator_keeps _ _ block _ _ _ r(1)])
        (use assms(1,3) in \<open>auto simp: queued_def slots_known_def same_but_index_iff\<close>)
    then show ?thesis using spec idx Some r(2) by (auto simp: queued_def)
  qed
qed

lemma queue_remove:
  assumes "pq_ok pq" "pq_cmp pq = rqc_pq_revert_cmp" "slots_known pq s" "(t, Some c) \<in># pq_items pq"
    and rem: "rqc_conns_pq_remove pq c s = (pq', s')"
  shows "pq_ok pq' \<and> pq_cmp pq' = rqc_pq_revert_cmp \<and> slots_known pq' s' \<and>
    pq_items pq' = pq_items pq - {#(t, Some c)#} \<and> queued pq' = queued pq - {c} \<and>
    (\<forall>d. same_but_index (s d) (s' d)) \<and> (\<forall>d. d \<notin> queued pq \<longrightarrow> s' d = s d)"
proof -
  obtain k where k: "k < pq_count pq" "elements pq ! k = (t, Some c)"
    using assms(4) pq_items_nth [OF assms(1)] by metis
  then have "wakeup_pq_index (s c) = k" using assms(3) by (auto simp: slots_known_def)
  then have r: "rqc_pq_remove pq k s = (pq', s')" using rem by (simp add: rqc_conns_pq_remove_def)
  note spec = min_first.remove_correct [OF assms(1,2) k(1) r]
  have idx: "slots_known pq' s'"
    unfolding slots_known_eq
    by (rule trk.remove_indexed [OF assms(1) assms(3) [unfolded slots_known_eq] k(1) r]) (simp add: assms(2) min_first.pq_order_axioms)
  have img: "image_mset snd (pq_items pq') = image_mset snd (pq_items pq) - {#Some c#}"
    using spec k(2) assms(4) by (simp add: image_mset_Diff)
  have dist: "count (image_mset snd (pq_items pq)) d \<le> 1" for d
    using slots_distinct [OF assms(3,1)] distinct_count_atmost_1 [of "map snd (take (pq_count pq) (elements pq))"]
    by (simp add: pq_items_def)
  have m: "d \<in> queued q \<longleftrightarrow> 0 < count (image_mset snd (pq_items q)) (Some d)" for d and q :: "'a conns_pq"
    unfolding queued_data by simp
  have q: "queued pq' = queued pq - {c}"
  proof (rule set_eqI)
    fix d
    show "d \<in> queued pq' \<longleftrightarrow> d \<in> queued pq - {c}"
      using dist [of "Some c"] unfolding Diff_iff m img by (cases "d = c") auto
  qed
  let ?J = "\<lambda>s'. (\<forall>d. same_but_index (s d) (s' d)) \<and> (\<forall>d. d \<notin> queued pq \<longrightarrow> s' d = s d)"
  have "?J s'"
    by (rule remove_keeps [where J = ?J and E = "{e. \<forall>d. snd e = Some d \<longrightarrow> d \<in> queued pq}"
          and f = rqc_engine_conn_pq_operator, OF operator_keeps _ _ _ _ r])
      (use assms(1,3) in \<open>auto simp: queued_def slots_known_def same_but_index_iff\<close>)
  then show ?thesis using spec idx q k(2) by simp
qed

subsection \<open>Both queues\<close>

lemma and_or_eq_0: "a AND (b OR c) = 0 \<longleftrightarrow> a AND b = 0 \<and> a AND c = 0"
  for a b c :: "'a::len word"
  by (auto simp: bit_eq_iff bit_simps)

lemma and_not_eq_0: "b AND c = 0 \<Longrightarrow> (a AND NOT c) AND b = a AND b" "(a AND NOT c) AND c = 0"
  for a b c :: "'a::len word"
  by (auto simp: bit_eq_iff bit_simps)

lemma has_flag_same: "same_but_index x y \<Longrightarrow> has_flag fl x = has_flag fl y"
  by (simp add: has_flag_def same_but_index_iff)

lemma no_flags: "conn_flag x AND (RQC_CONN_FLAG_WAIT_WAKEUP OR RQC_CONN_FLAG_TICKING) = 0 \<longleftrightarrow>
    \<not> has_flag RQC_CONN_FLAG_WAIT_WAKEUP x \<and> \<not> has_flag RQC_CONN_FLAG_TICKING x"
  unfolding and_or_eq_0 has_flag_def by simp

lemma has_flag_set: "has_flag fl (set_flag fl' c s d) \<longleftrightarrow> (d = c \<and> fl AND fl' \<noteq> 0) \<or> has_flag fl (s d)"
  using and_or_eq_0 [of fl "conn_flag (s c)" fl'] by (auto simp: has_flag_def set_flag_def and.commute)

lemma has_flag_clear:
  "has_flag fl (clear_flag fl c s d) \<longleftrightarrow> d \<noteq> c \<and> has_flag fl (s d)"
  "fl AND fl' = 0 \<Longrightarrow> has_flag fl (clear_flag fl' c s d) \<longleftrightarrow> has_flag fl (s d)"
  using and_not_eq_0(1) [of fl fl' "conn_flag (s c)"] and_not_eq_0(2) [of "conn_flag (s c)" fl]
  by (auto simp: has_flag_def clear_flag_def)

lemma slots_known_cong:
  "slots_known pq s \<Longrightarrow> pq_ok pq \<Longrightarrow> (\<And>c. c \<in> queued pq \<Longrightarrow> wakeup_pq_index (s' c) = wakeup_pq_index (s c)) \<Longrightarrow> slots_known pq s'"
  unfolding slots_known_def queued_def by (smt (verit) mem_Collect_eq pq_items_nth prod.collapse)

lemma index_flags: "wakeup_pq_index (set_flag fl c s d) = wakeup_pq_index (s d)"
  "wakeup_pq_index (clear_flag fl c s d) = wakeup_pq_index (s d)"
  by (simp_all add: set_flag_def clear_flag_def)

text \<open>
  Pushing a connection that is in neither queue into one of them (\<open>pq\<close>, flag \<open>fl\<close>), and removing
  one from it, seen from both queues. \<open>oq\<close> and \<open>ofl\<close> are the other queue and its flag.
\<close>

definition both_ok :: "u64 \<Rightarrow> 'c conns_pq \<Rightarrow> u64 \<Rightarrow> 'c conns_pq \<Rightarrow> 'c conns \<Rightarrow> bool" where
  "both_ok fl pq ofl oq s \<longleftrightarrow> queue_ok fl pq s \<and> queue_ok ofl oq s \<and> queued pq \<inter> queued oq = {}"

lemma both_push:
  assumes "both_ok fl pq ofl oq s" "fl AND ofl = 0" "fl \<noteq> 0" "alloc_ok alloc" "\<not> has_flag fl (s c)" "\<not> has_flag ofl (s c)"
    and push: "rqc_conns_pq_push alloc pq c t s = (0, pq', s')"
  shows "both_ok fl pq' ofl oq (set_flag fl c s') \<and> pq_items pq' = add_mset (t, Some c) (pq_items pq)"
proof -
  have nc: "c \<notin> queued pq" "c \<notin> queued oq" using assms(1,5,6) by (auto simp: both_ok_def queue_ok_def)
  have p: "pq_ok pq'" "pq_cmp pq' = rqc_pq_revert_cmp" "slots_known pq' s'" "pq_items pq' = add_mset (t, Some c) (pq_items pq)"
    "queued pq' = insert c (queued pq)" "\<And>d. same_but_index (s d) (s' d)" "\<And>d. d \<notin> insert c (queued pq) \<Longrightarrow> s' d = s d"
    using queue_push [OF _ _ _ assms(4) nc(1) push] assms(1) by (auto simp: both_ok_def queue_ok_def)
  have fl: "has_flag f (s' d) = has_flag f (s d)" for f d using has_flag_same [OF p(6)] by metis
  have "s' d = s d" if "d \<in> queued oq" for d using p(7) [of d] that assms(1) nc unfolding both_ok_def by blast
  then have "slots_known oq s'"
    using assms(1) slots_known_cong [where s = s] unfolding both_ok_def queue_ok_def by metis
  then have "slots_known oq (set_flag fl c s')" "slots_known pq' (set_flag fl c s')"
    using p(1,3) assms(1) by (auto simp: both_ok_def queue_ok_def index_flags intro: slots_known_cong)
  then show ?thesis
    using p assms(1-3) nc by (auto simp: both_ok_def queue_ok_def has_flag_set fl and.commute)
qed

lemma both_remove:
  assumes "both_ok fl pq ofl oq s" "fl AND ofl = 0" "(t, Some c) \<in># pq_items pq"
    and rem: "rqc_conns_pq_remove pq c s = (pq', s')"
  shows "both_ok fl pq' ofl oq (clear_flag fl c s') \<and> pq_items pq' = pq_items pq - {#(t, Some c)#} \<and>
    queued pq' = queued pq - {c} \<and> \<not> has_flag fl (clear_flag fl c s' c) \<and> (\<forall>d. last_ticked_time (s' d) = last_ticked_time (s d))"
proof -
  have p: "pq_ok pq'" "pq_cmp pq' = rqc_pq_revert_cmp" "slots_known pq' s'" "pq_items pq' = pq_items pq - {#(t, Some c)#}"
    "queued pq' = queued pq - {c}" "\<And>d. same_but_index (s d) (s' d)" "\<And>d. d \<notin> queued pq \<Longrightarrow> s' d = s d"
    using queue_remove [OF _ _ _ assms(3) rem] assms(1) by (auto simp: both_ok_def queue_ok_def)
  have fl: "has_flag f (s' d) = has_flag f (s d)" for f d using has_flag_same [OF p(6)] by metis
  have "s' d = s d" if "d \<in> queued oq" for d using p(7) [of d] that assms(1) unfolding both_ok_def by blast
  then have "slots_known oq s'"
    using assms(1) slots_known_cong [where s = s] unfolding both_ok_def queue_ok_def by metis
  then have "slots_known oq (clear_flag fl c s')" "slots_known pq' (clear_flag fl c s')"
    using p(1,3) assms(1) by (auto simp: both_ok_def queue_ok_def index_flags intro: slots_known_cong)
  then show ?thesis
    using p assms(1,2) by (auto simp: both_ok_def queue_ok_def has_flag_clear fl and.commute same_but_index_iff)
qed

lemma engine_ok_both:
  "engine_ok e \<longleftrightarrow> both_ok RQC_CONN_FLAG_WAIT_WAKEUP (conns_wait_wakeup_pq e) RQC_CONN_FLAG_TICKING (conns_active_pq e) (eng_conns e)"
  "engine_ok e \<longleftrightarrow> both_ok RQC_CONN_FLAG_TICKING (conns_active_pq e) RQC_CONN_FLAG_WAIT_WAKEUP (conns_wait_wakeup_pq e) (eng_conns e)"
  by (auto simp: engine_ok_def both_ok_def)

lemma push_ret:
  assumes "queue_ok fl pq s" "alloc_ok alloc" "\<not> has_flag fl (s c)" "rqc_conns_pq_push alloc pq c t s = (ret, pq', s')" "ret \<noteq> 0"
  shows "pq' = pq \<and> s' = s \<and> ret = - RQC_EMALLOC"
  using queue_push [OF _ _ _ assms(2) _ assms(4)] assms(1,3,5) by (auto simp: queue_ok_def)

lemma add_wakeup_spec:
  assumes "engine_ok e" "alloc_ok alloc" "rqc_engine_add_wakeup_queue alloc e c = (ret, e')"
  shows "engine_ok e' \<and>
    (if has_flag RQC_CONN_FLAG_WAIT_WAKEUP (eng_conns e c) \<or> has_flag RQC_CONN_FLAG_TICKING (eng_conns e c) \<or> ret \<noteq> 0 then e' = e
     else pq_items (conns_wait_wakeup_pq e') = add_mset (next_tick_time (eng_conns e c), Some c) (pq_items (conns_wait_wakeup_pq e)) \<and>
       conns_active_pq e' = conns_active_pq e)"
proof (cases "has_flag RQC_CONN_FLAG_WAIT_WAKEUP (eng_conns e c) \<or> has_flag RQC_CONN_FLAG_TICKING (eng_conns e c)")
  case True
  then have "e' = e" using assms(3) unfolding rqc_engine_add_wakeup_queue_def no_flags by auto
  then show ?thesis using assms(1) True by auto
next
  case False
  obtain r pq s where p: "rqc_conns_pq_push alloc (conns_wait_wakeup_pq e) c (next_tick_time (eng_conns e c)) (eng_conns e) = (r, pq, s)"
    by (metis prod_cases3)
  have e': "(ret, e') = (if r \<noteq> 0 then (- RQC_EMALLOC, e\<lparr>conns_wait_wakeup_pq := pq, eng_conns := s\<rparr>)
      else (0, e\<lparr>conns_wait_wakeup_pq := pq, eng_conns := set_flag RQC_CONN_FLAG_WAIT_WAKEUP c s\<rparr>))"
    using assms(3) False unfolding rqc_engine_add_wakeup_queue_def no_flags p by simp
  show ?thesis
  proof (cases "r = 0")
    case True
    then show ?thesis using both_push [OF assms(1) [unfolded engine_ok_both(1)] _ _ assms(2) _ _ p [unfolded True]] False e'
      by (simp add: engine_ok_both(1))
  next
    case r: False
    then show ?thesis using push_ret [OF _ assms(2) _ p] assms(1) False e' by (auto simp: engine_ok_def)
  qed
qed

lemma add_active_spec:
  assumes "engine_ok e" "alloc_ok alloc" "rqc_engine_add_active_queue alloc e c = (ret, e')"
  shows "engine_ok e' \<and>
    (if has_flag RQC_CONN_FLAG_WAIT_WAKEUP (eng_conns e c) \<or> has_flag RQC_CONN_FLAG_TICKING (eng_conns e c) \<or> ret \<noteq> 0 then e' = e
     else pq_items (conns_active_pq e') = add_mset (last_ticked_time (eng_conns e c), Some c) (pq_items (conns_active_pq e)) \<and>
       conns_wait_wakeup_pq e' = conns_wait_wakeup_pq e)"
proof (cases "has_flag RQC_CONN_FLAG_WAIT_WAKEUP (eng_conns e c) \<or> has_flag RQC_CONN_FLAG_TICKING (eng_conns e c)")
  case True
  then have "e' = e" using assms(3) unfolding rqc_engine_add_active_queue_def no_flags by auto
  then show ?thesis using assms(1) True by auto
next
  case False
  obtain r pq s where p: "rqc_conns_pq_push alloc (conns_active_pq e) c (last_ticked_time (eng_conns e c)) (eng_conns e) = (r, pq, s)"
    by (metis prod_cases3)
  have e': "(ret, e') = (if r = 0 then (0, e\<lparr>conns_active_pq := pq, eng_conns := set_flag RQC_CONN_FLAG_TICKING c s\<rparr>)
      else (r, e\<lparr>conns_active_pq := pq, eng_conns := s\<rparr>))"
    using assms(3) False unfolding rqc_engine_add_active_queue_def no_flags p by simp
  show ?thesis
  proof (cases "r = 0")
    case True
    then show ?thesis using both_push [OF assms(1) [unfolded engine_ok_both(2)] _ _ assms(2) _ _ p [unfolded True]] False e'
      by (simp add: engine_ok_both(2))
  next
    case r: False
    then show ?thesis using push_ret [OF _ assms(2) _ p] assms(1) False e' by (auto simp: engine_ok_def)
  qed
qed

lemma flagged_item: "queue_ok fl pq s \<Longrightarrow> has_flag fl (s c) \<Longrightarrow> \<exists>t. (t, Some c) \<in># pq_items pq"
  by (auto simp: queue_ok_def queued_def)

lemma remove_wakeup_spec:
  assumes "engine_ok e"
  shows "engine_ok (rqc_engine_remove_wakeup_queue e c) \<and>
    conns_active_pq (rqc_engine_remove_wakeup_queue e c) = conns_active_pq e \<and>
    queued (conns_wait_wakeup_pq (rqc_engine_remove_wakeup_queue e c)) = queued (conns_wait_wakeup_pq e) - {c} \<and>
    (\<forall>t. (t, Some c) \<in># pq_items (conns_wait_wakeup_pq e) \<longrightarrow>
       pq_items (conns_wait_wakeup_pq (rqc_engine_remove_wakeup_queue e c)) = pq_items (conns_wait_wakeup_pq e) - {#(t, Some c)#}) \<and>
    \<not> has_flag RQC_CONN_FLAG_WAIT_WAKEUP (eng_conns (rqc_engine_remove_wakeup_queue e c) c)"
proof (cases "has_flag RQC_CONN_FLAG_WAIT_WAKEUP (eng_conns e c)")
  case True
  obtain pq s where p: "rqc_conns_pq_remove (conns_wait_wakeup_pq e) c (eng_conns e) = (pq, s)" by (metis surj_pair)
  have e': "rqc_engine_remove_wakeup_queue e c = e\<lparr>conns_wait_wakeup_pq := pq, eng_conns := clear_flag RQC_CONN_FLAG_WAIT_WAKEUP c s\<rparr>"
    using True p by (simp add: rqc_engine_remove_wakeup_queue_def has_flag_def)
  obtain t where t: "(t, Some c) \<in># pq_items (conns_wait_wakeup_pq e)"
    using flagged_item [where s = "eng_conns e", OF _ True] assms by (auto simp: engine_ok_def)
  have b: "both_ok RQC_CONN_FLAG_WAIT_WAKEUP (conns_wait_wakeup_pq e) RQC_CONN_FLAG_TICKING (conns_active_pq e) (eng_conns e)"
    using assms by (simp add: engine_ok_both(1))
  show ?thesis using both_remove [OF b _ t p] both_remove [OF b _ _ p] e' by (simp add: engine_ok_both(1))
next
  case False
  then show ?thesis using assms
    by (auto simp: rqc_engine_remove_wakeup_queue_def has_flag_def engine_ok_def queue_ok_def queued_def)
qed

lemma remove_active_spec:
  assumes "engine_ok e"
  shows "engine_ok (rqc_engine_remove_active_queue e c) \<and>
    conns_wait_wakeup_pq (rqc_engine_remove_active_queue e c) = conns_wait_wakeup_pq e \<and>
    queued (conns_active_pq (rqc_engine_remove_active_queue e c)) = queued (conns_active_pq e) - {c} \<and>
    (\<forall>t. (t, Some c) \<in># pq_items (conns_active_pq e) \<longrightarrow>
       pq_items (conns_active_pq (rqc_engine_remove_active_queue e c)) = pq_items (conns_active_pq e) - {#(t, Some c)#}) \<and>
    \<not> has_flag RQC_CONN_FLAG_TICKING (eng_conns (rqc_engine_remove_active_queue e c) c)"
proof (cases "has_flag RQC_CONN_FLAG_TICKING (eng_conns e c)")
  case True
  obtain pq s where p: "rqc_conns_pq_remove (conns_active_pq e) c (eng_conns e) = (pq, s)" by (metis surj_pair)
  have e': "rqc_engine_remove_active_queue e c = e\<lparr>conns_active_pq := pq, eng_conns := clear_flag RQC_CONN_FLAG_TICKING c s\<rparr>"
    using True p by (simp add: rqc_engine_remove_active_queue_def has_flag_def)
  obtain t where t: "(t, Some c) \<in># pq_items (conns_active_pq e)"
    using flagged_item [where s = "eng_conns e", OF _ True] assms by (auto simp: engine_ok_def)
  have b: "both_ok RQC_CONN_FLAG_TICKING (conns_active_pq e) RQC_CONN_FLAG_WAIT_WAKEUP (conns_wait_wakeup_pq e) (eng_conns e)"
    using assms by (simp add: engine_ok_both(2))
  show ?thesis using both_remove [OF b _ t p] both_remove [OF b _ _ p] e' by (simp add: engine_ok_both(2))
next
  case False
  then show ?thesis using assms
    by (auto simp: rqc_engine_remove_active_queue_def has_flag_def engine_ok_def queue_ok_def queued_def)
qed

text \<open>One round of the wake-up loop.\<close>

lemma wakeup_round:
  assumes "engine_ok e" "alloc_ok alloc" "\<And>n. alloc n \<noteq> None" "(t, Some c) \<in># pq_items (conns_wait_wakeup_pq e)"
    and "rqc_engine_add_active_queue alloc (rqc_engine_remove_wakeup_queue e c) c = (ret, e')"
  shows "ret = 0 \<and> engine_ok e' \<and> pq_items (conns_wait_wakeup_pq e') = pq_items (conns_wait_wakeup_pq e) - {#(t, Some c)#} \<and>
    queued (conns_active_pq e') = insert c (queued (conns_active_pq e))"
proof -
  let ?e = "rqc_engine_remove_wakeup_queue e c"
  note rem = remove_wakeup_spec [OF assms(1), of c]
  have "c \<notin> queued (conns_active_pq e)" using assms(1,4) by (auto simp: engine_ok_def queued_def)
  then have nf: "\<not> has_flag RQC_CONN_FLAG_WAIT_WAKEUP (eng_conns ?e c)" "\<not> has_flag RQC_CONN_FLAG_TICKING (eng_conns ?e c)"
    using rem by (auto simp: engine_ok_def queue_ok_def)
  have ret: "ret = 0"
  proof -
    obtain r pq s where p: "rqc_conns_pq_push alloc (conns_active_pq ?e) c (last_ticked_time (eng_conns ?e c)) (eng_conns ?e) = (r, pq, s)"
      by (metis prod_cases3)
    have "r = 0" using p assms(3) [of "capacity (conns_active_pq ?e) * 2"]
      by (auto simp: rqc_conns_pq_push_def rqc_pq_push_def Let_def split: option.splits prod.splits if_splits)
    then show ?thesis using assms(5) nf unfolding rqc_engine_add_active_queue_def no_flags p by simp
  qed
  note add = add_active_spec [OF conjunct1 [OF rem] assms(2,5)]
  from add nf ret have "pq_items (conns_active_pq e') = add_mset (last_ticked_time (eng_conns ?e c), Some c) (pq_items (conns_active_pq e))"
    "conns_wait_wakeup_pq e' = conns_wait_wakeup_pq ?e" "engine_ok e'" using rem by auto
  then show ?thesis using ret rem assms(4) by (auto simp: queued_def)
qed

lemma wakeup_loop:
  assumes "engine_ok e" "alloc_ok alloc" "\<And>n. alloc n \<noteq> None" "pq_count (conns_wait_wakeup_pq e) < fuel"
  shows "\<exists>e'. main_logic_wakeup fuel alloc now e errs = Some (e', errs) \<and> engine_ok e' \<and>
    pq_items (conns_wait_wakeup_pq e') = filter_mset (\<lambda>(t, _). now < t) (pq_items (conns_wait_wakeup_pq e)) \<and>
    queued (conns_active_pq e') = queued (conns_active_pq e) \<union> {c. \<exists>t \<le> now. (t, Some c) \<in># pq_items (conns_wait_wakeup_pq e)}"
  using assms(1,4)
proof (induction fuel arbitrary: e)
  case (Suc fuel)
  let ?w = "conns_wait_wakeup_pq e"
  have w: "pq_ok ?w" "pq_cmp ?w = rqc_pq_revert_cmp" "slots_known ?w (eng_conns e)"
    using Suc.prems(1) by (auto simp: engine_ok_def queue_ok_def)
  note top = min_first.top_correct [OF w(1,2)]
  show ?case
  proof (cases "rqc_pq_top ?w")
    case None
    then show ?thesis using top Suc.prems(1) by (simp add: main_logic_wakeup.simps(2) rqc_pq_empty_iff)
  next
    case (Some el)
    then have el: "el = elements ?w ! 0" "0 < pq_count ?w" by (auto simp: rqc_pq_top_def split: if_splits)
    then obtain c where "snd el = Some c" using w(3) unfolding slots_known_def by blast
    then obtain t where tc: "el = (t, Some c)" by (cases el) simp
    have in_w: "(t, Some c) \<in># pq_items ?w" and min: "\<And>x. x \<in># pq_items ?w \<Longrightarrow> t \<le> fst x"
      using top Some tc by (auto simp: rqc_pq_revert_cmp_def not_less)
    show ?thesis
    proof (cases "t \<le> now")
      case False
      then have "\<forall>x \<in># pq_items ?w. now < fst x" using min by fastforce
      then have f: "filter_mset (\<lambda>(t, _). now < t) (pq_items ?w) = pq_items ?w" "{c. \<exists>t \<le> now. (t, Some c) \<in># pq_items ?w} = {}"
        by (auto simp: filter_mset_eq_conv)
      have "main_logic_wakeup (Suc fuel) alloc now e errs = Some (e, errs)"
        using Some tc False by (simp add: main_logic_wakeup.simps(2) rqc_pq_empty_iff)
      then show ?thesis using Suc.prems(1) f by (intro exI [of _ e]) auto
    next
      case True
      obtain ret e' where step: "rqc_engine_add_active_queue alloc (rqc_engine_remove_wakeup_queue e c) c = (ret, e')"
        by (metis surj_pair)
      note r = wakeup_round [OF Suc.prems(1) assms(2,3) in_w step]
      have "size (pq_items (conns_wait_wakeup_pq e')) = pq_count (conns_wait_wakeup_pq e')"
        "size (pq_items ?w) = pq_count ?w"
        by (rule size_pq_items, use r in \<open>simp add: engine_ok_def queue_ok_def\<close>) (rule size_pq_items [OF w(1)])
      then have "pq_count (conns_wait_wakeup_pq e') < fuel"
        using r Suc.prems(2) in_w el(2) by (simp add: size_Diff_singleton)
      from Suc.IH [OF _ this] r obtain e'' where IH: "main_logic_wakeup fuel alloc now e' errs = Some (e'', errs)" "engine_ok e''"
        "pq_items (conns_wait_wakeup_pq e'') = filter_mset (\<lambda>(t, _). now < t) (pq_items ?w - {#(t, Some c)#})"
        "queued (conns_active_pq e'') = insert c (queued (conns_active_pq e)) \<union> {c'. \<exists>t' \<le> now. (t', Some c') \<in># pq_items ?w - {#(t, Some c)#}}"
        by auto
      have "main_logic_wakeup (Suc fuel) alloc now e errs = Some (e'', errs)"
        using Some tc True step IH(1) r by (simp add: main_logic_wakeup.simps(2) rqc_pq_empty_iff)
      moreover have "filter_mset (\<lambda>(t, _). now < t) (pq_items ?w - {#(t, Some c)#}) = filter_mset (\<lambda>(t, _). now < t) (pq_items ?w)"
        using True by (simp add: not_less)
      moreover have "insert c (queued (conns_active_pq e)) \<union> {c'. \<exists>t' \<le> now. (t', Some c') \<in># pq_items ?w - {#(t, Some c)#}} =
          queued (conns_active_pq e) \<union> {c'. \<exists>t' \<le> now. (t', Some c') \<in># pq_items ?w}"
      proof -
        have "x \<in># pq_items ?w \<longleftrightarrow> x = (t, Some c) \<or> x \<in># pq_items ?w - {#(t, Some c)#}" for x
          using insert_iff [of x "(t, Some c)" "set_mset (pq_items ?w - {#(t, Some c)#})"]
          unfolding set_mset_add_mset_insert [symmetric] insert_DiffM [OF in_w] .
        then show ?thesis using True by auto
      qed
      ultimately show ?thesis using IH by simp
    qed
  qed
qed simp

subsection \<open>Properties\<close>

text \<open>
  C30: the scheduling invariant: every connection is in at most one of the two queues, its flags
  say in which, it knows its slot there, and both queues are heaps. Each of the four operations
  keeps it: adding puts a connection
  that is in no queue into the right one with the right key (and otherwise, or when there is no
  memory, changes nothing), removing takes exactly that connection out of its queue.
\<close>

theorem engine_queues_invariant:
  fixes e :: "'c rqc_engine"
  assumes "engine_ok e" and "alloc_ok alloc"
  shows "(\<forall>ret e'. rqc_engine_add_wakeup_queue alloc e c = (ret, e') \<longrightarrow> engine_ok e' \<and>
      (if has_flag RQC_CONN_FLAG_WAIT_WAKEUP (eng_conns e c) \<or> has_flag RQC_CONN_FLAG_TICKING (eng_conns e c) \<or> ret \<noteq> 0 then e' = e
       else pq_items (conns_wait_wakeup_pq e') = add_mset (next_tick_time (eng_conns e c), Some c) (pq_items (conns_wait_wakeup_pq e)) \<and>
         conns_active_pq e' = conns_active_pq e)) \<and>
    (\<forall>ret e'. rqc_engine_add_active_queue alloc e c = (ret, e') \<longrightarrow> engine_ok e' \<and>
      (if has_flag RQC_CONN_FLAG_WAIT_WAKEUP (eng_conns e c) \<or> has_flag RQC_CONN_FLAG_TICKING (eng_conns e c) \<or> ret \<noteq> 0 then e' = e
       else pq_items (conns_active_pq e') = add_mset (last_ticked_time (eng_conns e c), Some c) (pq_items (conns_active_pq e)) \<and>
         conns_wait_wakeup_pq e' = conns_wait_wakeup_pq e)) \<and>
    engine_ok (rqc_engine_remove_wakeup_queue e c) \<and>
    queued (conns_wait_wakeup_pq (rqc_engine_remove_wakeup_queue e c)) = queued (conns_wait_wakeup_pq e) - {c} \<and>
    conns_active_pq (rqc_engine_remove_wakeup_queue e c) = conns_active_pq e \<and>
    engine_ok (rqc_engine_remove_active_queue e c) \<and>
    queued (conns_active_pq (rqc_engine_remove_active_queue e c)) = queued (conns_active_pq e) - {c} \<and>
    conns_wait_wakeup_pq (rqc_engine_remove_active_queue e c) = conns_wait_wakeup_pq e"
  by (intro conjI [OF allI [OF allI [OF impI [OF add_wakeup_spec [OF assms]]]]]
      conjI [OF allI [OF allI [OF impI [OF add_active_spec [OF assms]]]]])
    (assumption | use remove_wakeup_spec [OF assms(1), of c] remove_active_spec [OF assms(1), of c] in simp)+

text \<open>A fresh engine satisfies the invariant.\<close>

lemma fresh_engine_ok:
  assumes "rqc_engine_conns_pq_create alloc n = Some q" "rqc_engine_conns_pq_create alloc m = Some q'" "alloc_ok alloc"
    and "\<And>c. conn_flag (s c) = 0"
  shows "engine_ok \<lparr>conns_active_pq = q, conns_wait_wakeup_pq = q', eng_conns = s\<rparr>"
  using assms
  by (auto simp: rqc_engine_conns_pq_create_def rqc_pq_init_def engine_ok_def queue_ok_def pq_ok_def heap_keys_def
      slots_known_def queued_def pq_items_def has_flag_def alloc_ok_def split: sum.splits if_splits option.splits)

definition alloc_example :: "string pq_alloc" where
  "alloc_example n = Some (replicate n (0, None))"

definition engine_example :: "string rqc_engine" where
  "engine_example = \<lparr>conns_active_pq = the (rqc_engine_conns_pq_create alloc_example 4),
     conns_wait_wakeup_pq = the (rqc_engine_conns_pq_create alloc_example 4),
     eng_conns = (\<lambda>_. \<lparr>wakeup_pq_index = 0, conn_flag = 0, next_tick_time = 7, last_ticked_time = 3\<rparr>)\<rparr>"

lemma engine_example_ok: "engine_ok engine_example" "alloc_ok alloc_example" "alloc_example n \<noteq> None"
proof -
  show a: "alloc_ok alloc_example" by (simp add: alloc_ok_def alloc_example_def)
  show "alloc_example n \<noteq> None" by (simp add: alloc_example_def)
  have "rqc_engine_conns_pq_create alloc_example 4 = Some (the (rqc_engine_conns_pq_create alloc_example 4))"
    by (simp add: rqc_engine_conns_pq_create_def rqc_pq_init_def alloc_example_def)
  from fresh_engine_ok [OF this this a] show "engine_ok engine_example" by (simp add: engine_example_def)
qed

lemma engine_example_add: "fst (rqc_engine_add_wakeup_queue alloc_example engine_example ''c'') = 0"
  by (simp add: rqc_engine_add_wakeup_queue_def engine_example_def rqc_engine_conns_pq_create_def rqc_pq_init_def
      alloc_example_def rqc_conns_pq_push_def rqc_pq_push_def Let_def rqc_pq_move_towards_top.simps)

theorem engine_queues_invariant_witness:
  "case rqc_engine_add_wakeup_queue alloc_example engine_example ''c'' of (ret, e') \<Rightarrow>
     ret = 0 \<and> engine_ok e' \<and> pq_items (conns_wait_wakeup_pq e') = {#(7, Some ''c'')#}"
proof -
  obtain ret e' where e: "rqc_engine_add_wakeup_queue alloc_example engine_example ''c'' = (ret, e')"
    by (rule prod.exhaust)
  have q: "pq_items (conns_wait_wakeup_pq engine_example) = {#}"
    and fl: "\<not> has_flag f (eng_conns engine_example ''c'')"
    and t: "next_tick_time (eng_conns engine_example ''c'') = 7" for f
    by (simp_all add: engine_example_def rqc_engine_conns_pq_create_def rqc_pq_init_def alloc_example_def pq_items_def has_flag_def)
  have "ret = 0" using engine_example_add unfolding e by simp
  with engine_queues_invariant [OF engine_example_ok(1,2), THEN conjunct1, rule_format, OF e] show ?thesis
    unfolding e prod.case by (simp add: q fl t)
qed

text \<open>
  C31: the wake-up loop of the engine terminates: while memory is available, a bound of one more
  round than there are waiting connections is enough; then exactly the connections whose time
  has not come are left in the wake-up queue, every connection whose time has come is in the
  active queue, no error is raised and the scheduling invariant holds.
\<close>

theorem engine_wakeup_terminates:
  fixes e :: "'c rqc_engine"
  assumes "engine_ok e" and "alloc_ok alloc" and "\<And>n. alloc n \<noteq> None" and "pq_count (conns_wait_wakeup_pq e) < fuel"
  shows "\<exists>e'. main_logic_wakeup fuel alloc now e [] = Some (e', []) \<and> engine_ok e' \<and>
    pq_items (conns_wait_wakeup_pq e') = filter_mset (\<lambda>(t, _). now < t) (pq_items (conns_wait_wakeup_pq e)) \<and>
    queued (conns_active_pq e') = queued (conns_active_pq e) \<union> {c. \<exists>t \<le> now. (t, Some c) \<in># pq_items (conns_wait_wakeup_pq e)}"
  by (rule wakeup_loop [OF assms])

theorem engine_wakeup_terminates_witness:
  "\<exists>e'. main_logic_wakeup 3 alloc_example 10 (snd (rqc_engine_add_wakeup_queue alloc_example engine_example ''c'')) [] = Some (e', []) \<and>
     engine_ok e' \<and> queued (conns_active_pq e') = {''c''}"
proof -
  let ?e = "snd (rqc_engine_add_wakeup_queue alloc_example engine_example ''c'')"
  have flags: "\<not> has_flag fl (eng_conns engine_example c)" "next_tick_time (eng_conns engine_example c) = 7" for fl c
    by (simp_all add: engine_example_def has_flag_def)
  have q: "pq_items (conns_wait_wakeup_pq engine_example) = {#}" "pq_items (conns_active_pq engine_example) = {#}"
    by (simp_all add: engine_example_def rqc_engine_conns_pq_create_def rqc_pq_init_def alloc_example_def pq_items_def)
  note ret = engine_example_add
  have e: "engine_ok ?e" "pq_items (conns_wait_wakeup_pq ?e) = {#(7, Some ''c'')#}" "conns_active_pq ?e = conns_active_pq engine_example"
    using add_wakeup_spec [OF engine_example_ok(1,2) prod.collapse [symmetric], of "''c''"] flags q(1) ret by simp_all
  have "size (pq_items (conns_wait_wakeup_pq ?e)) = pq_count (conns_wait_wakeup_pq ?e)"
    using e(1) by (simp add: engine_ok_def queue_ok_def pq_ok_def pq_items_def)
  then have "pq_count (conns_wait_wakeup_pq ?e) < 3" using e(2) by simp
  from engine_wakeup_terminates [OF e(1) engine_example_ok(2,3) this, of 10] obtain e' where
    e': "main_logic_wakeup 3 alloc_example 10 ?e [] = Some (e', [])" "engine_ok e'"
    "queued (conns_active_pq e') = queued (conns_active_pq ?e) \<union> {c. \<exists>t \<le> 10. (t, Some c) \<in># pq_items (conns_wait_wakeup_pq ?e)}"
    by blast
  have "queued (conns_active_pq e') = {''c''}" unfolding e'(3) e(2,3) using q(2) by (auto simp: queued_def)
  with e' show ?thesis by blast
qed

end
