(* ===== verification/Rqc_Transport_Params.thy ===== *)
theory Rqc_Transport_Params
  imports Rqc_Vint
begin

text \<open>
  The transport parameters of \<open>src/transport/rqc_transport_params.c\<close>: the encoder with its length
  computation, the table of decoders and the decoding loop.

  The encoder writes through a pointer that \<open>rqc_put_varint\<close> turns into \<open>NULL\<close> for a value that
  has no encoding; the model keeps that pointer (\<open>None\<close>), and a write through it is a fault. The
  lemmas show that parameters with encodable values survive the encoding, and that the
  decoder terminates, stays inside the buffer and checks what it accepts.
\<close>

subsection \<open>Parameters\<close>

abbreviation "RQC_DEFAULT_MAX_ACK_DELAY \<equiv> (25 :: u64)"
abbreviation "RQC_DEFAULT_ACK_DELAY_EXPONENT \<equiv> (3 :: u64)"
abbreviation "RQC_DEFAULT_MAX_UDP_PAYLOAD_SIZE \<equiv> (1500 :: u64)"
abbreviation "RQC_MAX_ACK_DELAY_EXPONENT \<equiv> (20 :: u64)"

abbreviation "RQC_TRANSPORT_PARAM_MAX_IDLE_TIMEOUT \<equiv> (0x0000 :: u64)"
abbreviation "RQC_TRANSPORT_PARAM_MAX_UDP_PAYLOAD_SIZE \<equiv> (0x0001 :: u64)"
abbreviation "RQC_TRANSPORT_PARAM_INITIAL_MAX_DATA \<equiv> (0x0002 :: u64)"
abbreviation "RQC_TRANSPORT_PARAM_INITIAL_MAX_STREAM_DATA_BIDI_LOCAL \<equiv> (0x0003 :: u64)"
abbreviation "RQC_TRANSPORT_PARAM_INITIAL_MAX_STREAM_DATA_BIDI_REMOTE \<equiv> (0x0004 :: u64)"
abbreviation "RQC_TRANSPORT_PARAM_INITIAL_MAX_STREAM_DATA_UNI \<equiv> (0x0005 :: u64)"
abbreviation "RQC_TRANSPORT_PARAM_INITIAL_MAX_STREAMS_BIDI \<equiv> (0x0006 :: u64)"
abbreviation "RQC_TRANSPORT_PARAM_INITIAL_MAX_STREAMS_UNI \<equiv> (0x0007 :: u64)"
abbreviation "RQC_TRANSPORT_PARAM_ACK_DELAY_EXPONENT \<equiv> (0x0008 :: u64)"
abbreviation "RQC_TRANSPORT_PARAM_MAX_ACK_DELAY \<equiv> (0x0009 :: u64)"
abbreviation "RQC_TRANSPORT_PARAM_MAX_DATAGRAM_FRAME_SIZE \<equiv> (0x0020 :: u64)"

record rqc_transport_params =
  max_idle_timeout :: u64
  max_udp_payload_size :: u64
  max_datagram_frame_size :: u64
  initial_max_data :: u64
  initial_max_stream_data_bidi_local :: u64
  initial_max_stream_data_bidi_remote :: u64
  initial_max_stream_data_uni :: u64
  initial_max_streams_bidi :: u64
  initial_max_streams_uni :: u64
  ack_delay_exponent :: u64
  max_ack_delay :: u64

definition rqc_init_transport_params :: rqc_transport_params where
  "rqc_init_transport_params =
     \<lparr>max_idle_timeout = 0, max_udp_payload_size = RQC_DEFAULT_MAX_UDP_PAYLOAD_SIZE,
      max_datagram_frame_size = 0, initial_max_data = 0, initial_max_stream_data_bidi_local = 0,
      initial_max_stream_data_bidi_remote = 0, initial_max_stream_data_uni = 0,
      initial_max_streams_bidi = 0, initial_max_streams_uni = 0,
      ack_delay_exponent = RQC_DEFAULT_ACK_DELAY_EXPONENT, max_ack_delay = RQC_DEFAULT_MAX_ACK_DELAY\<rparr>"

subsection \<open>Encoder\<close>

definition tp_len :: "u64 \<Rightarrow> u64 \<Rightarrow> nat" where
  "tp_len pid v = rqc_put_varint_len pid + rqc_put_varint_len (of_nat (rqc_put_varint_len v)) + rqc_put_varint_len v"

definition rqc_transport_params_calc_length :: "rqc_transport_params \<Rightarrow> nat" where
  "rqc_transport_params_calc_length params =
     (if max_idle_timeout params \<noteq> 0
      then tp_len RQC_TRANSPORT_PARAM_MAX_IDLE_TIMEOUT (max_idle_timeout params) else 0) +
     (if max_udp_payload_size params \<noteq> RQC_DEFAULT_MAX_UDP_PAYLOAD_SIZE
      then tp_len RQC_TRANSPORT_PARAM_MAX_UDP_PAYLOAD_SIZE (max_udp_payload_size params) else 0) +
     (if initial_max_data params \<noteq> 0
      then tp_len RQC_TRANSPORT_PARAM_INITIAL_MAX_DATA (initial_max_data params) else 0) +
     (if initial_max_stream_data_bidi_local params \<noteq> 0
      then tp_len RQC_TRANSPORT_PARAM_INITIAL_MAX_STREAM_DATA_BIDI_LOCAL (initial_max_stream_data_bidi_local params) else 0) +
     (if initial_max_stream_data_bidi_remote params \<noteq> 0
      then tp_len RQC_TRANSPORT_PARAM_INITIAL_MAX_STREAM_DATA_BIDI_REMOTE (initial_max_stream_data_bidi_remote params) else 0) +
     (if initial_max_stream_data_uni params \<noteq> 0
      then tp_len RQC_TRANSPORT_PARAM_INITIAL_MAX_STREAM_DATA_UNI (initial_max_stream_data_uni params) else 0) +
     (if initial_max_streams_bidi params \<noteq> 0
      then tp_len RQC_TRANSPORT_PARAM_INITIAL_MAX_STREAMS_BIDI (initial_max_streams_bidi params) else 0) +
     (if initial_max_streams_uni params \<noteq> 0
      then tp_len RQC_TRANSPORT_PARAM_INITIAL_MAX_STREAMS_UNI (initial_max_streams_uni params) else 0) +
     (if ack_delay_exponent params \<noteq> RQC_DEFAULT_ACK_DELAY_EXPONENT
      then tp_len RQC_TRANSPORT_PARAM_ACK_DELAY_EXPONENT (ack_delay_exponent params) else 0) +
     (if max_ack_delay params \<noteq> RQC_DEFAULT_MAX_ACK_DELAY
      then tp_len RQC_TRANSPORT_PARAM_MAX_ACK_DELAY (max_ack_delay params) else 0) +
     (if max_datagram_frame_size params \<noteq> 0
      then rqc_put_varint_len 0x20 + 1 + rqc_put_varint_len (max_datagram_frame_size params) else 0)"

text \<open>A pointer is a cursor or \<open>NULL\<close>; the outer \<open>None\<close> is a write outside the buffer or through \<open>NULL\<close>.\<close>

definition rqc_put_varint_param :: "u64 \<Rightarrow> u64 \<Rightarrow> wcur option \<Rightarrow> wcur option option" where
  "rqc_put_varint_param pid v p = do {
     p \<leftarrow> rqc_put_varint p pid;
     p \<leftarrow> rqc_put_varint p (of_nat (rqc_put_varint_len v));
     rqc_put_varint p v }"

definition put_if :: "bool \<Rightarrow> u64 \<Rightarrow> u64 \<Rightarrow> wcur option \<Rightarrow> wcur option option" where
  "put_if c pid v p = (if c then rqc_put_varint_param pid v p else Some p)"

definition encode_fields :: "rqc_transport_params \<Rightarrow> wcur option \<Rightarrow> wcur option option" where
  "encode_fields params p = do {
     p \<leftarrow> put_if (max_idle_timeout params \<noteq> 0) RQC_TRANSPORT_PARAM_MAX_IDLE_TIMEOUT (max_idle_timeout params) p;
     p \<leftarrow> put_if (max_udp_payload_size params \<noteq> RQC_DEFAULT_MAX_UDP_PAYLOAD_SIZE)
            RQC_TRANSPORT_PARAM_MAX_UDP_PAYLOAD_SIZE (max_udp_payload_size params) p;
     p \<leftarrow> put_if (initial_max_data params \<noteq> 0) RQC_TRANSPORT_PARAM_INITIAL_MAX_DATA (initial_max_data params) p;
     p \<leftarrow> put_if (initial_max_stream_data_bidi_local params \<noteq> 0)
            RQC_TRANSPORT_PARAM_INITIAL_MAX_STREAM_DATA_BIDI_LOCAL (initial_max_stream_data_bidi_local params) p;
     p \<leftarrow> put_if (initial_max_stream_data_bidi_remote params \<noteq> 0)
            RQC_TRANSPORT_PARAM_INITIAL_MAX_STREAM_DATA_BIDI_REMOTE (initial_max_stream_data_bidi_remote params) p;
     p \<leftarrow> put_if (initial_max_stream_data_uni params \<noteq> 0)
            RQC_TRANSPORT_PARAM_INITIAL_MAX_STREAM_DATA_UNI (initial_max_stream_data_uni params) p;
     p \<leftarrow> put_if (initial_max_streams_bidi params \<noteq> 0)
            RQC_TRANSPORT_PARAM_INITIAL_MAX_STREAMS_BIDI (initial_max_streams_bidi params) p;
     p \<leftarrow> put_if (initial_max_streams_uni params \<noteq> 0)
            RQC_TRANSPORT_PARAM_INITIAL_MAX_STREAMS_UNI (initial_max_streams_uni params) p;
     p \<leftarrow> put_if (ack_delay_exponent params \<noteq> RQC_DEFAULT_ACK_DELAY_EXPONENT)
            RQC_TRANSPORT_PARAM_ACK_DELAY_EXPONENT (ack_delay_exponent params) p;
     p \<leftarrow> put_if (max_ack_delay params \<noteq> RQC_DEFAULT_MAX_ACK_DELAY)
            RQC_TRANSPORT_PARAM_MAX_ACK_DELAY (max_ack_delay params) p;
     put_if (max_datagram_frame_size params \<noteq> 0)
            RQC_TRANSPORT_PARAM_MAX_DATAGRAM_FRAME_SIZE (max_datagram_frame_size params) p }"

text \<open>
  \<open>out\<close> is the memory behind the \<open>out\<close> pointer, of which the caller offers \<open>out_cap\<close> bytes. A
  final \<open>NULL\<close> is at a distance from \<open>out\<close> that is not \<open>len\<close>.
\<close>

definition rqc_encode_transport_params :: "rqc_transport_params \<Rightarrow> byte list \<Rightarrow> nat \<Rightarrow> (byte list \<times> nat) res" where
  "rqc_encode_transport_params params out out_cap =
     (if max_datagram_frame_size params > 2 ^ 62 - 1 then Err (- RQC_EILLTP)
      else
        (let len = rqc_transport_params_calc_length params
         in if out_cap < len then Err (- RQC_ENOBUF)
            else case encode_fields params (Some (out, 0)) of
                   None \<Rightarrow> Inl Fault
                 | Some None \<Rightarrow> Err (- RQC_EILLTP)
                 | Some (Some (buf, p)) \<Rightarrow> if p \<noteq> len then Err (- RQC_EILLTP) else Inr (buf, len)))"

subsection \<open>Decoder\<close>

type_synonym tp_decoder = "rqc_transport_params \<Rightarrow> byte list \<Rightarrow> nat \<Rightarrow> nat \<Rightarrow> rqc_transport_params res"

text \<open>
  A read with \<open>rqc_vint_read(p, end, ...)\<close>, whose failure every caller answers with \<open>-RQC_EILLTP\<close>. It looks at the
  byte at \<open>p\<close> if \<open>p < end\<close>, and at the whole encoding if that ends before \<open>end\<close>; it is a fault when a byte
  it looks at is not in the memory behind \<open>in\<close>.
\<close>

definition tp_read :: "byte list \<Rightarrow> nat \<Rightarrow> nat \<Rightarrow> (u64 \<times> nat) res" where
  "tp_read buf p end =
     (case rqc_vint_read buf p end of
        None \<Rightarrow> if p < end \<and> length buf \<le> p then Inl Fault else Err (- RQC_EILLTP)
      | Some (v, nread) \<Rightarrow> if length buf < p + nread then Inl Fault else Inr (v, nread))"

definition RQC_DECODE_VINT_VALUE :: "(u64 \<Rightarrow> rqc_transport_params) \<Rightarrow> byte list \<Rightarrow> nat \<Rightarrow> nat \<Rightarrow> rqc_transport_params res" where
  "RQC_DECODE_VINT_VALUE dst buf p end = res_bind (tp_read buf p end) (\<lambda>(v, nread). Inr (dst v))"

definition rqc_decode_max_idle_timeout :: tp_decoder where
  "rqc_decode_max_idle_timeout params = RQC_DECODE_VINT_VALUE (\<lambda>v. params\<lparr>max_idle_timeout := v\<rparr>)"

definition rqc_decode_max_udp_payload_size :: tp_decoder where
  "rqc_decode_max_udp_payload_size params = RQC_DECODE_VINT_VALUE (\<lambda>v. params\<lparr>max_udp_payload_size := v\<rparr>)"

definition rqc_decode_initial_max_data :: tp_decoder where
  "rqc_decode_initial_max_data params = RQC_DECODE_VINT_VALUE (\<lambda>v. params\<lparr>initial_max_data := v\<rparr>)"

definition rqc_decode_initial_max_stream_data_bidi_local :: tp_decoder where
  "rqc_decode_initial_max_stream_data_bidi_local params =
     RQC_DECODE_VINT_VALUE (\<lambda>v. params\<lparr>initial_max_stream_data_bidi_local := v\<rparr>)"

definition rqc_decode_initial_max_stream_data_bidi_remote :: tp_decoder where
  "rqc_decode_initial_max_stream_data_bidi_remote params =
     RQC_DECODE_VINT_VALUE (\<lambda>v. params\<lparr>initial_max_stream_data_bidi_remote := v\<rparr>)"

definition rqc_decode_initial_max_stream_data_uni :: tp_decoder where
  "rqc_decode_initial_max_stream_data_uni params =
     RQC_DECODE_VINT_VALUE (\<lambda>v. params\<lparr>initial_max_stream_data_uni := v\<rparr>)"

definition rqc_decode_initial_max_streams_bidi :: tp_decoder where
  "rqc_decode_initial_max_streams_bidi params = RQC_DECODE_VINT_VALUE (\<lambda>v. params\<lparr>initial_max_streams_bidi := v\<rparr>)"

definition rqc_decode_initial_max_streams_uni :: tp_decoder where
  "rqc_decode_initial_max_streams_uni params = RQC_DECODE_VINT_VALUE (\<lambda>v. params\<lparr>initial_max_streams_uni := v\<rparr>)"

definition rqc_decode_ack_delay_exponent :: tp_decoder where
  "rqc_decode_ack_delay_exponent params buf p end =
     res_bind (tp_read buf p end) (\<lambda>(v, nread).
       if v > RQC_MAX_ACK_DELAY_EXPONENT then Err (- RQC_EILLTP) else Inr (params\<lparr>ack_delay_exponent := v\<rparr>))"

definition rqc_decode_max_ack_delay :: tp_decoder where
  "rqc_decode_max_ack_delay params = RQC_DECODE_VINT_VALUE (\<lambda>v. params\<lparr>max_ack_delay := v\<rparr>)"

definition rqc_trans_param_decode_func_list :: "tp_decoder list" where
  "rqc_trans_param_decode_func_list =
     [rqc_decode_max_idle_timeout, rqc_decode_max_udp_payload_size, rqc_decode_initial_max_data,
      rqc_decode_initial_max_stream_data_bidi_local, rqc_decode_initial_max_stream_data_bidi_remote,
      rqc_decode_initial_max_stream_data_uni, rqc_decode_initial_max_streams_bidi,
      rqc_decode_initial_max_streams_uni, rqc_decode_ack_delay_exponent, rqc_decode_max_ack_delay]"

abbreviation "RQC_TP_DECODER_UNKNOWN \<equiv> (10 :: u64)"

definition rqc_trans_param_get_index :: "u64 \<Rightarrow> u64" where
  "rqc_trans_param_get_index param_type =
     (if param_type \<in> {RQC_TRANSPORT_PARAM_MAX_IDLE_TIMEOUT, RQC_TRANSPORT_PARAM_MAX_UDP_PAYLOAD_SIZE,
           RQC_TRANSPORT_PARAM_INITIAL_MAX_DATA, RQC_TRANSPORT_PARAM_INITIAL_MAX_STREAM_DATA_BIDI_LOCAL,
           RQC_TRANSPORT_PARAM_INITIAL_MAX_STREAM_DATA_BIDI_REMOTE, RQC_TRANSPORT_PARAM_INITIAL_MAX_STREAM_DATA_UNI,
           RQC_TRANSPORT_PARAM_INITIAL_MAX_STREAMS_BIDI, RQC_TRANSPORT_PARAM_INITIAL_MAX_STREAMS_UNI,
           RQC_TRANSPORT_PARAM_ACK_DELAY_EXPONENT, RQC_TRANSPORT_PARAM_MAX_ACK_DELAY}
      then param_type else RQC_TP_DECODER_UNKNOWN)"

text \<open>The value of one parameter: the datagram size, then the decoder of the table, if there is one.\<close>

definition decode_datagram_value :: "rqc_transport_params \<Rightarrow> byte list \<Rightarrow> nat \<Rightarrow> u64 \<Rightarrow> u64 \<Rightarrow> rqc_transport_params res" where
  "decode_datagram_value params buf p param_type param_len =
     (if param_type = RQC_TRANSPORT_PARAM_MAX_DATAGRAM_FRAME_SIZE then
        res_bind (tp_read buf p (p + unat param_len)) (\<lambda>(v, n).
          if n \<noteq> unat param_len \<or> max_datagram_frame_size params \<noteq> 0 then Err (- RQC_EILLTP)
          else Inr (params\<lparr>max_datagram_frame_size := v\<rparr>))
      else Inr params)"

definition decode_table_value :: "rqc_transport_params \<Rightarrow> byte list \<Rightarrow> nat \<Rightarrow> nat \<Rightarrow> u64 \<Rightarrow> rqc_transport_params res" where
  "decode_table_value params buf p end param_type =
     (let param_index = rqc_trans_param_get_index param_type
      in if param_index \<noteq> RQC_TP_DECODER_UNKNOWN then
           (case (rqc_trans_param_decode_func_list ! unat param_index) params buf p end of
              Inl Fault \<Rightarrow> Inl Fault
            | Inl (Ret _) \<Rightarrow> Err (- RQC_EILLTP)
            | Inr params \<Rightarrow> Inr params)
         else Inr params)"

text \<open>The result is the new parameters and the new \<open>*start\<close>.\<close>

definition rqc_decode_one_transport_param ::
  "rqc_transport_params \<Rightarrow> byte list \<Rightarrow> nat \<Rightarrow> nat \<Rightarrow> (rqc_transport_params \<times> nat) res" where
  "rqc_decode_one_transport_param params buf start end =
     res_bind (tp_read buf start end) (\<lambda>(param_type, nread).
       let p = start + nread
       in res_bind (tp_read buf p end) (\<lambda>(param_len, nread).
            if unat param_len > end - p - nread then Err (- RQC_EILLTP)
            else
              let p = p + nread
              in res_bind (decode_datagram_value params buf p param_type param_len) (\<lambda>params.
                 res_bind (decode_table_value params buf p end param_type) (\<lambda>params.
                   Inr (params, p + unat param_len)))))"

lemma tp_read_Inr: "tp_read buf p end = Inr (v, n) \<longleftrightarrow> rqc_vint_read buf p end = Some (v, n) \<and> p + n \<le> length buf"
  by (auto simp: tp_read_def not_less split: option.splits if_splits)

lemma rqc_decode_one_Inr:
  assumes "rqc_decode_one_transport_param params buf p end = Inr (params', q)"
  obtains t n l m params1 where "rqc_vint_read buf p end = Some (t, n)" "rqc_vint_read buf (p + n) end = Some (l, m)"
    "unat l \<le> end - (p + n) - m" "decode_datagram_value params buf (p + n + m) t l = Inr params1"
    "decode_table_value params1 buf (p + n + m) end t = Inr params'" "q = p + n + m + unat l"
  using assms
  by (auto simp: rqc_decode_one_transport_param_def Let_def res_bind_eq_Inr tp_read_Inr split: if_splits)

lemma rqc_decode_one_advances:
  assumes "rqc_decode_one_transport_param params buf p end = Inr (params', q)"
  shows "p < q \<and> q \<le> end"
  using assms
proof (rule rqc_decode_one_Inr)
  fix t n l m
  assume a: "rqc_vint_read buf p end = Some (t, n)" "rqc_vint_read buf (p + n) end = Some (l, m)"
    "unat l \<le> end - (p + n) - m" "q = p + n + m + unat l"
  have "0 < n" "p + n + m \<le> end" using rqc_vint_read_Some [OF a(1)] rqc_vint_read_Some [OF a(2)] by auto
  then show ?thesis using a by linarith
qed

function decode_params :: "byte list \<Rightarrow> nat \<Rightarrow> nat \<Rightarrow> bool \<Rightarrow> rqc_transport_params \<Rightarrow> (rqc_transport_params \<times> nat) res" where
  "decode_params buf p end datagram_seen params =
     (if p < end then
        res_bind (tp_read buf p end) (\<lambda>(type, _).
          if type = RQC_TRANSPORT_PARAM_MAX_DATAGRAM_FRAME_SIZE \<and> datagram_seen then Err (- RQC_EILLTP)
          else res_bind (rqc_decode_one_transport_param params buf p end) (\<lambda>(params, p).
            decode_params buf p end
              (if type = RQC_TRANSPORT_PARAM_MAX_DATAGRAM_FRAME_SIZE then True else datagram_seen) params))
      else Inr (params, p))"
  by pat_completeness auto
termination
  by (relation "measure (\<lambda>(buf, p, end, seen, params). end - p)") (auto dest!: rqc_decode_one_advances)

declare decode_params.simps [simp del]

text \<open>The defaults that the decoder starts from are those of \<open>rqc_init_transport_params\<close>.\<close>

definition rqc_decode_transport_params :: "byte list \<Rightarrow> nat \<Rightarrow> rqc_transport_params res" where
  "rqc_decode_transport_params buf in_len =
     res_bind (decode_params buf 0 in_len False
       \<lparr>max_idle_timeout = 0, max_udp_payload_size = RQC_DEFAULT_MAX_UDP_PAYLOAD_SIZE,
        max_datagram_frame_size = 0, initial_max_data = 0, initial_max_stream_data_bidi_local = 0,
        initial_max_stream_data_bidi_remote = 0, initial_max_stream_data_uni = 0,
        initial_max_streams_bidi = 0, initial_max_streams_uni = 0,
        ack_delay_exponent = RQC_DEFAULT_ACK_DELAY_EXPONENT, max_ack_delay = RQC_DEFAULT_MAX_ACK_DELAY\<rparr>)
       (\<lambda>(params, p). if in_len \<noteq> p then Err (- RQC_EILLTP) else Inr params)"

subsection \<open>Encoding as bytes\<close>

definition tp_entry :: "u64 \<times> u64 \<Rightarrow> byte list" where
  "tp_entry e = vint_enc (fst e) @ vint_enc (of_nat (rqc_put_varint_len (snd e))) @ vint_enc (snd e)"

definition opt_entry :: "bool \<Rightarrow> u64 \<Rightarrow> u64 \<Rightarrow> (u64 \<times> u64) list" where
  "opt_entry c pid v = (if c then [(pid, v)] else [])"

definition tp_entries :: "rqc_transport_params \<Rightarrow> (u64 \<times> u64) list" where
  "tp_entries params =
     opt_entry (max_idle_timeout params \<noteq> 0) 0 (max_idle_timeout params) @
     opt_entry (max_udp_payload_size params \<noteq> 1500) 1 (max_udp_payload_size params) @
     opt_entry (initial_max_data params \<noteq> 0) 2 (initial_max_data params) @
     opt_entry (initial_max_stream_data_bidi_local params \<noteq> 0) 3 (initial_max_stream_data_bidi_local params) @
     opt_entry (initial_max_stream_data_bidi_remote params \<noteq> 0) 4 (initial_max_stream_data_bidi_remote params) @
     opt_entry (initial_max_stream_data_uni params \<noteq> 0) 5 (initial_max_stream_data_uni params) @
     opt_entry (initial_max_streams_bidi params \<noteq> 0) 6 (initial_max_streams_bidi params) @
     opt_entry (initial_max_streams_uni params \<noteq> 0) 7 (initial_max_streams_uni params) @
     opt_entry (ack_delay_exponent params \<noteq> 3) 8 (ack_delay_exponent params) @
     opt_entry (max_ack_delay params \<noteq> 25) 9 (max_ack_delay params) @
     opt_entry (max_datagram_frame_size params \<noteq> 0) 0x20 (max_datagram_frame_size params)"

definition tp_bytes :: "rqc_transport_params \<Rightarrow> byte list" where
  "tp_bytes params = concat (map tp_entry (tp_entries params))"

text \<open>Parameters that can be sent: every value has an encoding, and the exponent is allowed.\<close>

definition tp_ok :: "rqc_transport_params \<Rightarrow> bool" where
  "tp_ok params \<longleftrightarrow> max_idle_timeout params < 2 ^ 62 \<and> max_udp_payload_size params < 2 ^ 62 \<and>
     max_datagram_frame_size params < 2 ^ 62 \<and> initial_max_data params < 2 ^ 62 \<and>
     initial_max_stream_data_bidi_local params < 2 ^ 62 \<and> initial_max_stream_data_bidi_remote params < 2 ^ 62 \<and>
     initial_max_stream_data_uni params < 2 ^ 62 \<and> initial_max_streams_bidi params < 2 ^ 62 \<and>
     initial_max_streams_uni params < 2 ^ 62 \<and> ack_delay_exponent params \<le> RQC_MAX_ACK_DELAY_EXPONENT \<and>
     max_ack_delay params < 2 ^ 62"

lemma varint_len_enc: "rqc_put_varint_len v = length (vint_enc v)"
  by (simp add: rqc_put_varint_len_eq rqc_vint_len_by_val_def rqc_vint_len_def)

lemma varint_len_small: "of_nat (rqc_put_varint_len v) < (64 :: u64)" "unat (of_nat (rqc_put_varint_len v) :: u64) = rqc_put_varint_len v"
  by (auto simp: rqc_put_varint_len_def)

lemma rqc_put_varint_mem: "n < 2 ^ 62 \<Longrightarrow> rqc_put_varint (Some c) n = map_option Some (wr_mem (vint_enc n) c)"
  by (simp add: rqc_put_varint_def rqc_put_varint_bytes_eq)

lemma less_64_62: "(x :: u64) < 64 \<Longrightarrow> x < 2 ^ 62"
  using less_trans [of x 64 "2 ^ 62"] by simp

text \<open>Writing one piece after the other through a valid pointer.\<close>

lemma wr_opt_bind:
  assumes "\<And>c'. snd c' \<le> length (fst c') \<Longrightarrow> G (Some c') = map_option Some (wr_mem b c')"
  shows "map_option Some (wr_mem a c) \<bind> G = map_option Some (wr_mem (a @ b) c)"
proof (cases "snd c + length a \<le> length (fst c)")
  case True
  then have "G (Some (overwrite (fst c) (snd c) a, snd c + length a)) =
      map_option Some (wr_mem b (overwrite (fst c) (snd c) a, snd c + length a))"
    by (intro assms) simp
  then show ?thesis using True by (cases c) (auto simp: wr_mem_def overwrite_overwrite)
qed (auto simp: wr_mem_def split: prod.splits)

lemma rqc_put_varint_param_mem:
  assumes "pid < 64" "v < 2 ^ 62"
  shows "rqc_put_varint_param pid v (Some c) = map_option Some (wr_mem (tp_entry (pid, v)) c)"
proof -
  have l: "of_nat (rqc_put_varint_len v) < (2 ^ 62 :: u64)" using less_64_62 [OF varint_len_small(1)] .
  have "rqc_put_varint_param pid v (Some c) = map_option Some (wr_mem (vint_enc pid) c) \<bind>
      (\<lambda>p. rqc_put_varint p (of_nat (rqc_put_varint_len v)) \<bind> (\<lambda>p. rqc_put_varint p v))"
    unfolding rqc_put_varint_param_def rqc_put_varint_mem [OF less_64_62 [OF assms(1)]] ..
  also have "\<dots> = map_option Some (wr_mem (vint_enc pid @ (vint_enc (of_nat (rqc_put_varint_len v)) @ vint_enc v)) c)"
    by (intro wr_opt_bind) (simp only: rqc_put_varint_mem [OF l], intro wr_opt_bind rqc_put_varint_mem [OF assms(2)])
  finally show ?thesis by (simp add: tp_entry_def)
qed

lemma put_if_mem:
  assumes "pid < 64" "v < 2 ^ 62" "snd cur \<le> length (fst cur)"
  shows "put_if c pid v (Some cur) = map_option Some (wr_mem (concat (map tp_entry (opt_entry c pid v))) cur)"
  using assms by (cases cur) (simp add: put_if_def opt_entry_def rqc_put_varint_param_mem wr_mem_def)

lemma encode_fields_mem:
  assumes "tp_ok params" "snd c \<le> length (fst c)"
  shows "encode_fields params (Some c) = map_option Some (wr_mem (tp_bytes params) c)"
proof -
  have e: "ack_delay_exponent params < 2 ^ 62"
    using assms(1) order.strict_trans1 [of "ack_delay_exponent params" 20 "2 ^ 62"] by (simp add: tp_ok_def)
  show ?thesis
    unfolding encode_fields_def tp_bytes_def tp_entries_def map_append concat_append
    by (subst put_if_mem [OF _ _ assms(2)], simp, use assms(1) in \<open>simp add: tp_ok_def\<close>, (intro wr_opt_bind, subst put_if_mem, simp, use assms(1) e in \<open>simp add: tp_ok_def\<close>, assumption)+, rule refl)
qed

lemma length_tp_entry: "length (tp_entry (pid, v)) = tp_len pid v"
  by (simp only: tp_entry_def tp_len_def length_append varint_len_enc fst_conv snd_conv)

lemma length_opt_entry: "length (concat (map tp_entry (opt_entry c pid v))) = (if c then tp_len pid v else 0)"
  by (simp add: opt_entry_def length_tp_entry)

lemma tp_len_datagram: "tp_len 0x20 v = rqc_put_varint_len 0x20 + 1 + rqc_put_varint_len v"
  by (simp add: tp_len_def) (simp add: rqc_put_varint_len_def)

lemma calc_length: "rqc_transport_params_calc_length params = length (tp_bytes params)"
  unfolding rqc_transport_params_calc_length_def tp_bytes_def tp_entries_def map_append concat_append length_append
    length_opt_entry tp_len_datagram by simp

lemma rqc_encode_spec:
  assumes "tp_ok params" "out_cap \<le> length out"
  shows "rqc_encode_transport_params params out out_cap =
    (if out_cap < length (tp_bytes params) then Err (- RQC_ENOBUF)
     else Inr (overwrite out 0 (tp_bytes params), length (tp_bytes params)))"
proof -
  have d: "\<not> max_datagram_frame_size params > 2 ^ 62 - 1"
    using assms(1) by (simp add: tp_ok_def not_less word_le_nat_alt word_less_nat_alt)
  have f: "encode_fields params (Some (out, 0)) = map_option Some (wr_mem (tp_bytes params) (out, 0))"
    using encode_fields_mem [OF assms(1), of "(out, 0)"] by simp
  show ?thesis
    unfolding rqc_encode_transport_params_def calc_length Let_def f
    using d assms(2) by (simp add: wr_mem_def)
qed

subsection \<open>Decoding entries\<close>

definition tp_set :: "u64 \<times> u64 \<Rightarrow> rqc_transport_params \<Rightarrow> rqc_transport_params" where
  "tp_set e params = (case e of (pid, v) \<Rightarrow>
     if pid = 0 then params\<lparr>max_idle_timeout := v\<rparr>
     else if pid = 1 then params\<lparr>max_udp_payload_size := v\<rparr>
     else if pid = 2 then params\<lparr>initial_max_data := v\<rparr>
     else if pid = 3 then params\<lparr>initial_max_stream_data_bidi_local := v\<rparr>
     else if pid = 4 then params\<lparr>initial_max_stream_data_bidi_remote := v\<rparr>
     else if pid = 5 then params\<lparr>initial_max_stream_data_uni := v\<rparr>
     else if pid = 6 then params\<lparr>initial_max_streams_bidi := v\<rparr>
     else if pid = 7 then params\<lparr>initial_max_streams_uni := v\<rparr>
     else if pid = 8 then params\<lparr>ack_delay_exponent := v\<rparr>
     else if pid = 9 then params\<lparr>max_ack_delay := v\<rparr>
     else params\<lparr>max_datagram_frame_size := v\<rparr>)"

definition known_ids :: "u64 list" where
  "known_ids = [0, 1, 2, 3, 4, 5, 6, 7, 8, 9, 0x20]"

lemmas decoders = rqc_decode_max_idle_timeout_def rqc_decode_max_udp_payload_size_def rqc_decode_initial_max_data_def
  rqc_decode_initial_max_stream_data_bidi_local_def rqc_decode_initial_max_stream_data_bidi_remote_def
  rqc_decode_initial_max_stream_data_uni_def rqc_decode_initial_max_streams_bidi_def
  rqc_decode_initial_max_streams_uni_def rqc_decode_ack_delay_exponent_def rqc_decode_max_ack_delay_def
  RQC_DECODE_VINT_VALUE_def

lemma tp_read_enc:
  assumes "v < 2 ^ 62" "holds_at buf p (vint_enc v)" "p + length (vint_enc v) \<le> end"
  shows "tp_read buf p end = Inr (v, length (vint_enc v))"
  using rqc_vint_read_enc [OF assms] holds_at_length [OF assms(2)] by (simp add: tp_read_Inr)

lemma decode_table_entry:
  assumes "tp_read buf p end = Inr (v, n)" "pid \<in> set known_ids" "pid \<noteq> 0x20" "pid = 8 \<Longrightarrow> v \<le> 20"
  shows "decode_table_value params buf p end pid = Inr (tp_set (pid, v) params)"
  using assms(2-)
  by (auto simp: known_ids_def decode_table_value_def rqc_trans_param_get_index_def rqc_trans_param_decode_func_list_def
      decoders assms(1) tp_set_def)

lemma decode_one_entry:
  assumes "holds_at buf p (tp_entry (pid, v))" "p + length (tp_entry (pid, v)) \<le> end" "end \<le> length buf"
    "v < 2 ^ 62" "pid \<in> set known_ids" "pid = 8 \<Longrightarrow> v \<le> 20" "pid = 0x20 \<Longrightarrow> max_datagram_frame_size params = 0"
  shows "tp_read buf p end = Inr (pid, length (vint_enc pid))"
    and "rqc_decode_one_transport_param params buf p end = Inr (tp_set (pid, v) params, p + length (tp_entry (pid, v)))"
proof -
  define l where "l = (of_nat (rqc_put_varint_len v) :: u64)"
  have ids: "pid < 2 ^ 62" "l < 2 ^ 62" using assms(5) less_64_62 [OF varint_len_small(1), of v]
    by (auto simp: known_ids_def l_def)
  have ul: "unat l = length (vint_enc v)" using varint_len_small(2) [of v] unfolding l_def varint_len_enc .
  have e: "tp_entry (pid, v) = vint_enc pid @ vint_enc l @ vint_enc v" by (simp add: tp_entry_def l_def)
  let ?q = "p + length (vint_enc pid)" and ?r = "p + length (vint_enc pid) + length (vint_enc l)"
  have at: "holds_at buf p (vint_enc pid)" "holds_at buf ?q (vint_enc l)" "holds_at buf ?r (vint_enc v)"
    using assms(1) unfolding e holds_at_append by (simp_all add: add.assoc)
  have len: "?r + length (vint_enc v) \<le> end" using assms(2) unfolding e by (simp only: length_append add.assoc)
  show r1: "tp_read buf p end = Inr (pid, length (vint_enc pid))"
    using len by (intro tp_read_enc [OF ids(1) at(1)]) linarith
  have r2: "tp_read buf ?q end = Inr (l, length (vint_enc l))"
    using len by (intro tp_read_enc [OF ids(2) at(2)]) linarith
  have r3: "tp_read buf ?r end = Inr (v, length (vint_enc v))"
    "tp_read buf ?r (?r + unat l) = Inr (v, length (vint_enc v))"
    using len ul by (simp_all only: tp_read_enc [OF assms(4) at(3)])
  have dg: "decode_datagram_value params buf ?r pid l = Inr (if pid = 0x20 then tp_set (pid, v) params else params)"
    unfolding decode_datagram_value_def r3(2) res_bind_simps prod.case using ul assms(7) by (auto simp: tp_set_def)
  have tb: "decode_table_value (if pid = 0x20 then tp_set (pid, v) params else params) buf ?r end pid = Inr (tp_set (pid, v) params)"
    using decode_table_entry [OF r3(1) assms(5) _ assms(6), of params]
    by (auto simp: decode_table_value_def rqc_trans_param_get_index_def)
  have "\<not> unat l > end - ?q - length (vint_enc l)" using len ul by linarith
  then show "rqc_decode_one_transport_param params buf p end = Inr (tp_set (pid, v) params, p + length (tp_entry (pid, v)))"
    unfolding rqc_decode_one_transport_param_def r1 res_bind_simps prod.case Let_def r2 dg res_bind_simps tb e
    using ul by (simp add: add.assoc)
qed

lemma tp_set_datagram: "pid \<in> set known_ids \<Longrightarrow> pid \<noteq> 0x20 \<Longrightarrow> max_datagram_frame_size (tp_set (pid, v) params) = max_datagram_frame_size params"
  by (auto simp: tp_set_def known_ids_def)

lemma decode_params_entries:
  assumes "holds_at buf p (concat (map tp_entry es))" "p + length (concat (map tp_entry es)) = end" "end \<le> length buf"
    "\<forall>(pid, v) \<in> set es. v < 2 ^ 62 \<and> pid \<in> set known_ids \<and> (pid = 8 \<longrightarrow> v \<le> 20)" "distinct (map fst es)"
    "0x20 \<in> set (map fst es) \<longrightarrow> \<not> seen \<and> max_datagram_frame_size params = 0"
  shows "decode_params buf p end seen params = Inr (fold tp_set es params, end)"
  using assms
proof (induction es arbitrary: p seen params)
  case Nil
  then show ?case by (simp add: decode_params.simps)
next
  case (Cons e es)
  obtain pid v where e: "e = (pid, v)" by (cases e)
  let ?q = "p + length (tp_entry (pid, v))"
  have at: "holds_at buf p (tp_entry (pid, v))" "holds_at buf ?q (concat (map tp_entry es))"
    using Cons.prems(1) e by (simp_all add: holds_at_append)
  have len: "?q \<le> end" "?q + length (concat (map tp_entry es)) = end" using Cons.prems(2) e by simp_all
  have v: "v < 2 ^ 62" "pid \<in> set known_ids" "pid = 8 \<Longrightarrow> v \<le> 20" using Cons.prems(4) e by auto
  have dg: "pid = 0x20 \<Longrightarrow> max_datagram_frame_size params = 0" using Cons.prems(6) e by auto
  note one = decode_one_entry [OF at(1) len(1) Cons.prems(3) v dg]
  have "p < end" using rqc_vint_read_Some(3) [of buf p "end"] one(1) by (simp add: tp_read_Inr)
  moreover have "\<not> (pid = 0x20 \<and> seen)" using Cons.prems(6) e by auto
  moreover have "decode_params buf ?q end (if pid = 0x20 then True else seen) (tp_set (pid, v) params) =
      Inr (fold tp_set es (tp_set (pid, v) params), end)"
    by (rule Cons.IH [OF at(2) len(2) Cons.prems(3)])
      (use Cons.prems(4-6) e tp_set_datagram [OF v(2)] in \<open>auto split: if_splits\<close>)
  ultimately show ?case
    by (subst decode_params.simps) (simp add: one e)
qed

text \<open>Setting a field to a value that differs from its default, or leaving the default.\<close>

definition opt_set :: "bool \<Rightarrow> u64 \<times> u64 \<Rightarrow> rqc_transport_params \<Rightarrow> rqc_transport_params" where
  "opt_set c e p = (if c then tp_set e p else p)"

lemma fold_opt_entry: "fold tp_set (opt_entry c pid v) p = opt_set c (pid, v) p"
  by (simp add: opt_entry_def opt_set_def)

lemma opt_set_fields:
  "max_idle_timeout (opt_set c (pid, v) p) = (if c \<and> pid = 0 then v else max_idle_timeout p)"
  "max_udp_payload_size (opt_set c (pid, v) p) = (if c \<and> pid = 1 then v else max_udp_payload_size p)"
  "initial_max_data (opt_set c (pid, v) p) = (if c \<and> pid = 2 then v else initial_max_data p)"
  "initial_max_stream_data_bidi_local (opt_set c (pid, v) p) = (if c \<and> pid = 3 then v else initial_max_stream_data_bidi_local p)"
  "initial_max_stream_data_bidi_remote (opt_set c (pid, v) p) = (if c \<and> pid = 4 then v else initial_max_stream_data_bidi_remote p)"
  "initial_max_stream_data_uni (opt_set c (pid, v) p) = (if c \<and> pid = 5 then v else initial_max_stream_data_uni p)"
  "initial_max_streams_bidi (opt_set c (pid, v) p) = (if c \<and> pid = 6 then v else initial_max_streams_bidi p)"
  "initial_max_streams_uni (opt_set c (pid, v) p) = (if c \<and> pid = 7 then v else initial_max_streams_uni p)"
  "ack_delay_exponent (opt_set c (pid, v) p) = (if c \<and> pid = 8 then v else ack_delay_exponent p)"
  "max_ack_delay (opt_set c (pid, v) p) = (if c \<and> pid = 9 then v else max_ack_delay p)"
  "max_datagram_frame_size (opt_set c (pid, v) p) =
     (if c \<and> pid \<notin> {0, 1, 2, 3, 4, 5, 6, 7, 8, 9} then v else max_datagram_frame_size p)"
  by (auto simp: opt_set_def tp_set_def)

lemma fold_tp_entries:
  "fold tp_set (tp_entries params)
     \<lparr>max_idle_timeout = 0, max_udp_payload_size = RQC_DEFAULT_MAX_UDP_PAYLOAD_SIZE,
      max_datagram_frame_size = 0, initial_max_data = 0, initial_max_stream_data_bidi_local = 0,
      initial_max_stream_data_bidi_remote = 0, initial_max_stream_data_uni = 0,
      initial_max_streams_bidi = 0, initial_max_streams_uni = 0,
      ack_delay_exponent = RQC_DEFAULT_ACK_DELAY_EXPONENT, max_ack_delay = RQC_DEFAULT_MAX_ACK_DELAY\<rparr> = params"
  unfolding tp_entries_def fold_append comp_def fold_opt_entry
  by (rule rqc_transport_params.equality) (simp_all add: opt_set_fields)

lemma tp_entries_ok:
  assumes "tp_ok params"
  shows "\<forall>(pid, v) \<in> set (tp_entries params). v < 2 ^ 62 \<and> pid \<in> set known_ids \<and> (pid = 8 \<longrightarrow> v \<le> 20)"
    and "distinct (map fst (tp_entries params))"
proof -
  have e: "ack_delay_exponent params < 2 ^ 62" "ack_delay_exponent params \<le> 20"
    using assms order.strict_trans1 [of "ack_delay_exponent params" 20 "2 ^ 62"] by (simp_all add: tp_ok_def)
  show "\<forall>(pid, v) \<in> set (tp_entries params). v < 2 ^ 62 \<and> pid \<in> set known_ids \<and> (pid = 8 \<longrightarrow> v \<le> 20)"
    using assms e by (auto simp: tp_entries_def opt_entry_def tp_ok_def known_ids_def)
  have d: "distinct (map fst (opt_entry c pid v @ es)) \<longleftrightarrow> (c \<longrightarrow> pid \<notin> fst ` set es) \<and> distinct (map fst es)"
    for c pid v and es :: "(u64 \<times> u64) list" by (auto simp: opt_entry_def)
  show "distinct (map fst (tp_entries params))"
    unfolding tp_entries_def d by (auto simp: opt_entry_def)
qed

lemma rqc_decode_bytes:
  assumes "tp_ok params" "holds_at buf 0 (tp_bytes params)"
  shows "rqc_decode_transport_params buf (length (tp_bytes params)) = Inr params"
proof -
  have "decode_params buf 0 (length (tp_bytes params)) False p = Inr (fold tp_set (tp_entries params) p, length (tp_bytes params))"
    if "max_datagram_frame_size p = 0" for p
    using decode_params_entries [OF _ _ _ tp_entries_ok [OF assms(1)], of buf 0 "length (tp_bytes params)" False p] assms(2) that
    by (simp add: tp_bytes_def holds_at_length [where p = 0, simplified])
  then show ?thesis unfolding rqc_decode_transport_params_def by (simp add: fold_tp_entries)
qed

subsection \<open>What the decoder accepts\<close>

lemma tp_ok_set: "tp_ok params \<Longrightarrow> v < 2 ^ 62 \<Longrightarrow> (pid = 8 \<longrightarrow> v \<le> 20) \<Longrightarrow> tp_ok (tp_set (pid, v) params)"
  by (simp add: tp_ok_def tp_set_def)

text \<open>Inside the buffer a read gives a value with an encoding or the error code.\<close>

definition tp_post :: "('a \<Rightarrow> bool) \<Rightarrow> 'a res \<Rightarrow> bool" where
  "tp_post P r \<longleftrightarrow> (case r of Inl e \<Rightarrow> e = Ret (- RQC_EILLTP) | Inr x \<Rightarrow> P x)"

lemma tp_post_simps [simp]: "tp_post P (Inr x) = P x" "tp_post P (Inl e) \<longleftrightarrow> e = Ret (- RQC_EILLTP)"
  by (simp_all add: tp_post_def)

lemma tp_post_bind: "tp_post Q r \<Longrightarrow> (\<And>x. r = Inr x \<Longrightarrow> Q x \<Longrightarrow> tp_post P (f x)) \<Longrightarrow> tp_post P (res_bind r f)"
  by (cases r) simp_all

lemma tp_read_post:
  assumes "end \<le> length buf"
  shows "tp_post (\<lambda>(v, n). v < 2 ^ 62 \<and> 0 < n \<and> p + n \<le> end) (tp_read buf p end)"
proof (cases "rqc_vint_read buf p end")
  case None
  then show ?thesis using assms by (simp add: tp_read_def)
next
  case (Some vn)
  obtain v n where vn: "vn = (v, n)" by (cases vn)
  note b = rqc_vint_read_Some [OF Some [unfolded vn]] rqc_vint_read_bound [OF Some [unfolded vn]]
  then show ?thesis using Some vn assms by (auto simp: tp_read_def)
qed

lemma decode_table_value_post:
  assumes "tp_ok params" "end \<le> length buf"
  shows "tp_post tp_ok (decode_table_value params buf p end t)"
proof (cases "t \<in> set known_ids \<and> t \<noteq> 0x20")
  case False
  then have "rqc_trans_param_get_index t = RQC_TP_DECODER_UNKNOWN"
    by (auto simp: rqc_trans_param_get_index_def known_ids_def)
  then show ?thesis using assms(1) by (simp add: decode_table_value_def)
next
  case True
  show ?thesis
  proof (cases "tp_read buf p end")
    case (Inl e)
    then have "e = Ret (- RQC_EILLTP)" using tp_read_post [OF assms(2), of p] by simp
    then show ?thesis using True Inl
      by (auto simp: known_ids_def decode_table_value_def rqc_trans_param_get_index_def rqc_trans_param_decode_func_list_def decoders)
  next
    case (Inr vn)
    obtain v n where vn: "vn = (v, n)" by (cases vn)
    have v: "v < 2 ^ 62" using tp_read_post [OF assms(2), of p] Inr vn by simp
    show ?thesis
    proof (cases "t = 8 \<and> 20 < v")
      case True
      then show ?thesis using Inr vn
        by (simp add: known_ids_def decode_table_value_def rqc_trans_param_get_index_def rqc_trans_param_decode_func_list_def decoders)
    next
      case False
      then show ?thesis using decode_table_entry [OF Inr [unfolded vn], of t params] True tp_ok_set [OF assms(1) v, of t] by (auto simp: not_less)
    qed
  qed
qed

lemma decode_datagram_value_post:
  assumes "tp_ok params" "p + unat l \<le> length buf"
  shows "tp_post tp_ok (decode_datagram_value params buf p t l)"
proof (cases "t = 0x20")
  case True
  have "tp_post tp_ok (res_bind (tp_read buf p (p + unat l)) (\<lambda>(v, n).
      if n \<noteq> unat l \<or> max_datagram_frame_size params \<noteq> 0 then Err (- RQC_EILLTP) else Inr (params\<lparr>max_datagram_frame_size := v\<rparr>)))"
    by (rule tp_post_bind [OF tp_read_post [OF assms(2)]]) (use assms(1) in \<open>auto simp: tp_ok_def\<close>)
  then show ?thesis using True by (simp add: decode_datagram_value_def)
qed (use assms(1) in \<open>simp add: decode_datagram_value_def\<close>)

lemma decode_one_post:
  assumes "tp_ok params" "end \<le> length buf"
  shows "tp_post (\<lambda>(params', q). tp_ok params' \<and> p < q \<and> q \<le> end) (rqc_decode_one_transport_param params buf p end)"
  unfolding rqc_decode_one_transport_param_def Let_def
proof (rule tp_post_bind [OF tp_read_post [OF assms(2)]], clarify)
  fix t n assume n: "0 < n" "p + n \<le> end"
  show "tp_post (\<lambda>(params', q). tp_ok params' \<and> p < q \<and> q \<le> end)
      (res_bind (tp_read buf (p + n) end) (\<lambda>(l, m). if unat l > end - (p + n) - m then Err (- RQC_EILLTP)
        else res_bind (decode_datagram_value params buf (p + n + m) t l) (\<lambda>params.
          res_bind (decode_table_value params buf (p + n + m) end t) (\<lambda>params. Inr (params, p + n + m + unat l)))))"
  proof (rule tp_post_bind [OF tp_read_post [OF assms(2)]], clarify)
    fix l m assume m: "0 < m" "p + n + m \<le> end"
    let ?rest = "res_bind (decode_datagram_value params buf (p + n + m) t l) (\<lambda>params.
        res_bind (decode_table_value params buf (p + n + m) end t) (\<lambda>params. Inr (params, p + n + m + unat l)))"
    show "tp_post (\<lambda>(params', q). tp_ok params' \<and> p < q \<and> q \<le> end) (if unat l > end - (p + n) - m then Err (- RQC_EILLTP) else ?rest)"
    proof (cases "unat l > end - (p + n) - m")
      case False
      then have l: "p + n + m + unat l \<le> end" "p + n + m + unat l \<le> length buf" using m assms(2) by linarith+
      have "tp_post (\<lambda>(params', q). tp_ok params' \<and> p < q \<and> q \<le> end) ?rest"
        by (rule tp_post_bind [OF decode_datagram_value_post [OF assms(1) l(2)]], rule tp_post_bind [OF decode_table_value_post [OF _ assms(2)]])
          (use l(1) n in auto)
      then show ?thesis using False by simp
    qed simp
  qed
qed

lemma decode_params_post:
  "tp_ok params \<Longrightarrow> end \<le> length buf \<Longrightarrow> p \<le> end \<Longrightarrow> tp_post (\<lambda>(params', q). tp_ok params' \<and> q = end) (decode_params buf p end seen params)"
proof (induction buf p "end" seen params rule: decode_params.induct)
  case (1 buf p e seen params)
  show ?case
  proof (cases "p < e")
    case False
    then show ?thesis using "1.prems" by (subst decode_params.simps) simp
  next
    case True
    have "tp_post (\<lambda>(params', q). tp_ok params' \<and> q = e) (res_bind (tp_read buf p e) (\<lambda>(t, _).
        if t = 0x20 \<and> seen then Err (- RQC_EILLTP)
        else res_bind (rqc_decode_one_transport_param params buf p e) (\<lambda>(params, p). decode_params buf p e (if t = 0x20 then True else seen) params)))"
    proof (rule tp_post_bind [OF tp_read_post [OF "1.prems"(2)]], clarify)
      fix t n assume rd: "tp_read buf p e = Inr (t, n)"
      show "tp_post (\<lambda>(params', q). tp_ok params' \<and> q = e) (if t = 0x20 \<and> seen then Err (- RQC_EILLTP)
        else res_bind (rqc_decode_one_transport_param params buf p e) (\<lambda>(params, p). decode_params buf p e (if t = 0x20 then True else seen) params))"
      proof (cases "t = 0x20 \<and> seen")
        case False
        have "tp_post (\<lambda>(params', q). tp_ok params' \<and> q = e)
          (res_bind (rqc_decode_one_transport_param params buf p e) (\<lambda>(params, p). decode_params buf p e (if t = 0x20 then True else seen) params))"
        proof (rule tp_post_bind [OF decode_one_post [OF "1.prems"(1,2)]], clarify)
          fix params' q assume o: "rqc_decode_one_transport_param params buf p e = Inr (params', q)" "tp_ok params'" "q \<le> e"
          show "tp_post (\<lambda>(params', q). tp_ok params' \<and> q = e) (decode_params buf q e (if t = 0x20 then True else seen) params')"
            by (rule "1.IH" [OF True rd refl False o(1) refl o(2) "1.prems"(2) o(3)])
        qed
        then show ?thesis using False by (simp only: if_False)
      qed simp
    qed
    then show ?thesis using True by (subst decode_params.simps) simp
  qed
qed

text \<open>
  A value without an encoding, followed by another parameter, makes the encoder write through
  \<open>NULL\<close>.
\<close>

lemma rqc_encode_null_write:
  assumes "max_idle_timeout params \<ge> 2 ^ 62" "max_udp_payload_size params \<noteq> RQC_DEFAULT_MAX_UDP_PAYLOAD_SIZE"
    "max_datagram_frame_size params < 2 ^ 62" "rqc_transport_params_calc_length params \<le> out_cap" "out_cap \<le> length out"
  shows "rqc_encode_transport_params params out out_cap = Inl Fault"
proof -
  have v: "rqc_put_varint_bytes (max_idle_timeout params) = None" using assms(1) by (simp add: rqc_put_varint_bytes_eq not_less)
  have "rqc_put_varint_param 1 v None = None" for v
    by (simp add: rqc_put_varint_param_def rqc_put_varint_def rqc_put_varint_bytes_eq)
  then have next_fault: "put_if True 1 v None = None" for v by (simp add: put_if_def)
  have "encode_fields params (Some c) = None" for c
  proof -
    have nz: "max_idle_timeout params \<noteq> 0" using assms(1) by auto
    have "put_if True 0 (max_idle_timeout params) (Some c) \<in> {None, Some None}"
      unfolding put_if_def rqc_put_varint_param_def rqc_put_varint_def v
      by (auto simp: rqc_put_varint_bytes_eq split: option.splits bind_splits)
    then show ?thesis using nz assms(2) next_fault unfolding encode_fields_def by auto
  qed
  moreover have "\<not> max_datagram_frame_size params > 2 ^ 62 - 1"
    using assms(3) by (simp add: not_less word_le_nat_alt word_less_nat_alt)
  ultimately show ?thesis using assms(4) by (simp add: rqc_encode_transport_params_def Let_def)
qed

subsection \<open>Properties\<close>

text \<open>
  C32: transport parameters survive the wire: when every value has an encoding and the
  acknowledgement exponent is allowed, the encoder fails with \<open>-RQC_ENOBUF\<close> exactly when the
  announced capacity is too small for the length it computes, and otherwise writes exactly that
  many bytes, from which the decoder recovers the same parameters, the defaults it did not send
  included.
\<close>

theorem transport_params_roundtrip:
  assumes "tp_ok params" and "out_cap \<le> length out"
  shows "if out_cap < rqc_transport_params_calc_length params
    then rqc_encode_transport_params params out out_cap = Err (- RQC_ENOBUF)
    else \<exists>buf. rqc_encode_transport_params params out out_cap = Inr (buf, rqc_transport_params_calc_length params) \<and>
      length buf = length out \<and> drop (rqc_transport_params_calc_length params) buf = drop (rqc_transport_params_calc_length params) out \<and>
      rqc_decode_transport_params buf (rqc_transport_params_calc_length params) = Inr params"
proof (cases "out_cap < rqc_transport_params_calc_length params")
  case True
  then show ?thesis using rqc_encode_spec [OF assms] by (simp add: calc_length)
next
  case False
  let ?buf = "overwrite out 0 (tp_bytes params)"
  have "holds_at ?buf 0 (tp_bytes params)" using False assms(2) by (simp add: calc_length holds_at_overwrite)
  then have "rqc_decode_transport_params ?buf (length (tp_bytes params)) = Inr params" by (rule rqc_decode_bytes [OF assms(1)])
  then show ?thesis using False rqc_encode_spec [OF assms] assms(2)
    by (simp add: calc_length overwrite_def)
qed

definition tp_example :: rqc_transport_params where
  "tp_example = rqc_init_transport_params\<lparr>max_idle_timeout := 30000, initial_max_data := 65536, ack_delay_exponent := 5,
     max_datagram_frame_size := 1200\<rparr>"

theorem transport_params_roundtrip_witness:
  "\<exists>buf. rqc_encode_transport_params tp_example (replicate 256 0) 256 = Inr (buf, rqc_transport_params_calc_length tp_example) \<and>
     rqc_decode_transport_params buf (rqc_transport_params_calc_length tp_example) = Inr tp_example"
proof -
  have "tp_ok tp_example" by (simp add: tp_ok_def tp_example_def rqc_init_transport_params_def)
  moreover have "rqc_transport_params_calc_length tp_example \<le> 256"
    by (simp add: rqc_transport_params_calc_length_def tp_len_def tp_example_def rqc_init_transport_params_def rqc_put_varint_len_def)
  ultimately show ?thesis using transport_params_roundtrip [of tp_example 256 "replicate 256 0"] by auto
qed

text \<open>
  C33: decoding transport parameters from any \<open>in_len\<close> bytes of memory that are there terminates, looks at no byte outside
  them, and either accepts parameters that respect the limits, an acknowledgement exponent of at
  most 20 and values below \<open>2 ^ 62\<close>, or returns \<open>-RQC_EILLTP\<close>.
\<close>

theorem transport_params_decode_valid:
  assumes "in_len \<le> length buf"
  shows "rqc_decode_transport_params buf in_len \<noteq> Inl Fault \<and>
    (rqc_decode_transport_params buf in_len = Err (- RQC_EILLTP) \<or>
     (\<exists>params. rqc_decode_transport_params buf in_len = Inr params \<and> tp_ok params))"
proof -
  have "tp_post tp_ok (rqc_decode_transport_params buf in_len)"
    unfolding rqc_decode_transport_params_def
    by (rule tp_post_bind [OF decode_params_post [OF _ assms]]) (auto simp: tp_ok_def)
  then show ?thesis by (cases "rqc_decode_transport_params buf in_len") auto
qed

text \<open>An acknowledgement exponent of 20, and a datagram size whose announced length goes past the end.\<close>

theorem transport_params_decode_valid_witness:
  "(\<exists>params. rqc_decode_transport_params [8, 1, 20] 3 = Inr params \<and> tp_ok params) \<and>
   rqc_decode_transport_params [0x20, 8, 0xC0] 3 = Err (- RQC_EILLTP)"
proof -
  have "(case rqc_decode_transport_params [8, 1, 20] 3 of Inl _ \<Rightarrow> False | Inr _ \<Rightarrow> True)"
    "(case rqc_decode_transport_params [0x20, 8, 0xC0] 3 of Inl _ \<Rightarrow> True | Inr _ \<Rightarrow> False)" by code_simp+
  with transport_params_decode_valid [of 3 "[8, 1, 20]"] transport_params_decode_valid [of 3 "[0x20, 8, 0xC0]"]
  show ?thesis by (auto split: sum.splits)
qed

end
