(* ===== verification/Rqc_Stream_In.thy ===== *)
theory Rqc_Stream_In
  imports Rqc_Frame_Stream
begin

text \<open>
  The receiving side of one stream: \<open>rqc_stream_data_in_t\<close> of \<open>src/transport/rqc_stream.h\<close>,
  \<open>rqc_insert_stream_frame\<close> of \<open>src/transport/rqc_frame.c\<close>, and the read loops of
  \<open>rqc_stream_recv\<close> and \<open>rqc_stream_peek\<close> of \<open>src/transport/rqc_stream.c\<close>.

  STREAM frames arrive in any order and may overlap. They are kept sorted by offset in
  \<open>frames_tailq\<close>; \<open>merged_offset_end\<close> is the end of the data that can be read without a hole and
  \<open>next_read_offset\<close> the position of the reader.

  The invariant \<open>din_ok\<close> says that every kept frame carries the bytes of the sender's stream at its
  place, that the list is sorted, and that merging the list from the reader's position gives
  \<open>merged_offset_end\<close>. \<open>received\<close> abstracts the state to a set of stream positions: an
  insertion adds the positions of the frame, the end of the readable data is the least position
  that is missing, and reading delivers the sender's bytes from the reader's position on.
\<close>

subsection \<open>Data\<close>

text \<open>The parsed frame with its list-time field \<open>next_read_offset\<close>, zero from \<open>rqc_calloc\<close>.\<close>

record rqc_stream_frame_in = rqc_stream_frame +
  sf_next_read_offset :: u64

record rqc_stream_data_in =
  frames_tailq :: "rqc_stream_frame_in list"
  merged_offset_end :: u64
  next_read_offset :: u64
  stream_length :: u64
  stream_determined :: bool

text \<open>The receiving state of a new stream: zeroed by \<open>rqc_calloc\<close>, with an empty list.\<close>

definition stream_in_init :: rqc_stream_data_in where
  "stream_in_init = \<lparr>frames_tailq = [], merged_offset_end = 0, next_read_offset = 0, stream_length = 0, stream_determined = False\<rparr>"

abbreviation (input) "RQC_EDUP_FRAME \<equiv> (624 :: int)"

definition frame_end :: "rqc_stream_frame_in \<Rightarrow> u64" where
  "frame_end f = sf_data_offset f + of_nat (sf_data_length f)"

subsection \<open>Inserting a frame\<close>

text \<open>
  The reverse walk of \<open>rqc_insert_stream_frame\<close>: the second argument is what is still ahead of the
  walk, nearest first, the third what it has passed. \<open>None\<close> is the return of
  \<open>-RQC_EDUP_FRAME\<close>, otherwise the frame goes between the two lists.
\<close>

fun insert_scan ::
  "rqc_stream_frame_in \<Rightarrow> rqc_stream_frame_in list \<Rightarrow> rqc_stream_frame_in list \<Rightarrow>
   (rqc_stream_frame_in list \<times> rqc_stream_frame_in list) option" where
  "insert_scan new_frame [] passed = Some ([], passed)"
| "insert_scan new_frame (frame # ahead) passed =
     (if sf_data_offset frame \<le> sf_data_offset new_frame \<and> sf_data_length new_frame > 0
         \<and> frame_end new_frame \<le> frame_end frame then None
      else if sf_data_offset frame \<le> sf_data_offset new_frame then Some (rev (frame # ahead), passed)
      else insert_scan new_frame ahead (frame # passed))"

fun merge_loop :: "u64 \<Rightarrow> rqc_stream_frame_in list \<Rightarrow> u64" where
  "merge_loop m [] = m"
| "merge_loop m (frame # fs) =
     (if m \<ge> sf_data_offset frame then merge_loop (max (frame_end frame) m) fs else m)"

definition rqc_insert_stream_frame ::
  "rqc_stream_data_in \<Rightarrow> rqc_stream_frame_in \<Rightarrow> int \<times> rqc_stream_data_in" where
  "rqc_insert_stream_frame d new_frame =
     (case insert_scan new_frame (rev (frames_tailq d)) [] of
        None \<Rightarrow> (- RQC_EDUP_FRAME, d)
      | Some (before, after) \<Rightarrow>
          (RQC_OK, d\<lparr>frames_tailq := before @ new_frame # after,
             merged_offset_end :=
               (if merged_offset_end d \<ge> sf_data_offset new_frame \<and> merged_offset_end d < frame_end new_frame
                then merge_loop (frame_end new_frame) after else merged_offset_end d)\<rparr>))"

subsection \<open>Reading\<close>

text \<open>
  \<open>copy_out\<close> is the source of a \<open>memcpy\<close>: \<open>n\<close> bytes of the data of a frame from position \<open>p\<close>.
  The destination is filled from its start, so that it is the list of what was copied.
\<close>

definition copy_out :: "rqc_stream_frame_in \<Rightarrow> u64 \<Rightarrow> u64 \<Rightarrow> byte list res" where
  "copy_out f p n =
     (if unat p + unat n \<le> length (sf_data f) then Inr (take (unat n) (drop (unat p) (sf_data f))) else Inl Fault)"

text \<open>
  The loop of \<open>rqc_stream_recv\<close>, with the remaining list, the stream's and the call's read
  counters and the receive buffer.
\<close>

fun recv_loop ::
  "u64 \<Rightarrow> u64 \<Rightarrow> rqc_stream_frame_in list \<Rightarrow> u64 \<Rightarrow> u64 \<Rightarrow> byte list \<Rightarrow>
   (rqc_stream_frame_in list \<times> u64 \<times> u64 \<times> byte list) res" where
  "recv_loop merged recv_buf_size [] next_read rd recv_buf = Inr ([], next_read, rd, recv_buf)"
| "recv_loop merged recv_buf_size (f # fs) next_read rd recv_buf =
     (if sf_data_offset f > merged then Inr (f # fs, next_read, rd, recv_buf)
      else if rd \<ge> recv_buf_size then Inr (f # fs, next_read, rd, recv_buf)
      else if frame_end f < next_read then recv_loop merged recv_buf_size fs next_read rd recv_buf
      else let nro = (if sf_data_offset f < next_read
                      then max (sf_next_read_offset f) (next_read - sf_data_offset f)
                      else sf_next_read_offset f);
               frame_left = of_nat (sf_data_length f) - nro
           in if rd + frame_left \<le> recv_buf_size then
                res_bind (copy_out f nro frame_left) (\<lambda>bs.
                  recv_loop merged recv_buf_size fs (next_read + frame_left) (rd + frame_left) (recv_buf @ bs))
              else
                res_bind (copy_out f nro (recv_buf_size - rd)) (\<lambda>bs.
                  Inr (f\<lparr>sf_next_read_offset := nro + (recv_buf_size - rd)\<rparr> # fs,
                       next_read + (recv_buf_size - rd), recv_buf_size, recv_buf @ bs)))"

text \<open>The loop on the receiving state of a stream: what \<open>rqc_stream_recv\<close> does to it.\<close>

definition stream_read :: "u64 \<Rightarrow> rqc_stream_data_in \<Rightarrow> (byte list \<times> rqc_stream_data_in) res" where
  "stream_read recv_buf_size d =
     res_bind (recv_loop (merged_offset_end d) recv_buf_size (frames_tailq d) (next_read_offset d) 0 [])
       (\<lambda>(fs, next_read, rd, recv_buf). Inr (recv_buf, d\<lparr>frames_tailq := fs, next_read_offset := next_read\<rparr>))"

text \<open>The loop of \<open>rqc_stream_peek\<close>.\<close>

fun peek_loop ::
  "u64 \<Rightarrow> rqc_stream_frame_in list \<Rightarrow> u64 \<Rightarrow> u64 \<Rightarrow> byte list \<Rightarrow> (u64 \<times> byte list) res" where
  "peek_loop peek_buf_size [] cursor copied peek_buf = Inr (copied, peek_buf)"
| "peek_loop peek_buf_size (f # fs) cursor copied peek_buf =
     (if frame_end f \<le> cursor then peek_loop peek_buf_size fs cursor copied peek_buf
      else if sf_data_offset f > cursor \<or> copied \<ge> peek_buf_size then Inr (copied, peek_buf)
      else let copy_size = min (frame_end f - cursor) (peek_buf_size - copied)
           in res_bind (copy_out f (cursor - sf_data_offset f) copy_size) (\<lambda>bs.
                peek_loop peek_buf_size fs (cursor + copy_size) (copied + copy_size) (peek_buf @ bs)))"

subsection \<open>The invariant\<close>

text \<open>\<open>S\<close> is the sender's stream, \<open>rd\<close> the reader's position.\<close>

definition frame_ok :: "(nat \<Rightarrow> byte) \<Rightarrow> u64 \<Rightarrow> rqc_stream_frame_in \<Rightarrow> bool" where
  "frame_ok S rd f \<longleftrightarrow>
     unat (sf_data_offset f) + sf_data_length f < 2 ^ 62 \<and>
     sf_data f = map S [unat (sf_data_offset f) ..< unat (sf_data_offset f) + sf_data_length f] \<and>
     (sf_next_read_offset f = 0 \<or> unat (sf_data_offset f) + unat (sf_next_read_offset f) \<le> unat rd)"

definition frames_sorted :: "rqc_stream_frame_in list \<Rightarrow> bool" where
  "frames_sorted fs \<longleftrightarrow> sorted_wrt (\<lambda>a b. sf_data_offset a \<le> sf_data_offset b) fs"

definition din_ok :: "(nat \<Rightarrow> byte) \<Rightarrow> rqc_stream_data_in \<Rightarrow> bool" where
  "din_ok S d \<longleftrightarrow> frames_sorted (frames_tailq d) \<and>
     (\<forall>f \<in> set (frames_tailq d). frame_ok S (next_read_offset d) f) \<and>
     merge_loop (next_read_offset d) (frames_tailq d) = merged_offset_end d \<and>
     unat (merged_offset_end d) < 2 ^ 62"

definition frame_range :: "rqc_stream_frame_in \<Rightarrow> nat set" where
  "frame_range f = {unat (sf_data_offset f) ..< unat (sf_data_offset f) + sf_data_length f}"

definition frames_cover :: "u64 \<Rightarrow> rqc_stream_frame_in list \<Rightarrow> nat set" where
  "frames_cover rd fs = {..< unat rd} \<union> (\<Union>f \<in> set fs. frame_range f)"

definition received :: "rqc_stream_data_in \<Rightarrow> nat set" where
  "received d = frames_cover (next_read_offset d) (frames_tailq d)"

lemma frame_okD:
  assumes "frame_ok S rd f"
  shows "unat (frame_end f) = unat (sf_data_offset f) + sf_data_length f"
    and "sf_data_offset f \<le> frame_end f"
    and "unat (frame_end f) < 2 ^ 62"
    and "length (sf_data f) = sf_data_length f"
    and "unat (of_nat (sf_data_length f) :: u64) = sf_data_length f"
proof -
  have b: "unat (sf_data_offset f) + sf_data_length f < 2 ^ 62" using assms by (simp add: frame_ok_def)
  then have l: "unat (of_nat (sf_data_length f) :: u64) = sf_data_length f" by (simp add: unat_of_nat_small)
  then show "unat (of_nat (sf_data_length f) :: u64) = sf_data_length f" .
  show e: "unat (frame_end f) = unat (sf_data_offset f) + sf_data_length f"
    unfolding frame_end_def using b l by (subst unat_add_lem [THEN iffD1]) simp_all
  show "sf_data_offset f \<le> frame_end f" by (simp add: word_le_nat_alt e)
  show "unat (frame_end f) < 2 ^ 62" using b e by simp
  show "length (sf_data f) = sf_data_length f" using assms by (simp add: frame_ok_def)
qed

lemma frame_range_end: "frame_ok S rd f \<Longrightarrow> frame_range f = {unat (sf_data_offset f) ..< unat (frame_end f)}"
  by (simp add: frame_range_def frame_okD(1))

lemma frame_ok_mono: "frame_ok S rd f \<Longrightarrow> rd \<le> rd' \<Longrightarrow> frame_ok S rd' f"
  unfolding frame_ok_def word_le_nat_alt by linarith

subsection \<open>Merging\<close>

lemma merge_loop_ge: "m \<le> merge_loop m fs"
  by (induction fs arbitrary: m) (auto intro: order_trans max.cobounded2)

lemma merge_loop_between:
  "m \<le> m' \<Longrightarrow> m' \<le> merge_loop m fs \<Longrightarrow> merge_loop m' fs = merge_loop m fs"
proof (induction fs arbitrary: m m')
  case (Cons f fs)
  show ?case
  proof (cases "sf_data_offset f \<le> m")
    case True
    then have t: "sf_data_offset f \<le> m'" using Cons.prems(1) by simp
    have "m' \<le> merge_loop (max (frame_end f) m) fs" using Cons.prems(2) True by simp
    moreover have "frame_end f \<le> merge_loop (max (frame_end f) m) fs"
      using merge_loop_ge [of "max (frame_end f) m" fs] by simp
    ultimately have "max (frame_end f) m' \<le> merge_loop (max (frame_end f) m) fs" by simp
    then have "merge_loop (max (frame_end f) m') fs = merge_loop (max (frame_end f) m) fs"
      using Cons.IH [of "max (frame_end f) m" "max (frame_end f) m'"] Cons.prems(1)
      by (meson max.mono order_refl)
    with True t show ?thesis by simp
  next
    case False
    with Cons.prems have "m' = m" by simp
    then show ?thesis by simp
  qed
qed simp

text \<open>Merging a list with one more frame, the frame at its sorted place.\<close>

lemma merge_loop_gap: "\<forall>b \<in> set bs. m < sf_data_offset b \<Longrightarrow> merge_loop m bs = m"
  by (cases bs) auto

lemma merge_loop_insert:
  assumes "\<forall>a \<in> set as. sf_data_offset a \<le> sf_data_offset f" "\<forall>b \<in> set bs. sf_data_offset f < sf_data_offset b"
    and "sf_data_offset f \<le> frame_end f"
  shows "merge_loop m (as @ f # bs) =
    (if sf_data_offset f \<le> merge_loop m (as @ bs) \<and> merge_loop m (as @ bs) < frame_end f
     then merge_loop (frame_end f) bs else merge_loop m (as @ bs))"
  using assms(1)
proof (induction as arbitrary: m)
  case Nil
  show ?case
  proof (cases "sf_data_offset f \<le> m")
    case True
    have ge: "m \<le> merge_loop m bs" by (rule merge_loop_ge)
    show ?thesis
    proof (cases "merge_loop m bs < frame_end f")
      case lt: True
      then have "max (frame_end f) m = frame_end f" using ge by (intro max.absorb1) order
      then show ?thesis using True ge lt by (auto simp: order_trans)
    next
      case False
      then have "merge_loop (max (frame_end f) m) bs = merge_loop m bs"
        using ge by (intro merge_loop_between) auto
      then show ?thesis using True False by simp
    qed
  next
    case False
    then have "merge_loop m bs = m" using assms(2) by (intro merge_loop_gap) (metis less_trans not_le)
    then show ?thesis using False by simp
  qed
next
  case (Cons a as)
  then show ?case by auto
qed

text \<open>The declarative reading: the merge ends at the first position that is not covered.\<close>

lemma merge_loop_covered:
  assumes "\<forall>f \<in> set fs. frame_ok S rd f"
  shows "n < unat (merge_loop m fs) \<Longrightarrow> n \<in> frames_cover m fs"
  using assms
proof (induction fs arbitrary: m)
  case (Cons f fs)
  show ?case
  proof (cases "sf_data_offset f \<le> m")
    case True
    then have "n \<in> frames_cover (max (frame_end f) m) fs" using Cons by simp
    moreover have "frame_range f = {unat (sf_data_offset f) ..< unat (frame_end f)}"
      using Cons.prems(2) by (intro frame_range_end) auto
    ultimately show ?thesis using True by (auto simp: frames_cover_def max_def word_le_nat_alt split: if_splits)
  qed (use Cons.prems in \<open>simp add: frames_cover_def\<close>)
qed (simp add: frames_cover_def)

lemma merge_loop_missing:
  assumes "\<forall>f \<in> set fs. frame_ok S rd f" "frames_sorted fs"
  shows "unat (merge_loop m fs) \<notin> frames_cover m fs"
  using assms
proof (induction fs arbitrary: m)
  case (Cons f fs)
  have r: "frame_range f = {unat (sf_data_offset f) ..< unat (frame_end f)}"
    using Cons.prems(1) by (intro frame_range_end) auto
  show ?case
  proof (cases "sf_data_offset f \<le> m")
    case True
    have "unat (merge_loop (max (frame_end f) m) fs) \<notin> frames_cover (max (frame_end f) m) fs"
      using Cons by (simp add: frames_sorted_def)
    then show ?thesis using True r by (auto simp: frames_cover_def max_def word_le_nat_alt split: if_splits)
  next
    case False
    have "\<forall>g \<in> set (f # fs). m < sf_data_offset g"
      using False Cons.prems(2) by (auto simp: frames_sorted_def intro: less_le_trans)
    then show ?thesis using False by (auto simp: frames_cover_def frame_range_def word_less_nat_alt)
  qed
qed (simp add: frames_cover_def)

lemma merged_least:
  assumes "din_ok S d"
  shows "unat (merged_offset_end d) = (LEAST n. n \<notin> received d)"
    and "{..< unat (merged_offset_end d)} \<subseteq> received d"
    and "next_read_offset d \<le> merged_offset_end d"
proof -
  have m: "merge_loop (next_read_offset d) (frames_tailq d) = merged_offset_end d"
    and ok: "\<forall>f \<in> set (frames_tailq d). frame_ok S (next_read_offset d) f"
    and srt: "frames_sorted (frames_tailq d)" using assms by (simp_all add: din_ok_def)
  show c: "{..< unat (merged_offset_end d)} \<subseteq> received d"
    using merge_loop_covered [OF ok, of _ "next_read_offset d"] m by (auto simp: received_def)
  show "unat (merged_offset_end d) = (LEAST n. n \<notin> received d)"
  proof (rule Least_equality [symmetric])
    show "unat (merged_offset_end d) \<notin> received d"
      using merge_loop_missing [OF ok srt, of "next_read_offset d"] m by (simp add: received_def)
    show "unat (merged_offset_end d) \<le> n" if "n \<notin> received d" for n
      using that c by (meson lessThan_iff not_le subsetD)
  qed
  show "next_read_offset d \<le> merged_offset_end d"
    using merge_loop_ge [of "next_read_offset d" "frames_tailq d"] m by simp
qed

subsection \<open>Inserting a frame, specified\<close>

lemma insert_scan_Some:
  assumes "insert_scan nf ahead passed = Some (as, bs)" "\<forall>b \<in> set passed. sf_data_offset nf < sf_data_offset b"
    and "frames_sorted (rev ahead)"
  shows "as @ bs = rev ahead @ passed \<and> (\<forall>b \<in> set bs. sf_data_offset nf < sf_data_offset b) \<and>
    (\<forall>a \<in> set as. sf_data_offset a \<le> sf_data_offset nf)"
  using assms
proof (induction ahead arbitrary: passed)
  case (Cons f ahead)
  have srt: "frames_sorted (rev ahead)" "\<forall>a \<in> set ahead. sf_data_offset a \<le> sf_data_offset f"
    using Cons.prems(3) by (simp_all add: frames_sorted_def sorted_wrt_append)
  show ?case
  proof (cases "sf_data_offset f \<le> sf_data_offset nf")
    case True
    then have "as = rev (f # ahead)" "bs = passed" using Cons.prems(1) by (simp_all split: if_splits)
    moreover have "\<forall>a \<in> set ahead. sf_data_offset a \<le> sf_data_offset nf" using srt(2) True order_trans by blast
    ultimately show ?thesis using Cons.prems(2) True by simp
  next
    case False
    then have "insert_scan nf ahead (f # passed) = Some (as, bs)"
      using Cons.prems(1) by simp
    from Cons.IH [OF this _ srt(1)] show ?thesis using Cons.prems(2) False by simp
  qed
qed simp

lemma insert_scan_None:
  "insert_scan nf ahead passed = None \<Longrightarrow>
   \<exists>f \<in> set ahead. sf_data_offset f \<le> sf_data_offset nf \<and> frame_end nf \<le> frame_end f \<and> sf_data_length nf > 0"
  by (induction nf ahead passed rule: insert_scan.induct) (auto split: if_splits)

lemma merge_loop_bound:
  "\<forall>f \<in> set fs. frame_ok S rd f \<Longrightarrow> unat m < 2 ^ 62 \<Longrightarrow> unat (merge_loop m fs) < 2 ^ 62"
proof (induction fs arbitrary: m)
  case (Cons f fs)
  have "unat (max (frame_end f) m) < 2 ^ 62"
    using Cons.prems frame_okD(3) [of S rd f] by (simp add: max_def)
  then show ?case using Cons by simp
qed simp

lemma rqc_insert_stream_frame_cases:
  obtains (dup) g where "rqc_insert_stream_frame d f = (- RQC_EDUP_FRAME, d)" "g \<in> set (frames_tailq d)"
      "sf_data_offset g \<le> sf_data_offset f" "frame_end f \<le> frame_end g"
  | (ins) as bs where "insert_scan f (rev (frames_tailq d)) [] = Some (as, bs)"
      "rqc_insert_stream_frame d f = (RQC_OK, d\<lparr>frames_tailq := as @ f # bs,
         merged_offset_end :=
           (if merged_offset_end d \<ge> sf_data_offset f \<and> merged_offset_end d < frame_end f
            then merge_loop (frame_end f) bs else merged_offset_end d)\<rparr>)"
proof (cases "insert_scan f (rev (frames_tailq d)) []")
  case None
  then have "rqc_insert_stream_frame d f = (- RQC_EDUP_FRAME, d)" by (simp add: rqc_insert_stream_frame_def)
  with insert_scan_None [OF None] dup show ?thesis by auto
next
  case (Some ab)
  obtain as bs where "ab = (as, bs)" by (rule prod.exhaust)
  with Some have scan: "insert_scan f (rev (frames_tailq d)) [] = Some (as, bs)" by simp
  show ?thesis by (rule ins [OF scan]) (simp only: rqc_insert_stream_frame_def scan option.case prod.case)
qed

lemma rqc_insert_stream_frame_spec:
  assumes d: "din_ok S d" and f: "frame_ok S (next_read_offset d) f"
    and i: "rqc_insert_stream_frame d f = (ret, d')"
  shows "din_ok S d' \<and> received d' = received d \<union> frame_range f \<and>
    next_read_offset d' = next_read_offset d \<and> stream_length d' = stream_length d \<and>
    stream_determined d' = stream_determined d \<and>
    (ret = RQC_OK \<or> ret = - RQC_EDUP_FRAME \<and> d' = d)"
proof (cases rule: rqc_insert_stream_frame_cases [of d f])
  case (dup g)
  have "frame_ok S (next_read_offset d) g" using d dup(2) by (auto simp: din_ok_def)
  then have "frame_range f \<subseteq> frame_range g"
    using dup(3,4) f by (auto simp: frame_range_end word_le_nat_alt)
  then have "frame_range f \<subseteq> received d" using dup(2) by (auto simp: received_def frames_cover_def)
  then show ?thesis using dup(1) i d by auto
next
  case (ins as bs)
  let ?fs = "frames_tailq d" and ?rd = "next_read_offset d"
  have srt: "frames_sorted ?fs" and ok: "\<forall>f \<in> set ?fs. frame_ok S ?rd f"
    and m: "merge_loop ?rd ?fs = merged_offset_end d" using d by (simp_all add: din_ok_def)
  have *: "as @ bs = ?fs" "\<forall>b \<in> set bs. sf_data_offset f < sf_data_offset b" "\<forall>a \<in> set as. sf_data_offset a \<le> sf_data_offset f"
    using insert_scan_Some [OF ins(1)] srt by auto
  have d': "d' = d\<lparr>frames_tailq := as @ f # bs, merged_offset_end := merge_loop ?rd (as @ f # bs)\<rparr>" "ret = RQC_OK"
    using ins(2) i merge_loop_insert [OF *(3,2) frame_okD(2) [OF f], of ?rd] m *(1) by auto
  have s: "frames_sorted (as @ f # bs)"
    using srt *(2,3) unfolding *(1) [symmetric] frames_sorted_def
    by (auto simp: sorted_wrt_append intro: less_imp_le)
  have o: "\<forall>g \<in> set (as @ f # bs). frame_ok S ?rd g" using ok f unfolding *(1) [symmetric] by auto
  have b: "unat (merge_loop ?rd (as @ f # bs)) < 2 ^ 62"
    by (rule merge_loop_bound [OF o])
      (use merged_least(3) [OF d] d in \<open>auto simp: din_ok_def word_le_nat_alt\<close>)
  have r: "frames_cover ?rd (as @ f # bs) = frames_cover ?rd ?fs \<union> frame_range f"
    unfolding *(1) [symmetric] by (auto simp: frames_cover_def)
  show ?thesis using s o b r by (simp add: d' din_ok_def received_def)
qed

subsection \<open>Reading, specified\<close>

lemma copy_out_ok:
  assumes "frame_ok S rd f" "unat p + unat n \<le> sf_data_length f"
  shows "copy_out f p n =
    Inr (map S [unat (sf_data_offset f) + unat p ..< unat (sf_data_offset f) + unat p + unat n])"
  using assms frame_okD(4) [OF assms(1)]
  by (auto simp: copy_out_def frame_ok_def drop_map take_map take_upt drop_upt)

text \<open>
  The frame the reader looks at, once the merge reaches it and it is not behind the reader: how
  many of its bytes are left, and where they start.
\<close>

lemma frame_at_reader:
  assumes f: "frame_ok S rd f" and o: "sf_data_offset f \<le> rd" and e: "rd \<le> frame_end f"
  defines "nro \<equiv> if sf_data_offset f < rd then max (sf_next_read_offset f) (rd - sf_data_offset f) else sf_next_read_offset f"
  shows "nro = rd - sf_data_offset f" "unat nro = unat rd - unat (sf_data_offset f)"
    "unat (of_nat (sf_data_length f) - nro) = unat (frame_end f) - unat rd"
proof -
  have sub: "unat (rd - sf_data_offset f) = unat rd - unat (sf_data_offset f)"
    using o by (simp add: unat_sub word_le_nat_alt)
  have n: "sf_next_read_offset f = 0 \<or> unat (sf_data_offset f) + unat (sf_next_read_offset f) \<le> unat rd"
    using f by (simp add: frame_ok_def)
  show nro: "nro = rd - sf_data_offset f"
  proof (cases "sf_data_offset f < rd")
    case True
    have "sf_next_read_offset f \<le> rd - sf_data_offset f" using n by (auto simp: word_le_nat_alt sub)
    then show ?thesis using True by (simp add: nro_def)
  next
    case False
    then have eq: "sf_data_offset f = rd" using o by simp
    with n have "sf_next_read_offset f = 0" by (simp add: unat_eq_zero)
    with eq show ?thesis by (simp add: nro_def)
  qed
  then show u: "unat nro = unat rd - unat (sf_data_offset f)" using sub by simp
  have l: "unat (of_nat (sf_data_length f) :: u64) = sf_data_length f"
    and fe: "unat (frame_end f) = unat (sf_data_offset f) + sf_data_length f"
    using frame_okD(1,5) [OF f] by auto
  have "nro \<le> of_nat (sf_data_length f)"
    using e o by (simp add: word_le_nat_alt u l fe)
  then have "unat (of_nat (sf_data_length f) - nro) = sf_data_length f - unat nro"
    by (simp add: unat_sub l)
  then show "unat (of_nat (sf_data_length f) - nro) = unat (frame_end f) - unat rd"
    using o by (simp add: u fe word_le_nat_alt)
qed

text \<open>The state of the read loop: what is left of the list still merges to \<open>M\<close>.\<close>

definition reading :: "(nat \<Rightarrow> byte) \<Rightarrow> u64 \<Rightarrow> u64 \<Rightarrow> rqc_stream_frame_in list \<Rightarrow> bool" where
  "reading S M rd fs \<longleftrightarrow> (\<forall>f \<in> set fs. frame_ok S rd f) \<and> frames_sorted fs \<and> merge_loop rd fs = M \<and> unat M < 2 ^ 62"

lemma din_ok_reading: "din_ok S d \<longleftrightarrow> reading S (merged_offset_end d) (next_read_offset d) (frames_tailq d)"
  by (auto simp: din_ok_def reading_def)

lemma reading_le: "reading S M rd fs \<Longrightarrow> rd \<le> M"
  using merge_loop_ge by (auto simp: reading_def)

lemma reading_head:
  "reading S M rd (f # fs) \<Longrightarrow> frame_ok S rd f"
  "reading S M rd (f # fs) \<Longrightarrow> sf_data_offset f \<le> M \<longleftrightarrow> sf_data_offset f \<le> rd"
  "reading S M rd (f # fs) \<Longrightarrow> sf_data_offset f \<le> rd \<Longrightarrow> frame_end f \<le> M"
  "reading S M rd (f # fs) \<Longrightarrow> \<not> sf_data_offset f \<le> rd \<Longrightarrow> rd = M"
  using reading_le [of S M rd "f # fs"] merge_loop_ge [of "max (frame_end f) rd" fs]
  by (auto simp: reading_def split: if_splits)

text \<open>The reader moves past a frame, or into one.\<close>

lemma reading_next:
  assumes "reading S M rd (f # fs)" "sf_data_offset f \<le> rd"
  shows "reading S M (max (frame_end f) rd) fs"
    "frames_cover (max (frame_end f) rd) fs = frames_cover rd (f # fs)"
  using assms reading_head(1) [OF assms(1)]
  by (auto simp: reading_def frames_sorted_def frames_cover_def frame_range_end word_le_nat_alt max_def
      split: if_splits intro: frame_ok_mono)

lemma reading_into:
  assumes r: "reading S M rd (f # fs)" and o: "sf_data_offset f \<le> rd" and e: "rd \<le> rd'" "rd' \<le> frame_end f"
    and n: "unat n = unat rd' - unat (sf_data_offset f)"
  shows "reading S M rd' (f\<lparr>sf_next_read_offset := n\<rparr> # fs)"
    "frames_cover rd' (f\<lparr>sf_next_read_offset := n\<rparr> # fs) = frames_cover rd (f # fs)"
proof -
  let ?f = "f\<lparr>sf_next_read_offset := n\<rparr>"
  have "frame_end ?f = frame_end f" by (simp add: frame_end_def)
  then have m: "merge_loop x (?f # fs) = merge_loop x (f # fs)" for x by simp
  have f: "frame_ok S rd f" by (rule reading_head(1) [OF r])
  have "frame_ok S rd' ?f"
    using f o e(1) n unfolding frame_ok_def word_le_nat_alt by (auto simp: unat_eq_zero)
  moreover have "\<forall>g \<in> set fs. frame_ok S rd' g" using r e(1) by (auto simp: reading_def intro: frame_ok_mono)
  moreover have "merge_loop rd' (f # fs) = M"
    using merge_loop_between [OF e(1), of "f # fs"] reading_head(3) [OF r o] e(2) r
    by (auto simp: reading_def)
  ultimately show "reading S M rd' (?f # fs)" using r m by (simp add: reading_def frames_sorted_def)
  have "frame_range ?f = frame_range f" by (simp add: frame_range_def)
  then show "frames_cover rd' (?f # fs) = frames_cover rd (f # fs)"
    using e o frame_range_end [OF f] by (auto simp: frames_cover_def word_le_nat_alt)
qed

lemma map_upt_append:
  "map S [a ..< a + b] @ map S [a + b ..< a + b + c] = map S [a ..< a + (b + c)]"
  by (metis add.assoc map_append upt_add_eq_append le_add1)

text \<open>One round of the loop on the frame at the reader.\<close>

lemma recv_loop_here:
  assumes r: "reading S M rd (f # fs)" and o: "sf_data_offset f \<le> rd" and e: "rd \<le> frame_end f"
    and c: "c < B" "c \<le> rd"
  defines "avail \<equiv> unat (frame_end f) - unat rd"
  shows "unat c + avail \<le> unat B \<Longrightarrow>
      recv_loop M B (f # fs) rd c out =
      recv_loop M B fs (frame_end f) (c + of_nat avail) (out @ map S [unat rd ..< unat (frame_end f)])"
    and "unat B < unat c + avail \<Longrightarrow>
      recv_loop M B (f # fs) rd c out =
      Inr (f\<lparr>sf_next_read_offset := rd + (B - c) - sf_data_offset f\<rparr> # fs, rd + (B - c), B,
           out @ map S [unat rd ..< unat rd + (unat B - unat c)])"
proof -
  have f: "frame_ok S rd f" by (rule reading_head(1) [OF r])
  let ?nro = "if sf_data_offset f < rd then max (sf_next_read_offset f) (rd - sf_data_offset f) else sf_next_read_offset f"
  let ?left = "of_nat (sf_data_length f) - ?nro :: u64"
  note nro = frame_at_reader [OF f o e]
  have le: "unat rd \<le> unat (frame_end f)" "unat (sf_data_offset f) \<le> unat rd" "unat c < unat B" "unat c \<le> unat rd"
    using e o c by (simp_all add: word_le_nat_alt word_less_nat_alt)
  have fe: "unat (frame_end f) = unat (sf_data_offset f) + sf_data_length f" "unat (frame_end f) < 2 ^ 62"
    using frame_okD(1,3) [OF f] by auto
  have ul: "unat (of_nat avail :: u64) = avail"
    using fe(2) unfolding avail_def by (intro unat_of_nat_small) simp
  have l: "?left = of_nat avail" unfolding word_unat_eq_iff ul nro(3) by (simp only: avail_def)
  have cl: "c + of_nat avail \<le> B \<longleftrightarrow> unat c + avail \<le> unat B"
  proof -
    have "unat (c + of_nat avail) = unat c + avail"
      by (rule unat_add_of_nat) (use le fe(2) in \<open>simp add: avail_def\<close>)
    then show ?thesis by (simp add: word_le_nat_alt)
  qed
  have rl: "rd + of_nat avail = frame_end f"
    unfolding word_unat_eq_iff by (subst unat_add_of_nat) (use le fe(2) in \<open>simp_all add: avail_def\<close>)
  have guards: "(M < sf_data_offset f) = False" "(B \<le> c) = False" "(frame_end f < rd) = False"
    using reading_head(2) [OF r] o c e by auto
  have step: "recv_loop M B (f # fs) rd c out =
    (if c + of_nat avail \<le> B then
       res_bind (copy_out f (rd - sf_data_offset f) (of_nat avail))
         (\<lambda>bs. recv_loop M B fs (frame_end f) (c + of_nat avail) (out @ bs))
     else res_bind (copy_out f (rd - sf_data_offset f) (B - c)) (\<lambda>bs.
       Inr (f\<lparr>sf_next_read_offset := rd - sf_data_offset f + (B - c)\<rparr> # fs, rd + (B - c), B, out @ bs)))"
    unfolding recv_loop.simps guards if_False Let_def nro(1) l [unfolded nro(1)] rl ..
  have u: "unat (rd - sf_data_offset f) = unat rd - unat (sf_data_offset f)" using nro(1,2) by simp
  {
    assume fit: "unat c + avail \<le> unat B"
    have "copy_out f (rd - sf_data_offset f) (of_nat avail) = Inr (map S [unat rd ..< unat (frame_end f)])"
      using le fe(1) by (subst copy_out_ok [OF f]; unfold u ul; simp add: avail_def)
    with step fit cl show "recv_loop M B (f # fs) rd c out =
      recv_loop M B fs (frame_end f) (c + of_nat avail) (out @ map S [unat rd ..< unat (frame_end f)])" by simp
  next
    assume nofit: "unat B < unat c + avail"
    have b: "unat (B - c) = unat B - unat c" using c(1) by (simp add: unat_sub)
    have "copy_out f (rd - sf_data_offset f) (B - c) = Inr (map S [unat rd ..< unat rd + (unat B - unat c)])"
      using le fe(1) nofit by (subst copy_out_ok [OF f]) (simp_all add: u b avail_def)
    with step nofit cl show "recv_loop M B (f # fs) rd c out =
      Inr (f\<lparr>sf_next_read_offset := rd + (B - c) - sf_data_offset f\<rparr> # fs, rd + (B - c), B,
           out @ map S [unat rd ..< unat rd + (unat B - unat c)])" by (simp add: algebra_simps)
  }
qed

lemma recv_loop_spec:
  assumes "reading S M rd fs" "c \<le> B" "c \<le> rd"
  defines "n \<equiv> min (unat B - unat c) (unat M - unat rd)"
  shows "\<exists>fs' rd' c'. recv_loop M B fs rd c out = Inr (fs', rd', c', out @ map S [unat rd ..< unat rd + n]) \<and>
    unat rd' = unat rd + n \<and> unat c' = unat c + n \<and> reading S M rd' fs' \<and>
    frames_cover rd' fs' = frames_cover rd fs"
  using assms(1-3) unfolding n_def
proof (induction fs arbitrary: rd c out)
  case Nil
  then show ?case by (simp add: reading_def)
next
  case (Cons f fs)
  note r = Cons.prems(1)
  have f: "frame_ok S rd f" by (rule reading_head(1) [OF r])
  consider (hole) "\<not> sf_data_offset f \<le> rd" | (full) "sf_data_offset f \<le> rd" "c = B"
    | (past) "sf_data_offset f \<le> rd" "c < B" "frame_end f < rd" | (here) "sf_data_offset f \<le> rd" "c < B" "rd \<le> frame_end f"
    using Cons.prems(2) by fastforce
  then show ?case
  proof cases
    case hole
    then have "rd = M" "sf_data_offset f > M" using reading_head(2,4) [OF r] by auto
    then show ?thesis using r by simp
  next
    case full
    then show ?thesis using r reading_head(2) [OF r] by simp
  next
    case past
    then have "max (frame_end f) rd = rd" by simp
    with reading_next [OF r past(1)] have *: "reading S M rd fs" "frames_cover rd fs = frames_cover rd (f # fs)" by auto
    have "(M < sf_data_offset f) = False" "(B \<le> c) = False" using past reading_head(2) [OF r] by auto
    with Cons.IH [OF *(1) Cons.prems(2,3)] past(3) *(2) show ?thesis by simp
  next
    case here
    let ?left = "unat (frame_end f) - unat rd"
    note step = recv_loop_here [OF r here(1,3,2) Cons.prems(3), of out]
    have le: "unat rd \<le> unat (frame_end f)" "unat (frame_end f) \<le> unat M" "unat c < unat B" "unat c \<le> unat rd"
      using here Cons.prems(3) reading_head(3) [OF r here(1)] by (simp_all add: word_le_nat_alt word_less_nat_alt)
    have fe: "unat (frame_end f) < 2 ^ 62" by (rule frame_okD(3) [OF f])
    show ?thesis
    proof (cases "unat c + ?left \<le> unat B")
      case fits: True
      have cl: "unat (c + of_nat ?left) = unat c + ?left"
        by (rule unat_add_of_nat) (use le fe in simp)
      have "max (frame_end f) rd = frame_end f" using here(3) by simp
      with reading_next [OF r here(1)]
      have *: "reading S M (frame_end f) fs" "frames_cover (frame_end f) fs = frames_cover rd (f # fs)" by auto
      have "c + of_nat ?left \<le> B" "c + of_nat ?left \<le> frame_end f"
        using cl fits le by (simp_all add: word_le_nat_alt)
      from Cons.IH [OF *(1) this, of "out @ map S [unat rd ..< unat (frame_end f)]"] obtain fs' rd' c'
        where ih: "recv_loop M B fs (frame_end f) (c + of_nat ?left) (out @ map S [unat rd ..< unat (frame_end f)]) =
            Inr (fs', rd', c', (out @ map S [unat rd ..< unat (frame_end f)]) @ map S [unat (frame_end f) ..<
              unat (frame_end f) + min (unat B - (unat c + ?left)) (unat M - unat (frame_end f))])"
          "unat rd' = unat (frame_end f) + min (unat B - (unat c + ?left)) (unat M - unat (frame_end f))"
          "unat c' = unat c + ?left + min (unat B - (unat c + ?left)) (unat M - unat (frame_end f))"
          "reading S M rd' fs'" "frames_cover rd' fs' = frames_cover (frame_end f) fs"
        unfolding cl by blast
      have n: "?left + min (unat B - (unat c + ?left)) (unat M - unat (frame_end f)) = min (unat B - unat c) (unat M - unat rd)"
        using le fits by (simp add: min_def)
      have "unat (frame_end f) = unat rd + ?left" using le(1) by simp
      then have "map S [unat rd ..< unat (frame_end f)] @ map S [unat (frame_end f) ..< unat (frame_end f) + k] =
          map S [unat rd ..< unat rd + (?left + k)]" for k using map_upt_append [of S "unat rd" ?left k] by metis
      with ih *(2) n le(1) show ?thesis unfolding step(1) [OF fits] n [symmetric] by (simp add: add.assoc)
    next
      case False
      let ?rd = "rd + (B - c)"
      have b: "unat (B - c) = unat B - unat c" using here(2) by (simp add: unat_sub)
      have rb: "unat ?rd = unat rd + (unat B - unat c)"
        using False fe le by (subst unat_add_lem [THEN iffD1]) (simp_all add: b)
      have "rd \<le> ?rd" "?rd \<le> frame_end f" "sf_data_offset f \<le> ?rd"
        using rb False le(1) here(1) by (simp_all add: word_le_nat_alt)
      moreover have "unat (?rd - sf_data_offset f) = unat ?rd - unat (sf_data_offset f)"
        using calculation(3) by (simp add: unat_sub)
      ultimately have "reading S M ?rd (f\<lparr>sf_next_read_offset := ?rd - sf_data_offset f\<rparr> # fs)"
        "frames_cover ?rd (f\<lparr>sf_next_read_offset := ?rd - sf_data_offset f\<rparr> # fs) = frames_cover rd (f # fs)"
        using reading_into [OF r here(1)] by auto
      moreover have "min (unat B - unat c) (unat M - unat rd) = unat B - unat c" using False le by simp
      moreover have "recv_loop M B (f # fs) rd c out =
        Inr (f\<lparr>sf_next_read_offset := ?rd - sf_data_offset f\<rparr> # fs, ?rd, B,
           out @ map S [unat rd ..< unat rd + (unat B - unat c)])" using False by (intro step(2)) simp
      ultimately show ?thesis using rb le(3) by simp
    qed
  qed
qed

lemma stream_read_spec:
  fixes B :: u64
  assumes "din_ok S d"
  defines "n \<equiv> min (unat B) (unat (merged_offset_end d) - unat (next_read_offset d))"
  shows "\<exists>d'. stream_read B d = Inr (map S [unat (next_read_offset d) ..< unat (next_read_offset d) + n], d') \<and>
    din_ok S d' \<and> unat (next_read_offset d') = unat (next_read_offset d) + n \<and> received d' = received d \<and>
    merged_offset_end d' = merged_offset_end d \<and> stream_length d' = stream_length d \<and>
    stream_determined d' = stream_determined d"
proof -
  have "reading S (merged_offset_end d) (next_read_offset d) (frames_tailq d)" using assms(1) by (simp add: din_ok_reading)
  from recv_loop_spec [OF this, of 0 B "[]"] show ?thesis
    unfolding n_def by (fastforce simp: stream_read_def din_ok_reading received_def)
qed

text \<open>Peeking copies the same bytes.\<close>

lemma peek_loop_full: "peek_loop B fs cursor B out = Inr (B, out)"
  by (induction fs) auto

lemma peek_loop_spec:
  assumes "reading S M cursor fs" "c \<le> B" "c \<le> cursor"
  defines "n \<equiv> min (unat B - unat c) (unat M - unat cursor)"
  shows "\<exists>c'. peek_loop B fs cursor c out = Inr (c', out @ map S [unat cursor ..< unat cursor + n]) \<and> unat c' = unat c + n"
  using assms(1-3) unfolding n_def
proof (induction fs arbitrary: cursor c out)
  case Nil
  then show ?case by (simp add: reading_def)
next
  case (Cons f fs)
  note r = Cons.prems(1)
  have f: "frame_ok S cursor f" by (rule reading_head(1) [OF r])
  consider (past) "frame_end f \<le> cursor" | (hole) "cursor < sf_data_offset f" "cursor < frame_end f"
    | (full) "sf_data_offset f \<le> cursor" "c = B" "cursor < frame_end f"
    | (here) "sf_data_offset f \<le> cursor" "c < B" "cursor < frame_end f"
    using Cons.prems(2) by fastforce
  then show ?case
  proof cases
    case past
    then have "sf_data_offset f \<le> cursor" using frame_okD(2) [OF f] by simp
    with reading_next(1) [OF r this] past have "reading S M cursor fs" by (simp add: max_def)
    with Cons.IH [OF this Cons.prems(2,3)] past show ?thesis by simp
  next
    case hole
    then have "cursor = M" using reading_head(4) [OF r] by simp
    then show ?thesis using hole by (simp flip: not_less)
  next
    case full
    then show ?thesis by (simp flip: not_less)
  next
    case here
    let ?k = "min (frame_end f - cursor) (B - c)"
    have le: "unat cursor < unat (frame_end f)" "unat (frame_end f) \<le> unat M" "unat c < unat B" "unat c \<le> unat cursor"
      "unat (sf_data_offset f) \<le> unat cursor"
      using here Cons.prems(3) reading_head(3) [OF r here(1)] by (simp_all add: word_le_nat_alt word_less_nat_alt)
    have fe: "unat (frame_end f) = unat (sf_data_offset f) + sf_data_length f" "unat (frame_end f) < 2 ^ 62"
      using frame_okD(1,3) [OF f] by auto
    have s: "unat (frame_end f - cursor) = unat (frame_end f) - unat cursor" "unat (B - c) = unat B - unat c"
      "unat (cursor - sf_data_offset f) = unat cursor - unat (sf_data_offset f)"
      using here by (simp_all add: unat_sub)
    then have k: "unat ?k = min (unat (frame_end f) - unat cursor) (unat B - unat c)"
      by (simp add: min_def word_le_nat_alt)
    have uk: "unat (cursor + ?k) = unat cursor + unat ?k" "unat (c + ?k) = unat c + unat ?k"
      using le fe(2) k by (simp_all add: unat_add_lem [THEN iffD1])
    have cp: "copy_out f (cursor - sf_data_offset f) ?k = Inr (map S [unat cursor ..< unat cursor + unat ?k])"
      using le fe(1) k s(3) by (subst copy_out_ok [OF f]) simp_all
    have step: "peek_loop B (f # fs) cursor c out =
        peek_loop B fs (cursor + ?k) (c + ?k) (out @ map S [unat cursor ..< unat cursor + unat ?k])"
      using here cp by (simp add: Let_def flip: not_less)
    show ?thesis
    proof (cases "unat B - unat c \<le> unat (frame_end f) - unat cursor")
      case True
      then have "c + ?k = B" using le(3) k uk(2) by (simp add: word_unat_eq_iff)
      then show ?thesis using True k le unfolding step by (simp add: peek_loop_full)
    next
      case False
      then have kl: "unat ?k = unat (frame_end f) - unat cursor" using k by simp
      then have ce: "cursor + ?k = frame_end f" using uk(1) le(1) by (simp add: word_unat_eq_iff)
      have "reading S M (cursor + ?k) fs" using reading_next(1) [OF r here(1)] max.absorb1 [OF less_imp_le [OF here(3)]] unfolding ce by simp
      moreover have "c + ?k \<le> B" "c + ?k \<le> cursor + ?k" using uk le kl False by (simp_all add: word_le_nat_alt)
      ultimately obtain c' where ih: "peek_loop B fs (cursor + ?k) (c + ?k) (out @ map S [unat cursor ..< unat cursor + unat ?k]) =
          Inr (c', (out @ map S [unat cursor ..< unat cursor + unat ?k]) @ map S [unat cursor + unat ?k ..<
            unat cursor + unat ?k + min (unat B - (unat c + unat ?k)) (unat M - (unat cursor + unat ?k))])"
        "unat c' = unat c + unat ?k + min (unat B - (unat c + unat ?k)) (unat M - (unat cursor + unat ?k))"
        using Cons.IH [of "cursor + ?k" "c + ?k" "out @ map S [unat cursor ..< unat cursor + unat ?k]"] unfolding uk by blast
      have n: "unat ?k + min (unat B - (unat c + unat ?k)) (unat M - (unat cursor + unat ?k)) = min (unat B - unat c) (unat M - unat cursor)"
        using False le kl by (simp add: min_def)
      show ?thesis unfolding step ih(1) n [symmetric]
        using ih(2) map_upt_append [of S "unat cursor" "unat ?k"] by (simp only: append_assoc add.assoc) simp
    qed
  qed
qed

subsection \<open>The contract of the receiving side\<close>

text \<open>
  A reassembly buffer, as \<open>rqc_process_stream_frame\<close> and the application use it: \<open>recvd\<close> is
  the set of positions that have arrived, \<open>pos\<close> the reader's position, \<open>data\<close> the sender's stream.
  \<open>run_ops\<close> is any interleaving of arrivals and reads and collects what the reader gets.
\<close>

datatype 'f stream_op = Arrive 'f | Read u64

fun run_ops :: "('s \<Rightarrow> 'f \<Rightarrow> 's) \<Rightarrow> (u64 \<Rightarrow> 's \<Rightarrow> (byte list \<times> 's) res) \<Rightarrow> 's \<Rightarrow> 'f stream_op list \<Rightarrow> (byte list \<times> 's) res" where
  "run_ops put get s [] = Inr ([], s)"
| "run_ops put get s (Arrive f # ops) = run_ops put get (put s f) ops"
| "run_ops put get s (Read n # ops) =
     res_bind (get n s) (\<lambda>(bs, s). res_bind (run_ops put get s ops) (\<lambda>(bs', s). Inr (bs @ bs', s)))"

fun arrivals :: "'f stream_op list \<Rightarrow> 'f list" where
  "arrivals [] = []"
| "arrivals (Arrive f # ops) = f # arrivals ops"
| "arrivals (Read _ # ops) = arrivals ops"

locale reassembly =
  fixes data :: "nat \<Rightarrow> byte"
    and inv :: "'s \<Rightarrow> bool"
    and recvd :: "'s \<Rightarrow> nat set"
    and pos :: "'s \<Rightarrow> nat"
    and avail :: "'s \<Rightarrow> nat"
    and valid :: "'f \<Rightarrow> bool"
    and range_of :: "'f \<Rightarrow> nat set"
    and put :: "'s \<Rightarrow> 'f \<Rightarrow> 's"
    and get :: "u64 \<Rightarrow> 's \<Rightarrow> (byte list \<times> 's) res"
  assumes put_inv: "inv s \<Longrightarrow> valid f \<Longrightarrow> inv (put s f)"
    and put_recvd: "inv s \<Longrightarrow> valid f \<Longrightarrow> recvd (put s f) = recvd s \<union> range_of f"
    and put_pos: "inv s \<Longrightarrow> valid f \<Longrightarrow> pos (put s f) = pos s"
    and pos_avail: "inv s \<Longrightarrow> pos s \<le> avail s"
    and avail_missing: "inv s \<Longrightarrow> avail s \<notin> recvd s"
    and get_spec: "inv s \<Longrightarrow> \<exists>s'. get n s = Inr (map data [pos s ..< pos s'], s') \<and> inv s' \<and>
           recvd s' = recvd s \<and> pos s' = min (pos s + unat n) (avail s)"
begin

text \<open>
  Whatever the order of the arrivals and reads, the reader gets the sender's bytes from its
  position on, each once and in order, and nothing that has arrived is forgotten.
\<close>

lemma run_ops_delivers:
  assumes "inv s" "\<forall>f \<in> set (arrivals ops). valid f"
  shows "\<exists>s'. run_ops put get s ops = Inr (map data [pos s ..< pos s'], s') \<and> inv s' \<and> pos s \<le> pos s' \<and>
    recvd s' = recvd s \<union> (\<Union>f \<in> set (arrivals ops). range_of f)"
  using assms
proof (induction ops arbitrary: s)
  case (Cons opn ops)
  show ?case
  proof (cases opn)
    case (Arrive f)
    with Cons.prems have v: "valid f" by simp
    from Cons.IH [OF put_inv [OF Cons.prems(1) v]] Cons.prems(2) Arrive obtain s' where
      "run_ops put get (put s f) ops = Inr (map data [pos (put s f) ..< pos s'], s')" "inv s'" "pos (put s f) \<le> pos s'"
      "recvd s' = recvd (put s f) \<union> (\<Union>f \<in> set (arrivals ops). range_of f)" by auto
    then show ?thesis using Arrive put_recvd [OF Cons.prems(1) v] put_pos [OF Cons.prems(1) v] by auto
  next
    case (Read n)
    from get_spec [OF Cons.prems(1), of n] obtain t where
      t: "get n s = Inr (map data [pos s ..< pos t], t)" "inv t" "recvd t = recvd s" "pos s \<le> pos t"
      using pos_avail [OF Cons.prems(1)] by auto
    from Cons.IH [OF t(2)] Cons.prems(2) Read obtain s' where
      s': "run_ops put get t ops = Inr (map data [pos t ..< pos s'], s')" "inv s'" "pos t \<le> pos s'"
      "recvd s' = recvd t \<union> (\<Union>f \<in> set (arrivals ops). range_of f)" by auto
    have "map data [pos s ..< pos t] @ map data [pos t ..< pos s'] = map data [pos s ..< pos s']"
      using upt_add_eq_append [of "pos s" "pos t" "pos s' - pos t"] t(4) s'(3) by (simp flip: map_append)
    then show ?thesis using Read t s' by auto
  qed
qed auto

text \<open>When everything up to \<open>k\<close> has arrived, a read with enough room gets at least to \<open>k\<close>.\<close>

lemma get_complete:
  assumes "inv s" "{..< k} \<subseteq> recvd s" "k \<le> pos s + unat n"
  shows "\<exists>s'. get n s = Inr (map data [pos s ..< pos s'], s') \<and> k \<le> pos s'"
proof -
  have "k \<le> avail s" using avail_missing [OF assms(1)] assms(2) by (meson lessThan_iff not_le subsetD)
  then show ?thesis using get_spec [OF assms(1), of n] assms(3) by auto
qed

end

lemma merged_not_received: "din_ok S d \<Longrightarrow> unat (merged_offset_end d) \<notin> received d"
  using merge_loop_missing [of "frames_tailq d" S "next_read_offset d" "next_read_offset d"]
  by (simp add: din_ok_def received_def)

lemma frame_ok_fresh: "frame_ok S 0 f \<Longrightarrow> frame_ok S rd f"
  by (erule frame_ok_mono) simp

lemma insert_snd:
  assumes "din_ok S d" "frame_ok S 0 f"
  shows "din_ok S (snd (rqc_insert_stream_frame d f))"
    "received (snd (rqc_insert_stream_frame d f)) = received d \<union> frame_range f"
    "next_read_offset (snd (rqc_insert_stream_frame d f)) = next_read_offset d"
  using rqc_insert_stream_frame_spec [OF assms(1) frame_ok_fresh [OF assms(2)] surjective_pairing] by auto

interpretation din: reassembly S "din_ok S" received "\<lambda>d. unat (next_read_offset d)" "\<lambda>d. unat (merged_offset_end d)"
  "frame_ok S 0" frame_range "\<lambda>d f. snd (rqc_insert_stream_frame d f)" stream_read
  for S
proof unfold_locales
  fix s f n
  assume s: "din_ok S s"
  show "unat (next_read_offset s) \<le> unat (merged_offset_end s)"
    using merged_least(3) [OF s] by (simp add: word_le_nat_alt)
  then show "\<exists>s'. stream_read n s = Inr (map S [unat (next_read_offset s) ..< unat (next_read_offset s')], s') \<and>
      din_ok S s' \<and> received s' = received s \<and>
      unat (next_read_offset s') = min (unat (next_read_offset s) + unat n) (unat (merged_offset_end s))"
    using stream_read_spec [OF s, of n] by (auto simp: min_def)
qed (simp_all add: insert_snd merged_not_received)

lemma din_ok_init: "din_ok S stream_in_init" "received stream_in_init = {}" "next_read_offset stream_in_init = 0"
  by (simp_all add: din_ok_def stream_in_init_def frames_sorted_def received_def frames_cover_def)

subsection \<open>Properties\<close>

text \<open>
  C3: reassembly. Frames of one stream arrive in any order, overlapping and repeated, each carrying
  the sender's bytes for its place, interleaved with reads of any size. What the reads deliver, put
  together, is a prefix of the sender's stream: each byte once, in order, up to the reader's
  position. Nothing that arrived is lost, \<open>merged_offset_end\<close> is the first position that
  has not arrived, and a read with enough room then delivers everything before it.
\<close>

theorem stream_reassembly:
  assumes "\<forall>f \<in> set (arrivals ops). frame_ok S 0 f"
  shows "\<exists>d. run_ops (\<lambda>d f. snd (rqc_insert_stream_frame d f)) stream_read stream_in_init ops =
      Inr (map S [0 ..< unat (next_read_offset d)], d) \<and>
    received d = (\<Union>f \<in> set (arrivals ops). frame_range f) \<and>
    unat (merged_offset_end d) = (LEAST n. n \<notin> (\<Union>f \<in> set (arrivals ops). frame_range f)) \<and>
    (\<exists>d'. stream_read (merged_offset_end d) d =
       Inr (map S [unat (next_read_offset d) ..< unat (merged_offset_end d)], d') \<and> next_read_offset d' = merged_offset_end d)"
proof -
  obtain d where d: "run_ops (\<lambda>d f. snd (rqc_insert_stream_frame d f)) stream_read stream_in_init ops =
      Inr (map S [0 ..< unat (next_read_offset d)], d)" "din_ok S d"
      "received d = (\<Union>f \<in> set (arrivals ops). frame_range f)"
    using din.run_ops_delivers [OF din_ok_init(1) assms] by (auto simp: din_ok_init(2,3))
  have "next_read_offset d \<le> merged_offset_end d" by (rule merged_least(3) [OF d(2)])
  then have n: "unat (next_read_offset d) + min (unat (merged_offset_end d)) (unat (merged_offset_end d) - unat (next_read_offset d))
      = unat (merged_offset_end d)" by (simp add: word_le_nat_alt)
  from stream_read_spec [OF d(2), of "merged_offset_end d"] obtain d' where
    "stream_read (merged_offset_end d) d = Inr (map S [unat (next_read_offset d) ..< unat (merged_offset_end d)], d')"
    "unat (next_read_offset d') = unat (merged_offset_end d)" unfolding n by blast
  with d merged_least(1) [OF d(2)] show ?thesis by (auto simp: word_unat_eq_iff)
qed

definition ex_frame :: "nat \<Rightarrow> nat \<Rightarrow> rqc_stream_frame_in" where
  "ex_frame off n = \<lparr>sf_data = map of_nat [off ..< off + n], sf_data_length = n, sf_data_offset = of_nat off,
     sf_fin = False, sf_next_read_offset = 0\<rparr>"

theorem stream_reassembly_witness:
  "\<exists>d. run_ops (\<lambda>d f. snd (rqc_insert_stream_frame d f)) stream_read stream_in_init
      [Arrive (ex_frame 3 2), Arrive (ex_frame 0 2), Read 1, Arrive (ex_frame 1 3), Read 9] = Inr ([0, 1, 2, 3, 4], d) \<and>
    unat (merged_offset_end d) = 5"
proof -
  let ?ops = "[Arrive (ex_frame 3 2), Arrive (ex_frame 0 2), Read 1, Arrive (ex_frame 1 3), Read 9]"
  let ?run = "run_ops (\<lambda>d f. snd (rqc_insert_stream_frame d f)) stream_read stream_in_init ?ops"
  have ok: "\<forall>f \<in> set (arrivals ?ops). frame_ok of_nat 0 f" by (simp add: ex_frame_def frame_ok_def)
  have "(\<Union>f \<in> set (arrivals ?ops). frame_range f) = {..< 5}"
    by (auto simp: frame_range_def ex_frame_def)
  moreover have "(LEAST n. n \<notin> {..< 5 :: nat}) = 5" by (rule Least_equality) auto
  ultimately obtain d where d: "?run = Inr (map of_nat [0 ..< unat (next_read_offset d)], d)" "unat (merged_offset_end d) = 5"
    using stream_reassembly [OF ok] by metis
  have "\<exists>d. ?run = Inr ([0, 1, 2, 3, 4], d)"
    by (simp add: ex_frame_def rqc_insert_stream_frame_def stream_in_init_def stream_read_def frame_end_def copy_out_def
        upt_rec Let_def word_le_nat_alt)
  with d show ?thesis by auto
qed

end
