(* ===== verification/Rqc_Id_Hash.thy ===== *)
theory Rqc_Id_Hash
  imports Rqc_Ring_Array
begin

text \<open>
  The table of streams by identifier: \<open>src/common/rqc_id_hash.h\<close>.

  A power of two of buckets, each a chain of nodes; the identifier is its own hash. \<open>list\<close> is the
  array of chains, a node a pair of identifier and value; a \<open>void *\<close> result is an option. A chain
  is a HOL list, so the tests for a node that is its own successor are left out, and
  \<open>alloc_ok\<close> is the success of the allocator. An access outside \<open>list\<close> is \<open>Inl Fault\<close>.

  The contract is that of a finite map (locale \<open>id_table\<close>), which is how the connection uses
  its two tables: \<open>streams_hash\<close> and \<open>passive_streams_hash\<close>.
\<close>

subsection \<open>Operations\<close>

record 'v rqc_id_hash_table =
  ht_list :: "(u64 \<times> 'v) list list"
  ht_count :: u64
  ht_mask :: u64

text \<open>
  The array has \<open>sizeof(rqc_id_hash_node_t *) * bucket_num\<close> bytes, a product of \<open>size_t\<close>; a pointer has 8 bytes.
\<close>

definition rqc_id_hash_init :: "bool \<Rightarrow> u64 \<Rightarrow> 'v rqc_id_hash_table res" where
  "rqc_id_hash_init alloc_ok bucket_num =
     (let bucket_num = rqc_pow2_upper bucket_num in
      if \<not> alloc_ok then Err RQC_ERROR
      else Inr \<lparr>ht_list = replicate (unat (8 * bucket_num) div 8) [], ht_count = bucket_num, ht_mask = bucket_num - 1\<rparr>)"

definition bucket :: "'v rqc_id_hash_table \<Rightarrow> u64 \<Rightarrow> nat" where
  "bucket ht h = unat (h AND ht_mask ht)"

definition rqc_id_hash_find :: "'v rqc_id_hash_table \<Rightarrow> u64 \<Rightarrow> 'v option res" where
  "rqc_id_hash_find ht h =
     (if bucket ht h < length (ht_list ht) then Inr (map_of (ht_list ht ! bucket ht h) h) else Inl Fault)"

definition rqc_id_hash_add :: "bool \<Rightarrow> 'v rqc_id_hash_table \<Rightarrow> u64 \<Rightarrow> 'v \<Rightarrow> (int \<times> 'v rqc_id_hash_table) res" where
  "rqc_id_hash_add alloc_ok ht h v =
     res_bind (rqc_id_hash_find ht h) (\<lambda>found.
       if found \<noteq> None then Inr (RQC_ERROR, ht)
       else if \<not> alloc_ok then Inr (RQC_ERROR, ht)
       else Inr (RQC_OK, ht\<lparr>ht_list := (ht_list ht)[bucket ht h := (h, v) # ht_list ht ! bucket ht h]\<rparr>))"

text \<open>The unlinking walk over one chain: \<open>None\<close> when the identifier is not in it.\<close>

fun chain_delete :: "u64 \<Rightarrow> (u64 \<times> 'v) list \<Rightarrow> (u64 \<times> 'v) list option" where
  "chain_delete h [] = None"
| "chain_delete h (node # next) =
     (if fst node = h then Some next else map_option (\<lambda>rest. node # rest) (chain_delete h next))"

definition rqc_id_hash_delete :: "'v rqc_id_hash_table \<Rightarrow> u64 \<Rightarrow> (int \<times> 'v rqc_id_hash_table) res" where
  "rqc_id_hash_delete ht h =
     (if bucket ht h < length (ht_list ht) then
        (case chain_delete h (ht_list ht ! bucket ht h) of
           None \<Rightarrow> Inr (RQC_ERROR, ht)
         | Some chain \<Rightarrow> Inr (RQC_OK, ht\<lparr>ht_list := (ht_list ht)[bucket ht h := chain]\<rparr>))
      else Inl Fault)"

subsection \<open>Invariant and abstraction\<close>

definition ht_ok :: "'v rqc_id_hash_table \<Rightarrow> bool" where
  "ht_ok ht \<longleftrightarrow> (\<forall>h. bucket ht h < length (ht_list ht)) \<and>
     (\<forall>i < length (ht_list ht). distinct (map fst (ht_list ht ! i)))"

definition ht_map :: "'v rqc_id_hash_table \<Rightarrow> u64 \<rightharpoonup> 'v" where
  "ht_map ht = (\<lambda>h. map_of (ht_list ht ! bucket ht h) h)"

lemma bucket_update [simp]: "bucket (ht\<lparr>ht_list := l\<rparr>) h = bucket ht h"
  by (simp add: bucket_def)

lemma ht_init_ok:
  assumes "n \<le> 0x1000000000000000"
  shows "\<exists>ht. rqc_id_hash_init True n = Inr ht \<and> ht_ok ht \<and> ht_map ht = (\<lambda>_. None)"
proof -
  have "n \<le> 0x8000000000000000" using assms by (simp add: word_le_nat_alt)
  then obtain k where p: "rqc_pow2_upper n = 2 ^ k" "2 ^ k < 2 * unat n \<or> k = 0" using rqc_pow2_upper_spec by blast
  have "unat n \<le> 2 ^ 60" using assms by (simp add: word_le_nat_alt)
  then have "k = 0 \<or> (2 :: nat) ^ k < 2 ^ 61" using p(2) by auto
  then have k: "k \<le> 60" "rqc_pow2_upper n = 2 ^ k" using p(1) power_less_imp_less_exp [of "2 :: nat" k 61] by auto
  define ht where "ht = (\<lparr>ht_list = replicate (2 ^ k) [], ht_count = 2 ^ k, ht_mask = 2 ^ k - 1\<rparr> :: 'a rqc_id_hash_table)"
  have u: "unat (2 ^ k :: u64) = 2 ^ k" using k(1) unat_of_nat_small [of "2 ^ k"] power_strict_increasing [of k 64 "2 :: nat"] by simp
  have "unat (2 ^ (k + 3) :: u64) = 2 ^ (k + 3)"
    using k(1) unat_of_nat_small [of "2 ^ (k + 3)"] power_strict_increasing [of "k + 3" 64 "2 :: nat"] by simp
  then have w: "unat (8 * 2 ^ k :: u64) div 8 = 2 ^ k" by (simp add: power_add mult.commute)
  have mask: "(2 ^ k - 1 :: u64) = mask k" by (simp add: mask_eq_decr_exp)
  have "bucket ht h < 2 ^ k" for h
  proof -
    have "unat (h AND mask k) < 2 ^ k" by (simp add: take_bit_eq_mask [symmetric] unsigned_take_bit_eq)
    then show ?thesis by (simp add: bucket_def ht_def mask)
  qed
  then have "ht_ok ht" "ht_map ht = (\<lambda>_. None)" by (auto simp: ht_ok_def ht_map_def ht_def bucket_def fun_eq_iff)
  moreover have "rqc_id_hash_init True n = Inr ht" using k(2) w by (simp add: rqc_id_hash_init_def ht_def Let_def)
  ultimately show ?thesis by blast
qed

lemma find_map: "ht_ok ht \<Longrightarrow> rqc_id_hash_find ht h = Inr (ht_map ht h)"
  by (simp add: rqc_id_hash_find_def ht_ok_def ht_map_def)

text \<open>Replacing one chain by another for the same bucket.\<close>

lemma ht_map_update:
  assumes "ht_ok ht" "\<forall>k. bucket ht k = bucket ht h \<longrightarrow> map_of chain k = ((ht_map ht)(h := v)) k" "distinct (map fst chain)"
  shows "ht_map (ht\<lparr>ht_list := (ht_list ht)[bucket ht h := chain]\<rparr>) = (ht_map ht)(h := v)"
    "ht_ok (ht\<lparr>ht_list := (ht_list ht)[bucket ht h := chain]\<rparr>)"
  using assms by (auto simp: ht_map_def ht_ok_def nth_list_update fun_eq_iff)

lemma chain_delete_spec:
  "distinct (map fst chain) \<Longrightarrow>
   (case chain_delete h chain of None \<Rightarrow> map_of chain h = None
    | Some rest \<Rightarrow> map_of chain h \<noteq> None \<and> map_of rest = (map_of chain)(h := None) \<and> distinct (map fst rest) \<and>
        fst ` set rest \<subseteq> fst ` set chain)"
proof (induction chain)
  case (Cons node rest)
  have "map_of rest (fst node) = None" using Cons.prems by (auto simp: map_of_eq_None_iff)
  with Cons show ?case by (auto split: option.splits simp: fun_eq_iff)
qed simp

lemma add_map:
  assumes "ht_ok ht"
  shows "\<exists>ht'. rqc_id_hash_add True ht h v = Inr (if ht_map ht h = None then RQC_OK else RQC_ERROR, ht') \<and> ht_ok ht' \<and>
    ht_map ht' = (if ht_map ht h = None then (ht_map ht)(h \<mapsto> v) else ht_map ht)"
proof (cases "ht_map ht h")
  case None
  let ?chain = "(h, v) # ht_list ht ! bucket ht h"
  have "distinct (map fst ?chain)" using None assms by (simp add: ht_ok_def ht_map_def map_of_eq_None_iff)
  moreover have "\<forall>k. bucket ht k = bucket ht h \<longrightarrow> map_of ?chain k = ((ht_map ht)(h := Some v)) k"
    by (auto simp: ht_map_def)
  ultimately show ?thesis using None assms ht_map_update [OF assms, of h ?chain "Some v"]
    by (simp add: rqc_id_hash_add_def find_map)
qed (use assms in \<open>simp add: rqc_id_hash_add_def find_map\<close>)

lemma delete_map:
  assumes "ht_ok ht"
  shows "\<exists>ht'. rqc_id_hash_delete ht h = Inr (if ht_map ht h = None then RQC_ERROR else RQC_OK, ht') \<and> ht_ok ht' \<and>
    ht_map ht' = (ht_map ht)(h := None)"
proof -
  let ?chain = "ht_list ht ! bucket ht h"
  have b: "bucket ht h < length (ht_list ht)" and d: "distinct (map fst ?chain)" using assms by (simp_all add: ht_ok_def)
  note c = chain_delete_spec [OF d, of h]
  show ?thesis
  proof (cases "chain_delete h ?chain")
    case None
    with c have "ht_map ht h = None" by (simp add: ht_map_def)
    with None b assms show ?thesis by (auto simp: rqc_id_hash_delete_def fun_upd_idem)
  next
    case (Some rest)
    with c have r: "ht_map ht h \<noteq> None" "map_of rest = (map_of ?chain)(h := None)" "distinct (map fst rest)"
      by (auto simp: ht_map_def)
    have "\<forall>k. bucket ht k = bucket ht h \<longrightarrow> map_of rest k = ((ht_map ht)(h := None)) k"
      using r(2) by (auto simp: ht_map_def)
    with ht_map_update [OF assms _ r(3)] Some b r(1) show ?thesis by (simp add: rqc_id_hash_delete_def)
  qed
qed

subsection \<open>The contract\<close>

locale id_table =
  fixes ok :: "'t \<Rightarrow> bool"
    and lookup :: "'t \<Rightarrow> u64 \<rightharpoonup> 'v"
    and find :: "'t \<Rightarrow> u64 \<Rightarrow> 'v option res"
    and add :: "'t \<Rightarrow> u64 \<Rightarrow> 'v \<Rightarrow> (int \<times> 't) res"
    and del :: "'t \<Rightarrow> u64 \<Rightarrow> (int \<times> 't) res"
  assumes find: "ok t \<Longrightarrow> find t h = Inr (lookup t h)"
    and add: "ok t \<Longrightarrow> \<exists>t'. add t h v = Inr (if lookup t h = None then RQC_OK else RQC_ERROR, t') \<and> ok t' \<and>
           lookup t' = (if lookup t h = None then (lookup t)(h \<mapsto> v) else lookup t)"
    and del: "ok t \<Longrightarrow> \<exists>t'. del t h = Inr (if lookup t h = None then RQC_ERROR else RQC_OK, t') \<and> ok t' \<and>
           lookup t' = (lookup t)(h := None)"
begin

text \<open>A failed operation changes nothing that a client can see.\<close>

lemma failed_add: "ok t \<Longrightarrow> add t h v = Inr (RQC_ERROR, t') \<Longrightarrow> lookup t' = lookup t \<and> lookup t h \<noteq> None"
  using add [of t h v] by (auto split: if_splits)

lemma add_find_delete:
  assumes "ok t" "lookup t h = None"
  shows "\<exists>t1 t2. add t h v = Inr (RQC_OK, t1) \<and> (\<forall>k. find t1 k = Inr (if k = h then Some v else lookup t k)) \<and>
    del t1 h = Inr (RQC_OK, t2) \<and> (\<forall>k. find t2 k = Inr (lookup t k))"
proof -
  obtain t1 where t1: "add t h v = Inr (RQC_OK, t1)" "ok t1" "lookup t1 = (lookup t)(h \<mapsto> v)"
    using add [OF assms(1), of h v] assms(2) by auto
  obtain t2 where t2: "del t1 h = Inr (RQC_OK, t2)" "ok t2" "lookup t2 = (lookup t1)(h := None)"
    using del [OF t1(2), of h] t1(3) by auto
  then show ?thesis using t1 assms by (auto simp: find)
qed

end

interpretation ht: id_table ht_ok ht_map rqc_id_hash_find "rqc_id_hash_add True" rqc_id_hash_delete
  by unfold_locales (simp_all add: find_map add_map delete_map)

subsection \<open>Properties\<close>

text \<open>
  C27: the table is a map. With at most \<open>2 ^ 60\<close> buckets asked for, so that the size of the bucket array does not
  wrap, initialisation gives an empty table; adding an identifier that is not there makes exactly it findable with its value, deleting
  it afterwards restores every lookup, adding it twice is refused without effect, and no operation
  leaves the bucket array.
\<close>

theorem rqc_id_hash_is_map:
  fixes v w :: 'v
  assumes "ht_ok ht" "ht_map ht h = None" "n \<le> 0x1000000000000000"
  shows "\<exists>ht0 :: 'v rqc_id_hash_table. \<exists>ht1 ht2 ht3. rqc_id_hash_init True n = Inr ht0 \<and> ht_ok ht0 \<and>
    (\<forall>k. rqc_id_hash_find ht0 k = Inr None) \<and>
    rqc_id_hash_add True ht h v = Inr (RQC_OK, ht1) \<and> ht_ok ht1 \<and>
    (\<forall>k. rqc_id_hash_find ht1 k = Inr (if k = h then Some v else ht_map ht k)) \<and>
    rqc_id_hash_add True ht1 h w = Inr (RQC_ERROR, ht1) \<and>
    rqc_id_hash_delete ht1 h = Inr (RQC_OK, ht2) \<and> ht_ok ht2 \<and> (\<forall>k. rqc_id_hash_find ht2 k = Inr (ht_map ht k)) \<and>
    rqc_id_hash_delete ht2 h = Inr (RQC_ERROR, ht3) \<and> (\<forall>k. rqc_id_hash_find ht3 k = Inr (ht_map ht k))"
proof -
  obtain ht0 :: "'v rqc_id_hash_table" where 0: "rqc_id_hash_init True n = Inr ht0" "ht_ok ht0" "ht_map ht0 = (\<lambda>_. None)"
    using ht_init_ok [OF assms(3)] by blast
  obtain ht1 where 1: "rqc_id_hash_add True ht h v = Inr (RQC_OK, ht1)" "ht_ok ht1" "ht_map ht1 = (ht_map ht)(h \<mapsto> v)"
    using add_map [OF assms(1), of h v] assms(2) by auto
  obtain ht2 where 2: "rqc_id_hash_delete ht1 h = Inr (RQC_OK, ht2)" "ht_ok ht2" "ht_map ht2 = (ht_map ht1)(h := None)"
    using delete_map [OF 1(2), of h] 1(3) by auto
  obtain ht3 where 3: "rqc_id_hash_delete ht2 h = Inr (RQC_ERROR, ht3)" "ht_ok ht3" "ht_map ht3 = (ht_map ht2)(h := None)"
    using delete_map [OF 2(2), of h] 2(3) by auto
  have "rqc_id_hash_add True ht1 h w = Inr (RQC_ERROR, ht1)" using 1 by (simp add: rqc_id_hash_add_def find_map)
  then show ?thesis using 0 1 2 3 assms(2)
    by (intro exI [of _ ht0] exI [of _ ht1] exI [of _ ht2] exI [of _ ht3]) (auto simp: find_map)
qed

definition ht_example :: "nat rqc_id_hash_table" where
  "ht_example = \<lparr>ht_list = [[(4, 40), (0, 0)], [(1, 10)]], ht_count = 2, ht_mask = 1\<rparr>"

theorem rqc_id_hash_is_map_witness:
  "\<exists>ht1 ht2. rqc_id_hash_add True ht_example 2 20 = Inr (RQC_OK, ht1) \<and> rqc_id_hash_find ht1 4 = Inr (Some 40) \<and>
     rqc_id_hash_delete ht1 2 = Inr (RQC_OK, ht2) \<and> rqc_id_hash_find ht2 2 = Inr None"
proof -
  have "bucket ht_example h < 2" for h
  proof -
    have "unat (h AND 1) = unat h mod 2" by (simp add: and_one_eq unat_mod)
    then show ?thesis by (simp add: bucket_def ht_example_def)
  qed
  moreover have "length (ht_list ht_example) = 2"
    "\<forall>i < 2. distinct (map fst (ht_list ht_example ! i))" by (auto simp: ht_example_def less_2_cases_iff)
  ultimately have "ht_ok ht_example" by (simp add: ht_ok_def)
  moreover have "ht_map ht_example 2 = None" by (simp add: ht_map_def ht_example_def bucket_def)
  moreover have "ht_map ht_example 4 = Some 40" by (simp add: ht_map_def ht_example_def bucket_def)
  ultimately show ?thesis using rqc_id_hash_is_map [of ht_example 2 1024 20 21] by fastforce
qed

end
