(* ===== verification/Rqc_Cid.thy ===== *)
theory Rqc_Cid
  imports Rqc_Packet
begin

text \<open>
  Connection identifiers (\<open>rqc_cid.c\<close>, \<open>rqc_cid.h\<close>).

  A \<open>rqc_cid_set\<close> holds one list of identifiers per path; every identifier moves through the
  states unused, used, retired, removed, and each per-path list keeps counters of how many of
  its identifiers are in which state. The intrusive lists are HOL lists in list order; a pointer
  to a per-path set is its position in \<open>cid_set_list\<close>, and a pointer to an identifier is a pair of
  positions. An operation that returns a code and changes the set returns both.

  The main results are the invariant that the counters agree with the lists in every reachable
  state, the bound on active identifiers, and the behaviour of looking up, taking, retiring and
  deleting an identifier.
\<close>

subsection \<open>Identifiers\<close>

definition rqc_cid_is_equal :: "rqc_cid option \<Rightarrow> rqc_cid option \<Rightarrow> int" where
  "rqc_cid_is_equal dst src = (case (dst, src) of
     (Some d, Some s) \<Rightarrow>
       if cid_len d \<noteq> cid_len s then RQC_ERROR
       else if take (cid_len d) (cid_buf d) \<noteq> take (cid_len d) (cid_buf s) then RQC_ERROR
       else RQC_OK
   | _ \<Rightarrow> RQC_ERROR)"

definition rqc_cid_copy :: "rqc_cid \<Rightarrow> rqc_cid \<Rightarrow> rqc_cid" where
  "rqc_cid_copy dst src = dst\<lparr>cid_len := cid_len src,
     cid_buf := overwrite (cid_buf dst) 0 (take (cid_len src) (cid_buf src)),
     cid_seq_num := cid_seq_num src, cid_path_id := cid_path_id src\<rparr>"

definition rqc_cid_init_zero :: "rqc_cid \<Rightarrow> rqc_cid" where
  "rqc_cid_init_zero cid = cid\<lparr>cid_len := 0, cid_seq_num := 0, cid_path_id := 0\<rparr>"

definition rqc_cid_set :: "rqc_cid \<Rightarrow> byte list \<Rightarrow> nat \<Rightarrow> rqc_cid" where
  "rqc_cid_set cid data len =
     (let cid = cid\<lparr>cid_len := len\<rparr>
      in if len \<noteq> 0 then cid\<lparr>cid_buf := overwrite (cid_buf cid) 0 (take len data)\<rparr> else cid)"

text \<open>
  The identifier generator. The callback of the application and the random source are
  arguments: \<open>cb ori buf len\<close> gives the number of bytes written, or an error, and what they are;
  \<open>rnd n\<close> gives \<open>n\<close> bytes or fails.
\<close>

definition rqc_generate_cid ::
  "nat \<Rightarrow> (rqc_cid option \<Rightarrow> nat \<Rightarrow> int \<times> byte list) option \<Rightarrow> (nat \<Rightarrow> byte list option) \<Rightarrow>
   rqc_cid option \<Rightarrow> rqc_cid \<Rightarrow> u64 \<Rightarrow> int \<times> rqc_cid" where
  "rqc_generate_cid conf_len cb rnd ori_cid cid seq_num =
     (let cid = cid\<lparr>cid_seq_num := seq_num, cid_len := conf_len\<rparr>;
          (written, bs) = (case cb of Some f \<Rightarrow> f ori_cid conf_len | None \<Rightarrow> (0, []))
      in if written < RQC_OK then (- RQC_EGENERATE_CID, cid)
         else
           let w = nat written;
               cid = cid\<lparr>cid_buf := overwrite (cid_buf cid) 0 bs\<rparr>
           in if w < conf_len then
                (case rnd (conf_len - w) of
                   None \<Rightarrow> (- RQC_EGENERATE_CID, cid)
                 | Some rs \<Rightarrow> (RQC_OK, cid\<lparr>cid_buf := overwrite (cid_buf cid) w rs, cid_path_id := 0\<rparr>))
              else (RQC_OK, cid\<lparr>cid_path_id := 0\<rparr>))"

subsection \<open>Sets\<close>

datatype rqc_cid_state = RQC_CID_UNUSED | RQC_CID_USED | RQC_CID_RETIRED | RQC_CID_REMOVED

text \<open>The order of the enumeration constants.\<close>

primrec cid_state_num :: "rqc_cid_state \<Rightarrow> nat" where
  "cid_state_num RQC_CID_UNUSED = 0"
| "cid_state_num RQC_CID_USED = 1"
| "cid_state_num RQC_CID_RETIRED = 2"
| "cid_state_num RQC_CID_REMOVED = 3"

instantiation rqc_cid_state :: linorder
begin

definition less_eq_rqc_cid_state :: "rqc_cid_state \<Rightarrow> rqc_cid_state \<Rightarrow> bool" where
  "less_eq_rqc_cid_state a b \<longleftrightarrow> cid_state_num a \<le> cid_state_num b"

definition less_rqc_cid_state :: "rqc_cid_state \<Rightarrow> rqc_cid_state \<Rightarrow> bool" where
  "less_rqc_cid_state a b \<longleftrightarrow> cid_state_num a < cid_state_num b"

instance
proof
  fix a b :: rqc_cid_state
  assume "a \<le> b" and "b \<le> a"
  then show "a = b" by (cases a; cases b) (simp_all add: less_eq_rqc_cid_state_def)
qed (auto simp: less_eq_rqc_cid_state_def less_rqc_cid_state_def)

end

datatype rqc_cid_set_state = RQC_CID_SET_UNUSED | RQC_CID_SET_USED | RQC_CID_SET_ABANDONED

primrec cid_set_state_num :: "rqc_cid_set_state \<Rightarrow> nat" where
  "cid_set_state_num RQC_CID_SET_UNUSED = 0"
| "cid_set_state_num RQC_CID_SET_USED = 1"
| "cid_set_state_num RQC_CID_SET_ABANDONED = 2"

record rqc_cid_inner =
  ci_cid :: rqc_cid
  ci_state :: rqc_cid_state
  retired_ts :: u64
  ci_acked :: bool

text \<open>\<open>largest_scid_seq_num\<close> is also \<open>largest_retire_prior_to\<close>: one word, used by the kind of set.\<close>

record rqc_cid_set_inner =
  cid_list :: "rqc_cid_inner list"
  unused_cnt :: u64
  used_cnt :: u64
  retired_cnt :: u64
  cs_path_id :: u64
  largest_scid_seq_num :: u64
  set_state :: rqc_cid_set_state
  acked_unused :: u32

text \<open>\<open>user_scid\<close> is also \<open>current_dcid\<close>. The printable forms of identifiers are for logs.\<close>

record rqc_cid_sets =
  cid_set_list :: "rqc_cid_set_inner list"
  user_scid :: rqc_cid
  set_cnt :: "u32 list"

definition zero_cid :: rqc_cid where
  "zero_cid = \<lparr>cid_len = 0, cid_buf = replicate RQC_MAX_CID_LEN 0, cid_seq_num = 0, cid_path_id = 0\<rparr>"

definition rqc_init_cid_set :: "rqc_cid_sets" where
  "rqc_init_cid_set = \<lparr>cid_set_list = [], user_scid = zero_cid, set_cnt = replicate 3 0\<rparr>"

definition rqc_cid_set_inner_init :: "rqc_cid_set_inner" where
  "rqc_cid_set_inner_init = \<lparr>cid_list = [], unused_cnt = 0, used_cnt = 0, retired_cnt = 0,
     cs_path_id = 0, largest_scid_seq_num = 0, set_state = RQC_CID_SET_UNUSED, acked_unused = 0\<rparr>"

text \<open>The first position that satisfies a predicate: the searching loops over lists.\<close>

fun first_idx :: "('a \<Rightarrow> bool) \<Rightarrow> 'a list \<Rightarrow> nat option" where
  "first_idx P [] = None"
| "first_idx P (x # xs) = (if P x then Some 0 else map_option Suc (first_idx P xs))"

definition rqc_get_path_cid_set :: "rqc_cid_sets \<Rightarrow> u64 \<Rightarrow> nat option" where
  "rqc_get_path_cid_set cs path = first_idx (\<lambda>s. cs_path_id s = path) (cid_set_list cs)"

definition rqc_get_next_unused_path_cid_set :: "rqc_cid_sets \<Rightarrow> nat option" where
  "rqc_get_next_unused_path_cid_set cs =
     first_idx (\<lambda>s. set_state s = RQC_CID_SET_UNUSED) (cid_set_list cs)"

text \<open>A getter converts its 64-bit counter to \<open>int64_t\<close>.\<close>

definition inner_get :: "(rqc_cid_set_inner \<Rightarrow> u64) \<Rightarrow> rqc_cid_sets \<Rightarrow> u64 \<Rightarrow> int" where
  "inner_get f cs path = (case rqc_get_path_cid_set cs path of
     Some i \<Rightarrow> sint (f (cid_set_list cs ! i)) | None \<Rightarrow> RQC_ERROR)"

definition rqc_cid_set_get_unused_cnt :: "rqc_cid_sets \<Rightarrow> u64 \<Rightarrow> int" where
  "rqc_cid_set_get_unused_cnt = inner_get unused_cnt"

definition rqc_cid_set_get_used_cnt :: "rqc_cid_sets \<Rightarrow> u64 \<Rightarrow> int" where
  "rqc_cid_set_get_used_cnt = inner_get used_cnt"

definition rqc_cid_set_get_retired_cnt :: "rqc_cid_sets \<Rightarrow> u64 \<Rightarrow> int" where
  "rqc_cid_set_get_retired_cnt = inner_get retired_cnt"

definition rqc_cid_set_get_largest_seq_or_rpt :: "rqc_cid_sets \<Rightarrow> u64 \<Rightarrow> int" where
  "rqc_cid_set_get_largest_seq_or_rpt = inner_get largest_scid_seq_num"

definition upd_set :: "nat \<Rightarrow> (rqc_cid_set_inner \<Rightarrow> rqc_cid_set_inner) \<Rightarrow> rqc_cid_sets \<Rightarrow> rqc_cid_sets" where
  "upd_set i f cs = cs\<lparr>cid_set_list := (cid_set_list cs)[i := f (cid_set_list cs ! i)]\<rparr>"

definition upd_cid :: "nat \<Rightarrow> (rqc_cid_inner \<Rightarrow> rqc_cid_inner) \<Rightarrow> rqc_cid_set_inner \<Rightarrow> rqc_cid_set_inner" where
  "upd_cid j f s = s\<lparr>cid_list := (cid_list s)[j := f (cid_list s ! j)]\<rparr>"

definition rqc_cid_set_set_largest_seq_or_rpt :: "rqc_cid_sets \<Rightarrow> u64 \<Rightarrow> u64 \<Rightarrow> int \<times> rqc_cid_sets" where
  "rqc_cid_set_set_largest_seq_or_rpt cs path val = (case rqc_get_path_cid_set cs path of
     Some i \<Rightarrow> (RQC_OK, upd_set i (\<lambda>s. s\<lparr>largest_scid_seq_num := val\<rparr>) cs)
   | None \<Rightarrow> (RQC_ERROR, cs))"

definition inc_cnt :: "rqc_cid_state \<Rightarrow> rqc_cid_set_inner \<Rightarrow> rqc_cid_set_inner" where
  "inc_cnt st s =
     (if st = RQC_CID_UNUSED then s\<lparr>unused_cnt := unused_cnt s + 1\<rparr>
      else if st = RQC_CID_USED then s\<lparr>used_cnt := used_cnt s + 1\<rparr>
      else if st = RQC_CID_RETIRED then s\<lparr>retired_cnt := retired_cnt s + 1\<rparr> else s)"

definition dec_cnt :: "rqc_cid_inner \<Rightarrow> rqc_cid_set_inner \<Rightarrow> rqc_cid_set_inner" where
  "dec_cnt c s =
     (if ci_state c = RQC_CID_UNUSED then
        let s = s\<lparr>unused_cnt := unused_cnt s - 1\<rparr>
        in if ci_acked c then s\<lparr>acked_unused := acked_unused s - 1\<rparr> else s
      else if ci_state c = RQC_CID_USED then s\<lparr>used_cnt := used_cnt s - 1\<rparr>
      else if ci_state c = RQC_CID_RETIRED then s\<lparr>retired_cnt := retired_cnt s - 1\<rparr> else s)"

text \<open>The identifier passed in is changed too: its path becomes the one it is added to.\<close>

definition rqc_cid_set_insert_cid ::
  "rqc_cid_sets \<Rightarrow> rqc_cid \<Rightarrow> rqc_cid_state \<Rightarrow> u64 \<Rightarrow> u64 \<Rightarrow> int \<times> rqc_cid \<times> rqc_cid_sets" where
  "rqc_cid_set_insert_cid cs cid state limit path = (case rqc_get_path_cid_set cs path of
     None \<Rightarrow> (- RQC_ECONN_CID_NOT_FOUND, cid, cs)
   | Some i \<Rightarrow>
       let s = cid_set_list cs ! i
       in if unused_cnt s + used_cnt s > limit then (- RQC_EACTIVE_CID_LIMIT, cid, cs)
          else
            let cid = cid\<lparr>cid_path_id := path\<rparr>;
                inner = \<lparr>ci_cid = rqc_cid_copy zero_cid cid, ci_state = state, retired_ts = - 1, ci_acked = False\<rparr>
            in (RQC_OK, cid,
                upd_set i (\<lambda>s. inc_cnt state (s\<lparr>cid_list := cid_list s @ [inner]\<rparr>)) cs))"

definition rqc_cid_set_delete_cid :: "rqc_cid_sets \<Rightarrow> rqc_cid \<Rightarrow> u64 \<Rightarrow> int \<times> rqc_cid_sets" where
  "rqc_cid_set_delete_cid cs cid path = (case rqc_get_path_cid_set cs path of
     None \<Rightarrow> (RQC_ERROR, cs)
   | Some i \<Rightarrow>
       let s = cid_set_list cs ! i
       in case first_idx (\<lambda>c. rqc_cid_is_equal (Some cid) (Some (ci_cid c)) = RQC_OK) (cid_list s) of
            None \<Rightarrow> (RQC_ERROR, cs)
          | Some j \<Rightarrow>
              (RQC_OK, upd_set i (\<lambda>s. (dec_cnt (cid_list s ! j) s)
                 \<lparr>cid_list := take j (cid_list s) @ drop (Suc j) (cid_list s)\<rparr>) cs))"

text \<open>A successful search also fills in the sequence number and the path of its argument.\<close>

type_synonym cid_ptr = "nat \<times> nat"

definition found :: "rqc_cid \<Rightarrow> rqc_cid_inner \<Rightarrow> rqc_cid" where
  "found cid c = cid\<lparr>cid_seq_num := cid_seq_num (ci_cid c), cid_path_id := cid_path_id (ci_cid c)\<rparr>"

fun search_sets :: "nat \<Rightarrow> rqc_cid_set_inner list \<Rightarrow> rqc_cid \<Rightarrow> (cid_ptr \<times> rqc_cid) option" where
  "search_sets i [] cid = None"
| "search_sets i (s # ss) cid =
     (case first_idx (\<lambda>c. rqc_cid_is_equal (Some cid) (Some (ci_cid c)) = RQC_OK) (cid_list s) of
        Some j \<Rightarrow> Some ((i, j), found cid (cid_list s ! j))
      | None \<Rightarrow> search_sets (Suc i) ss cid)"

definition rqc_cid_set_search_cid :: "rqc_cid_sets \<Rightarrow> rqc_cid \<Rightarrow> (cid_ptr \<times> rqc_cid) option" where
  "rqc_cid_set_search_cid cs cid = search_sets 0 (cid_set_list cs) cid"

definition rqc_cid_in_cid_set :: "rqc_cid_sets \<Rightarrow> rqc_cid \<Rightarrow> u64 \<Rightarrow> (cid_ptr \<times> rqc_cid) option" where
  "rqc_cid_in_cid_set cs cid path = (case rqc_get_path_cid_set cs path of
     None \<Rightarrow> None
   | Some i \<Rightarrow>
       let s = cid_set_list cs ! i
       in case first_idx (\<lambda>c. rqc_cid_is_equal (Some cid) (Some (ci_cid c)) = RQC_OK) (cid_list s) of
            None \<Rightarrow> None
          | Some j \<Rightarrow> Some ((i, j), found cid (cid_list s ! j)))"

definition rqc_cid_switch_to_next_state ::
  "rqc_cid_sets \<Rightarrow> cid_ptr \<Rightarrow> rqc_cid_state \<Rightarrow> u64 \<Rightarrow> int \<times> rqc_cid_sets" where
  "rqc_cid_switch_to_next_state cs p next_state path =
     (let c = cid_list (cid_set_list cs ! fst p) ! snd p
      in case rqc_cid_in_cid_set cs (ci_cid c) path of
           None \<Rightarrow> (- RQC_ECONN_CID_NOT_FOUND, cs)
         | Some (_, cid) \<Rightarrow>
             let cs = upd_set (fst p) (upd_cid (snd p) (\<lambda>c. c\<lparr>ci_cid := cid\<rparr>)) cs
             in if ci_state c = next_state then (RQC_OK, cs)
                else if ci_state c > next_state then (- RQC_ECID_STATE, cs)
                else case rqc_get_path_cid_set cs path of
                       None \<Rightarrow> (- RQC_ECONN_CID_NOT_FOUND, cs)
                     | Some k \<Rightarrow>
                         let cs = upd_set k (dec_cnt c) cs;
                             cs = upd_set (fst p) (upd_cid (snd p) (\<lambda>c. c\<lparr>ci_state := next_state\<rparr>)) cs
                         in (RQC_OK, upd_set k (inc_cnt next_state) cs))"

definition rqc_get_unused_cid :: "rqc_cid_sets \<Rightarrow> rqc_cid \<Rightarrow> u64 \<Rightarrow> int \<times> rqc_cid \<times> rqc_cid_sets" where
  "rqc_get_unused_cid cs cid path = (case rqc_get_path_cid_set cs path of
     None \<Rightarrow> (- RQC_ECONN_NO_AVAIL_CID, cid, cs)
   | Some i \<Rightarrow>
       let s = cid_set_list cs ! i
       in if unused_cnt s = 0 then (- RQC_ECONN_NO_AVAIL_CID, cid, cs)
          else case first_idx (\<lambda>c. ci_state c = RQC_CID_UNUSED) (cid_list s) of
                 None \<Rightarrow> (- RQC_ECONN_NO_AVAIL_CID, cid, cs)
               | Some j \<Rightarrow>
                   let cid = rqc_cid_copy cid (ci_cid (cid_list s ! j));
                       (r, cs) = rqc_cid_switch_to_next_state cs (i, j) RQC_CID_USED path
                   in (r, cid, cs))"

definition rqc_get_inner_cid_by_seq :: "rqc_cid_sets \<Rightarrow> u64 \<Rightarrow> u64 \<Rightarrow> cid_ptr option" where
  "rqc_get_inner_cid_by_seq cs seq_num path = (case rqc_get_path_cid_set cs path of
     None \<Rightarrow> None
   | Some i \<Rightarrow> map_option (Pair i)
       (first_idx (\<lambda>c. cid_seq_num (ci_cid c) = seq_num) (cid_list (cid_set_list cs ! i))))"

definition rqc_cid_set_add_path :: "rqc_cid_sets \<Rightarrow> u64 \<Rightarrow> int \<times> rqc_cid_sets" where
  "rqc_cid_set_add_path cs path = (case rqc_get_path_cid_set cs path of
     Some _ \<Rightarrow> (RQC_OK, cs)
   | None \<Rightarrow>
       (RQC_OK, cs\<lparr>cid_set_list := cid_set_list cs @ [rqc_cid_set_inner_init\<lparr>cs_path_id := path\<rparr>],
                  set_cnt := (set_cnt cs)[0 := set_cnt cs ! 0 + 1]\<rparr>))"

definition rqc_cid_set_update_state :: "rqc_cid_sets \<Rightarrow> u64 \<Rightarrow> rqc_cid_set_state \<Rightarrow> rqc_cid_sets" where
  "rqc_cid_set_update_state cs path state = (case rqc_get_path_cid_set cs path of
     None \<Rightarrow> cs
   | Some i \<Rightarrow>
       let s = cid_set_list cs ! i; o' = cid_set_state_num (set_state s); n = cid_set_state_num state
       in if set_state s \<noteq> state then
            let cnt = (set_cnt cs)[o' := set_cnt cs ! o' - 1]; cnt = cnt[n := cnt ! n + 1]
            in upd_set i (\<lambda>s. s\<lparr>set_state := state\<rparr>) (cs\<lparr>set_cnt := cnt\<rparr>)
          else cs)"

fun acked_loop :: "u64 \<Rightarrow> rqc_cid_inner list \<Rightarrow> u32 \<Rightarrow> rqc_cid_inner list \<times> u32" where
  "acked_loop seq [] n = ([], n)"
| "acked_loop seq (c # cl) n =
     (if cid_seq_num (ci_cid c) = seq then
        let n = (if \<not> ci_acked c \<and> ci_state c = RQC_CID_UNUSED then n + 1 else n);
            (cl, n) = acked_loop seq cl n
        in (c\<lparr>ci_acked := True\<rparr> # cl, n)
      else let (cl, n) = acked_loop seq cl n in (c # cl, n))"

definition rqc_cid_set_on_cid_acked :: "rqc_cid_sets \<Rightarrow> u64 \<Rightarrow> u64 \<Rightarrow> rqc_cid_sets" where
  "rqc_cid_set_on_cid_acked cs path seq = (case rqc_get_path_cid_set cs path of
     None \<Rightarrow> cs
   | Some i \<Rightarrow> upd_set i (\<lambda>s. let (cl, n) = acked_loop seq (cid_list s) (acked_unused s)
                           in s\<lparr>cid_list := cl, acked_unused := n\<rparr>) cs)"

subsection \<open>Searching and counting in lists\<close>

lemma first_idx_None: "first_idx P xs = None \<longleftrightarrow> (\<forall>x\<in>set xs. \<not> P x)"
  by (induction xs) auto

lemma first_idx_Some:
  "first_idx P xs = Some i \<longleftrightarrow> i < length xs \<and> P (xs ! i) \<and> (\<forall>j<i. \<not> P (xs ! j))"
proof (induction xs arbitrary: i)
  case (Cons x xs)
  show ?case
  proof (cases i)
    case (Suc k)
    have "(\<forall>j<Suc k. \<not> P ((x # xs) ! j)) \<longleftrightarrow> \<not> P x \<and> (\<forall>j<k. \<not> P (xs ! j))"
      by (auto simp: less_Suc_eq_0_disj)
    with Suc Cons.IH [of k] show ?thesis by auto
  qed auto
qed simp

lemma first_idx_append:
  "first_idx P (xs @ ys) =
     (case first_idx P xs of Some i \<Rightarrow> Some i | None \<Rightarrow> map_option (\<lambda>i. length xs + i) (first_idx P ys))"
proof (induction xs)
  case Nil
  then show ?case by (cases "first_idx P ys") simp_all
next
  case (Cons x xs)
  then show ?case
    by (cases "first_idx P ys") (auto split: option.splits)
qed

text \<open>The number of elements that satisfy a predicate, as the machine counter that tracks it.\<close>

definition cnt :: "('a \<Rightarrow> bool) \<Rightarrow> 'a list \<Rightarrow> 'w::len word" where
  "cnt P xs = of_nat (length (filter P xs))"

lemma cnt_simps [simp]:
  "cnt P [] = 0" "cnt P (x # xs) = (if P x then 1 else 0) + cnt P xs"
  "cnt P (xs @ ys) = cnt P xs + cnt P ys"
  by (simp_all add: cnt_def)

lemma cnt_split: "j < length xs \<Longrightarrow>
   cnt P xs = cnt P (take j xs @ drop (Suc j) xs) + (if P (xs ! j) then 1 else 0)"
  by (subst id_take_nth_drop [of j xs]) (simp_all add: algebra_simps)

lemma cnt_remove:
  "j < length xs \<Longrightarrow> cnt P (take j xs @ drop (Suc j) xs) = cnt P xs - (if P (xs ! j) then 1 else 0)"
  by (simp add: cnt_split [of j xs P])

lemma cnt_update:
  "j < length xs \<Longrightarrow>
   cnt P (xs[j := y]) = cnt P xs - (if P (xs ! j) then 1 else 0) + (if P y then 1 else 0)"
  by (simp add: cnt_split [of j xs P] upd_conv_take_nth_drop)

subsection \<open>The invariant\<close>

text \<open>
  \<open>inner_ok\<close>: the four counters of a per-path set are the numbers of its identifiers in the
  states they count, and every identifier carries the path of its set. \<open>sets_ok\<close>: in addition the
  paths differ, and \<open>set_cnt\<close> counts the per-path sets by state.
\<close>

definition cid_wf :: "rqc_cid \<Rightarrow> bool" where
  "cid_wf c \<longleftrightarrow> length (cid_buf c) = RQC_MAX_CID_LEN \<and> cid_len c \<le> RQC_MAX_CID_LEN"

definition inner_ok :: "rqc_cid_set_inner \<Rightarrow> bool" where
  "inner_ok s \<longleftrightarrow>
     unused_cnt s = cnt (\<lambda>c. ci_state c = RQC_CID_UNUSED) (cid_list s) \<and>
     used_cnt s = cnt (\<lambda>c. ci_state c = RQC_CID_USED) (cid_list s) \<and>
     retired_cnt s = cnt (\<lambda>c. ci_state c = RQC_CID_RETIRED) (cid_list s) \<and>
     acked_unused s = cnt (\<lambda>c. ci_state c = RQC_CID_UNUSED \<and> ci_acked c) (cid_list s) \<and>
     (\<forall>c\<in>set (cid_list s). cid_path_id (ci_cid c) = cs_path_id s \<and> cid_wf (ci_cid c))"

definition sets_ok :: "rqc_cid_sets \<Rightarrow> bool" where
  "sets_ok cs \<longleftrightarrow>
     (\<forall>s\<in>set (cid_set_list cs). inner_ok s) \<and> distinct (map cs_path_id (cid_set_list cs)) \<and>
     length (set_cnt cs) = 3 \<and>
     (\<forall>st. set_cnt cs ! cid_set_state_num st = cnt (\<lambda>s. set_state s = st) (cid_set_list cs))"

lemma cid_set_state_num_less [simp]: "cid_set_state_num st < 3"
  by (cases st) simp_all

lemma cid_set_state_num_eq [simp]: "cid_set_state_num st = cid_set_state_num st' \<longleftrightarrow> st = st'"
  by (cases st; cases st') simp_all

lemma rqc_cid_is_equal_iff:
  "rqc_cid_is_equal (Some d) (Some s) = RQC_OK \<longleftrightarrow>
   cid_len d = cid_len s \<and> take (cid_len d) (cid_buf d) = take (cid_len s) (cid_buf s)"
  by (auto simp: rqc_cid_is_equal_def)

lemma rqc_cid_is_equal_refl [simp]: "rqc_cid_is_equal (Some d) (Some d) = RQC_OK"
  by (simp add: rqc_cid_is_equal_iff)

lemma cid_wf_copy: "cid_wf d \<Longrightarrow> cid_wf s \<Longrightarrow> cid_wf (rqc_cid_copy d s)"
  by (simp add: cid_wf_def rqc_cid_copy_def)

lemma cid_wf_zero [simp]: "cid_wf zero_cid"
  by (simp add: cid_wf_def zero_cid_def)

lemma rqc_cid_copy_fields [simp]:
  "cid_path_id (rqc_cid_copy d s) = cid_path_id s" "cid_seq_num (rqc_cid_copy d s) = cid_seq_num s"
  "cid_len (rqc_cid_copy d s) = cid_len s"
  by (simp_all add: rqc_cid_copy_def)

lemma rqc_cid_copy_bytes:
  "cid_wf s \<Longrightarrow> take (cid_len s) (cid_buf (rqc_cid_copy d s)) = take (cid_len s) (cid_buf s)"
  by (simp add: rqc_cid_copy_def overwrite_def cid_wf_def)

lemma rqc_cid_copy_equal:
  "cid_wf s \<Longrightarrow> rqc_cid_is_equal (Some (rqc_cid_copy d s)) (Some s) = RQC_OK"
  "cid_wf s \<Longrightarrow> rqc_cid_is_equal (Some s) (Some (rqc_cid_copy d s)) = RQC_OK"
  by (simp_all add: rqc_cid_is_equal_iff rqc_cid_copy_bytes)

lemma rqc_get_path_cid_set_Some:
  "rqc_get_path_cid_set cs path = Some i \<Longrightarrow>
   i < length (cid_set_list cs) \<and> cs_path_id (cid_set_list cs ! i) = path"
  by (simp add: rqc_get_path_cid_set_def first_idx_Some)

lemma rqc_get_path_cid_set_unique:
  assumes "distinct (map cs_path_id (cid_set_list cs))"
    and i: "i < length (cid_set_list cs)" "cs_path_id (cid_set_list cs ! i) = path"
  shows "rqc_get_path_cid_set cs path = Some i"
proof -
  have "\<forall>j<i. cs_path_id (cid_set_list cs ! j) \<noteq> path"
    using assms by (auto simp: distinct_conv_nth)
  with i show ?thesis by (simp add: rqc_get_path_cid_set_def first_idx_Some)
qed

lemma upd_set_upd_set [simp]:
  "i < length (cid_set_list cs) \<Longrightarrow> upd_set i f (upd_set i g cs) = upd_set i (f \<circ> g) cs"
  by (simp add: upd_set_def)

lemma upd_set_fields [simp]:
  "length (cid_set_list (upd_set i f cs)) = length (cid_set_list cs)"
  "user_scid (upd_set i f cs) = user_scid cs" "set_cnt (upd_set i f cs) = set_cnt cs"
  by (simp_all add: upd_set_def)

lemma nth_upd_set [simp]:
  "j < length (cid_set_list cs) \<Longrightarrow> cid_set_list (upd_set i f cs) ! j =
     (if j = i then f (cid_set_list cs ! i) else cid_set_list cs ! j)"
  by (auto simp: upd_set_def nth_list_update)

lemma path_upd_set:
  assumes "i < length (cid_set_list cs)" "cs_path_id (f (cid_set_list cs ! i)) = cs_path_id (cid_set_list cs ! i)"
  shows "map cs_path_id (cid_set_list (upd_set i f cs)) = map cs_path_id (cid_set_list cs)"
  using assms by (simp add: list_eq_iff_nth_eq)

lemma sets_ok_upd_set:
  assumes ok: "sets_ok cs" and i: "i < length (cid_set_list cs)"
    and f: "inner_ok (f (cid_set_list cs ! i))"
      "cs_path_id (f (cid_set_list cs ! i)) = cs_path_id (cid_set_list cs ! i)"
      "set_state (f (cid_set_list cs ! i)) = set_state (cid_set_list cs ! i)"
  shows "sets_ok (upd_set i f cs)"
proof -
  have "\<forall>s\<in>set (cid_set_list (upd_set i f cs)). inner_ok s"
    using ok i f(1) by (auto simp: all_set_conv_all_nth sets_ok_def)
  moreover have "cnt (\<lambda>s. set_state s = st) (cid_set_list (upd_set i f cs)) =
      (cnt (\<lambda>s. set_state s = st) (cid_set_list cs) :: u32)" for st
    using i f(3) by (simp add: upd_set_def cnt_update)
  ultimately show ?thesis
    using ok path_upd_set [where f = f, OF i f(2)] by (simp add: sets_ok_def)
qed

lemma inc_cnt_fields [simp]:
  "cid_list (inc_cnt st s) = cid_list s" "cs_path_id (inc_cnt st s) = cs_path_id s"
  "set_state (inc_cnt st s) = set_state s" "acked_unused (inc_cnt st s) = acked_unused s"
  by (simp_all add: inc_cnt_def)

lemma dec_cnt_fields [simp]:
  "cid_list (dec_cnt c s) = cid_list s" "cs_path_id (dec_cnt c s) = cs_path_id s"
  "set_state (dec_cnt c s) = set_state s"
  by (simp_all add: dec_cnt_def Let_def)

lemma upd_cid_fields [simp]:
  "cs_path_id (upd_cid j f s) = cs_path_id s" "set_state (upd_cid j f s) = set_state s"
  "unused_cnt (upd_cid j f s) = unused_cnt s" "used_cnt (upd_cid j f s) = used_cnt s"
  "retired_cnt (upd_cid j f s) = retired_cnt s" "acked_unused (upd_cid j f s) = acked_unused s"
  "cid_list (upd_cid j f s) = (cid_list s)[j := f (cid_list s ! j)]"
  by (simp_all add: upd_cid_def)

lemma inner_ok_nth:
  "inner_ok s \<Longrightarrow> j < length (cid_list s) \<Longrightarrow>
   cid_path_id (ci_cid (cid_list s ! j)) = cs_path_id s \<and> cid_wf (ci_cid (cid_list s ! j))"
  by (simp add: inner_ok_def)

subsection \<open>Every operation keeps the invariant\<close>

lemma sets_ok_nth: "sets_ok cs \<Longrightarrow> i < length (cid_set_list cs) \<Longrightarrow> inner_ok (cid_set_list cs ! i)"
  by (simp add: sets_ok_def)

lemma init_sets_ok: "sets_ok rqc_init_cid_set"
proof -
  have "(replicate 3 0 :: u32 list) ! cid_set_state_num st = 0" for st
    by (cases st) simp_all
  then show ?thesis by (simp add: sets_ok_def rqc_init_cid_set_def)
qed

lemma add_path_sets_ok:
  assumes "sets_ok cs"
  shows "sets_ok (snd (rqc_cid_set_add_path cs path))"
proof (cases "rqc_get_path_cid_set cs path")
  case None
  then have "path \<notin> cs_path_id ` set (cid_set_list cs)"
    by (auto simp: rqc_get_path_cid_set_def first_idx_None)
  moreover have "(set_cnt cs)[0 := set_cnt cs ! 0 + 1] ! cid_set_state_num st =
      cnt (\<lambda>s. set_state s = st) (cid_set_list cs) + (if st = RQC_CID_SET_UNUSED then 1 else 0)" for st
    using assms by (cases st) (auto simp: sets_ok_def dest: spec [of _ st])
  ultimately show ?thesis
    using None assms
    by (auto simp: rqc_cid_set_add_path_def sets_ok_def inner_ok_def rqc_cid_set_inner_init_def)
qed (simp add: rqc_cid_set_add_path_def assms)

lemma insert_inner_ok:
  assumes "inner_ok s" "cid_path_id (ci_cid c) = cs_path_id s" "cid_wf (ci_cid c)" "\<not> ci_acked c"
  shows "inner_ok (inc_cnt (ci_state c) (s\<lparr>cid_list := cid_list s @ [c]\<rparr>))"
  using assms by (cases "ci_state c") (auto simp: inner_ok_def inc_cnt_def)

lemma insert_sets_ok:
  assumes "sets_ok cs" "cid_wf cid"
  shows "sets_ok (snd (snd (rqc_cid_set_insert_cid cs cid state limit path)))"
proof (cases "rqc_get_path_cid_set cs path")
  case (Some i)
  note i = rqc_get_path_cid_set_Some [OF Some]
  have "cid_wf (cid\<lparr>cid_path_id := path\<rparr>)" using assms(2) by (simp add: cid_wf_def)
  then show ?thesis
    using Some i assms(1)
      insert_inner_ok [OF sets_ok_nth [OF assms(1), of i],
        of "\<lparr>ci_cid = rqc_cid_copy zero_cid (cid\<lparr>cid_path_id := path\<rparr>), ci_state = state, retired_ts = - 1, ci_acked = False\<rparr>"]
    by (auto simp: rqc_cid_set_insert_cid_def Let_def cid_wf_copy intro!: sets_ok_upd_set)
qed (simp add: rqc_cid_set_insert_cid_def assms)

lemma delete_inner_ok:
  assumes "inner_ok s" "j < length (cid_list s)"
  shows "inner_ok ((dec_cnt (cid_list s ! j) s)\<lparr>cid_list := take j (cid_list s) @ drop (Suc j) (cid_list s)\<rparr>)"
proof -
  have "set (take j (cid_list s) @ drop (Suc j) (cid_list s)) \<subseteq> set (cid_list s)"
    using set_take_subset set_drop_subset by fastforce
  then show ?thesis
    using assms
    by (cases "ci_state (cid_list s ! j)") (auto simp: inner_ok_def dec_cnt_def Let_def cnt_remove simp del: cnt_simps)
qed

lemma delete_sets_ok:
  assumes "sets_ok cs"
  shows "sets_ok (snd (rqc_cid_set_delete_cid cs cid path))"
proof (cases "rqc_get_path_cid_set cs path")
  case (Some i)
  show ?thesis
    using Some rqc_get_path_cid_set_Some [OF Some] assms
    by (auto simp: rqc_cid_set_delete_cid_def Let_def first_idx_Some split: option.splits
        intro!: sets_ok_upd_set delete_inner_ok sets_ok_nth)
qed (simp add: rqc_cid_set_delete_cid_def assms)

lemma rename_inner_ok:
  assumes "inner_ok s" "j < length (cid_list s)" "cid_path_id cid = cs_path_id s" "cid_wf cid"
  shows "inner_ok (upd_cid j (\<lambda>c. c\<lparr>ci_cid := cid\<rparr>) s)"
  using assms by (auto simp: inner_ok_def cnt_update dest!: set_update_subset_insert [THEN subsetD])

lemma switch_inner_ok:
  assumes "inner_ok s" "j < length (cid_list s)" "ci_state (cid_list s ! j) < st"
  shows "inner_ok (inc_cnt st (upd_cid j (\<lambda>c. c\<lparr>ci_state := st\<rparr>) (dec_cnt (cid_list s ! j) s)))"
proof -
  have "\<forall>c\<in>set ((cid_list s)[j := (cid_list s ! j)\<lparr>ci_state := st\<rparr>]).
      cid_path_id (ci_cid c) = cs_path_id s \<and> cid_wf (ci_cid c)"
    using assms(1,2) inner_ok_nth [OF assms(1,2)]
    by (auto simp: inner_ok_def dest!: set_update_subset_insert [THEN subsetD])
  then show ?thesis
    using assms
    by (cases "ci_state (cid_list s ! j)"; cases st)
      (auto simp: inner_ok_def dec_cnt_def inc_cnt_def Let_def cnt_update less_rqc_cid_state_def)
qed

text \<open>A pointer to an identifier of the given path.\<close>

definition cid_at :: "rqc_cid_sets \<Rightarrow> cid_ptr \<Rightarrow> u64 \<Rightarrow> bool" where
  "cid_at cs p path \<longleftrightarrow> fst p < length (cid_set_list cs) \<and>
     snd p < length (cid_list (cid_set_list cs ! fst p)) \<and> cs_path_id (cid_set_list cs ! fst p) = path"

text \<open>What a state switch does through a valid pointer.\<close>

lemma in_cid_set_at:
  assumes ok: "sets_ok cs" and p: "cid_at cs (i, j) path"
  obtains k where "k \<le> j" "rqc_cid_in_cid_set cs (ci_cid (cid_list (cid_set_list cs ! i) ! j)) path =
      Some ((i, k), found (ci_cid (cid_list (cid_set_list cs ! i) ! j)) (cid_list (cid_set_list cs ! i) ! k))"
proof -
  let ?s = "cid_set_list cs ! i"
  let ?P = "\<lambda>c. rqc_cid_is_equal (Some (ci_cid (cid_list ?s ! j))) (Some (ci_cid c)) = RQC_OK"
  have path: "rqc_get_path_cid_set cs path = Some i"
    using ok p by (auto simp: sets_ok_def cid_at_def intro: rqc_get_path_cid_set_unique)
  have "?P (cid_list ?s ! j)" "j < length (cid_list ?s)" using p by (simp_all add: cid_at_def)
  then have "first_idx ?P (cid_list ?s) \<noteq> None"
    unfolding first_idx_None using nth_mem by blast
  then obtain k where k: "first_idx ?P (cid_list ?s) = Some k" by blast
  then have "k \<le> j" using \<open>?P (cid_list ?s ! j)\<close> unfolding first_idx_Some by (meson leI)
  with path k show ?thesis by (intro that [of k]) (simp_all add: rqc_cid_in_cid_set_def Let_def)
qed

lemma switch_eq:
  assumes ok: "sets_ok cs" and p: "cid_at cs (i, j) path"
  defines "c \<equiv> cid_list (cid_set_list cs ! i) ! j"
  obtains k where "k \<le> j" "rqc_cid_switch_to_next_state cs (i, j) st path =
    (let g = upd_cid j (\<lambda>d. d\<lparr>ci_cid := found (ci_cid c) (cid_list (cid_set_list cs ! i) ! k)\<rparr>)
     in if ci_state c = st then (RQC_OK, upd_set i g cs)
        else if ci_state c > st then (- RQC_ECID_STATE, upd_set i g cs)
        else (RQC_OK, upd_set i (inc_cnt st \<circ> (upd_cid j (\<lambda>c. c\<lparr>ci_state := st\<rparr>) \<circ> (dec_cnt c \<circ> g))) cs))"
proof -
  obtain k where k: "k \<le> j" "rqc_cid_in_cid_set cs (ci_cid c) path =
      Some ((i, k), found (ci_cid c) (cid_list (cid_set_list cs ! i) ! k))"
    using in_cid_set_at [OF ok p] unfolding c_def by blast
  let ?g = "upd_cid j (\<lambda>d. d\<lparr>ci_cid := found (ci_cid c) (cid_list (cid_set_list cs ! i) ! k)\<rparr>)"
  have i: "i < length (cid_set_list cs)" and path: "cs_path_id (cid_set_list cs ! i) = path"
    using p by (simp_all add: cid_at_def)
  have "rqc_get_path_cid_set (upd_set i ?g cs) path = Some i"
    using ok i path path_upd_set [of i cs ?g]
    by (intro rqc_get_path_cid_set_unique) (simp_all add: sets_ok_def)
  with k i show ?thesis
    by (intro that [of k]) (simp_all add: rqc_cid_switch_to_next_state_def Let_def c_def [symmetric])
qed

lemma switch_sets_ok:
  assumes ok: "sets_ok cs" and p: "cid_at cs p path"
  shows "sets_ok (snd (rqc_cid_switch_to_next_state cs p st path))"
proof -
  obtain i j where ij: "p = (i, j)" by (cases p)
  let ?s = "cid_set_list cs ! i"
  let ?c = "cid_list ?s ! j"
  have i: "i < length (cid_set_list cs)" and j: "j < length (cid_list ?s)"
    using p by (simp_all add: ij cid_at_def)
  obtain k where "k \<le> j" and eq: "rqc_cid_switch_to_next_state cs (i, j) st path =
    (let g = upd_cid j (\<lambda>d. d\<lparr>ci_cid := found (ci_cid ?c) (cid_list ?s ! k)\<rparr>)
     in if ci_state ?c = st then (RQC_OK, upd_set i g cs)
        else if ci_state ?c > st then (- RQC_ECID_STATE, upd_set i g cs)
        else (RQC_OK, upd_set i (inc_cnt st \<circ> (upd_cid j (\<lambda>c. c\<lparr>ci_state := st\<rparr>) \<circ> (dec_cnt ?c \<circ> g))) cs))"
    using switch_eq [OF ok p [unfolded ij]] by blast
  define f where "f = found (ci_cid ?c) (cid_list ?s ! k)"
  define t where "t = upd_cid j (\<lambda>d. d\<lparr>ci_cid := f\<rparr>) ?s"
  have s: "inner_ok ?s" using ok i by (rule sets_ok_nth)
  have "cid_path_id f = cs_path_id ?s" "cid_wf f"
    using inner_ok_nth [OF s, of k] inner_ok_nth [OF s j] j \<open>k \<le> j\<close>
    by (simp_all add: f_def found_def cid_wf_def)
  then have t: "inner_ok t" unfolding t_def by (intro rename_inner_ok s j)
  have dec: "dec_cnt (cid_list t ! j) u = dec_cnt ?c u" for u
    using j by (simp add: t_def dec_cnt_def)
  have "inner_ok (inc_cnt st (upd_cid j (\<lambda>c. c\<lparr>ci_state := st\<rparr>) (dec_cnt ?c t)))" if "ci_state ?c < st"
    using switch_inner_ok [OF t, of j st] j that by (simp add: dec, simp add: t_def)
  with t show ?thesis
    using ok i unfolding ij eq Let_def f_def [symmetric]
    by (auto intro!: sets_ok_upd_set simp: t_def)
qed

lemma get_unused_sets_ok:
  assumes "sets_ok cs"
  shows "sets_ok (snd (snd (rqc_get_unused_cid cs cid path)))"
proof (cases "rqc_get_path_cid_set cs path")
  case (Some i)
  show ?thesis
    using Some rqc_get_path_cid_set_Some [OF Some] switch_sets_ok [OF assms]
    by (auto simp: rqc_get_unused_cid_def Let_def first_idx_Some assms cid_at_def split: option.splits prod.splits)
      (metis snd_conv fst_conv)
qed (simp add: rqc_get_unused_cid_def assms)

lemma set_largest_sets_ok:
  assumes "sets_ok cs"
  shows "sets_ok (snd (rqc_cid_set_set_largest_seq_or_rpt cs path val))"
proof (cases "rqc_get_path_cid_set cs path")
  case (Some i)
  then show ?thesis
    using rqc_get_path_cid_set_Some [OF Some] assms sets_ok_nth [OF assms, of i]
    by (auto simp: rqc_cid_set_set_largest_seq_or_rpt_def inner_ok_def intro!: sets_ok_upd_set)
qed (simp add: rqc_cid_set_set_largest_seq_or_rpt_def assms)

lemma update_state_sets_ok:
  assumes ok: "sets_ok cs"
  shows "sets_ok (rqc_cid_set_update_state cs path state)"
proof (cases "rqc_get_path_cid_set cs path")
  case (Some i)
  let ?s = "cid_set_list cs ! i"
  have i: "i < length (cid_set_list cs)" using rqc_get_path_cid_set_Some [OF Some] by simp
  let ?cs = "upd_set i (\<lambda>s. s\<lparr>set_state := state\<rparr>) cs"
  have "\<forall>s\<in>set (cid_set_list ?cs). inner_ok s"
    using sets_ok_nth [OF ok] i by (auto simp: all_set_conv_all_nth inner_ok_def)
  moreover have "distinct (map cs_path_id (cid_set_list ?cs))"
    using ok i by (subst path_upd_set) (simp_all add: sets_ok_def)
  moreover have "cnt (\<lambda>s. set_state s = st) (cid_set_list ?cs) = (cnt (\<lambda>s. set_state s = st) (cid_set_list cs)
       - (if set_state ?s = st then 1 else 0) + (if state = st then 1 else 0) :: u32)" for st
    using i by (simp add: upd_set_def cnt_update)
  ultimately show ?thesis
    using Some ok
    by (auto simp: rqc_cid_set_update_state_def Let_def sets_ok_def upd_set_def nth_list_update)
qed (simp add: rqc_cid_set_update_state_def ok)

lemma acked_loop_correct:
  "acked_loop seq cl n =
     (map (\<lambda>c. if cid_seq_num (ci_cid c) = seq then c\<lparr>ci_acked := True\<rparr> else c) cl,
      n + cnt (\<lambda>c. cid_seq_num (ci_cid c) = seq \<and> \<not> ci_acked c \<and> ci_state c = RQC_CID_UNUSED) cl)"
  by (induction seq cl n rule: acked_loop.induct) (simp_all add: Let_def)

lemma cnt_map [simp]: "cnt P (map f xs) = cnt (P \<circ> f) xs"
  by (simp add: cnt_def filter_map)

lemma cnt_disjoint_add:
  "(\<And>x. x \<in> set xs \<Longrightarrow> R x \<longleftrightarrow> P x \<or> Q x) \<Longrightarrow> (\<And>x. x \<in> set xs \<Longrightarrow> \<not> (P x \<and> Q x)) \<Longrightarrow>
   cnt R xs = cnt P xs + cnt Q xs"
  by (induction xs) auto

lemma cnt_cong: "(\<And>x. x \<in> set xs \<Longrightarrow> P x = Q x) \<Longrightarrow> cnt P xs = cnt Q xs"
  by (simp add: cnt_def cong: filter_cong)

lemma on_cid_acked_sets_ok:
  assumes ok: "sets_ok cs"
  shows "sets_ok (rqc_cid_set_on_cid_acked cs path seq)"
proof (cases "rqc_get_path_cid_set cs path")
  case (Some i)
  let ?s = "cid_set_list cs ! i"
  let ?f = "\<lambda>c :: rqc_cid_inner. if cid_seq_num (ci_cid c) = seq then c\<lparr>ci_acked := True\<rparr> else c"
  have i: "i < length (cid_set_list cs)" using rqc_get_path_cid_set_Some [OF Some] by simp
  have "inner_ok ?s" using ok i by (rule sets_ok_nth)
  moreover have "cnt ((\<lambda>c. ci_state c = st) \<circ> ?f) xs = (cnt (\<lambda>c. ci_state c = st) xs :: u64)" for st xs
    by (rule cnt_cong) simp
  moreover have "cnt ((\<lambda>c. ci_state c = RQC_CID_UNUSED \<and> ci_acked c) \<circ> ?f) xs =
      (cnt (\<lambda>c. ci_state c = RQC_CID_UNUSED \<and> ci_acked c) xs :: u32) +
      cnt (\<lambda>c. cid_seq_num (ci_cid c) = seq \<and> \<not> ci_acked c \<and> ci_state c = RQC_CID_UNUSED) xs" for xs
    by (rule cnt_disjoint_add) auto
  ultimately have "inner_ok (let (cl, n) = acked_loop seq (cid_list ?s) (acked_unused ?s)
      in ?s\<lparr>cid_list := cl, acked_unused := n\<rparr>)"
    by (auto simp: acked_loop_correct inner_ok_def)
  then show ?thesis
    using Some i ok by (auto simp: rqc_cid_set_on_cid_acked_def acked_loop_correct intro!: sets_ok_upd_set)
qed (simp add: rqc_cid_set_on_cid_acked_def ok)

subsection \<open>Active identifiers\<close>

text \<open>The identifiers that count against the limit of an insertion: unused or used.\<close>

definition active :: "rqc_cid_set_inner \<Rightarrow> nat" where
  "active s = length (filter (\<lambda>c. ci_state c < RQC_CID_RETIRED) (cid_list s))"

lemma state_active_iff:
  "ci_state c < RQC_CID_RETIRED \<longleftrightarrow> ci_state c = RQC_CID_UNUSED \<or> ci_state c = RQC_CID_USED"
  by (cases "ci_state c") (simp_all add: less_rqc_cid_state_def)

lemma active_counters: "inner_ok s \<Longrightarrow> unused_cnt s + used_cnt s = of_nat (active s)"
proof -
  assume "inner_ok s"
  moreover have "(of_nat (active s) :: u64) = cnt (\<lambda>c. ci_state c < RQC_CID_RETIRED) (cid_list s)"
    by (simp add: active_def cnt_def)
  moreover have "\<dots> = cnt (\<lambda>c. ci_state c = RQC_CID_UNUSED) (cid_list s) + cnt (\<lambda>c. ci_state c = RQC_CID_USED) (cid_list s)"
    by (rule cnt_disjoint_add) (auto simp: state_active_iff)
  ultimately show ?thesis by (simp add: inner_ok_def)
qed

lemma length_filter_update_le:
  assumes "P y \<Longrightarrow> P (xs ! j)"
  shows "length (filter P (xs[j := y])) \<le> length (filter P xs)"
proof (cases "j < length xs")
  case True
  then have "filter P xs = filter P (take j xs) @ filter P [xs ! j] @ filter P (drop (Suc j) xs)"
    by (subst id_take_nth_drop [OF True]) simp
  then show ?thesis using True assms by (simp add: upd_conv_take_nth_drop)
qed (simp add: list_update_beyond)

lemma length_filter_remove_le:
  "length (filter P (take j xs @ drop (Suc j) xs)) \<le> length (filter P xs)"
proof (cases "j < length xs")
  case True
  then have "filter P xs = filter P (take j xs) @ filter P [xs ! j] @ filter P (drop (Suc j) xs)"
    by (subst id_take_nth_drop [OF True]) simp
  then show ?thesis by simp
qed simp

definition active_le :: "nat \<Rightarrow> rqc_cid_sets \<Rightarrow> bool" where
  "active_le n cs \<longleftrightarrow> (\<forall>s\<in>set (cid_set_list cs). active s \<le> n)"

lemma active_le_upd_set:
  assumes "active_le n cs" "i < length (cid_set_list cs) \<Longrightarrow> active (f (cid_set_list cs ! i)) \<le> n"
  shows "active_le n (upd_set i f cs)"
proof (cases "i < length (cid_set_list cs)")
  case True
  with assms show ?thesis
    by (auto simp: active_le_def upd_set_def dest: set_update_subset_insert [THEN subsetD])
qed (use assms in \<open>simp add: upd_set_def list_update_beyond active_le_def\<close>)

lemma active_le_nth: "active_le n cs \<Longrightarrow> i < length (cid_set_list cs) \<Longrightarrow> active (cid_set_list cs ! i) \<le> n"
  by (simp add: active_le_def)

lemma insert_active_le:
  assumes ok: "sets_ok cs" and le: "active_le (Suc (unat L)) cs" and "limit \<le> L" and small: "Suc (unat L) < 2 ^ 64"
  shows "active_le (Suc (unat L)) (snd (snd (rqc_cid_set_insert_cid cs cid state limit path)))"
proof (cases "rqc_get_path_cid_set cs path")
  case (Some i)
  let ?s = "cid_set_list cs ! i"
  have i: "i < length (cid_set_list cs)" using rqc_get_path_cid_set_Some [OF Some] by simp
  have "unat (unused_cnt ?s + used_cnt ?s) = active ?s"
    using active_counters [OF sets_ok_nth [OF ok i]] active_le_nth [OF le i] small
    by (simp add: unat_of_nat)
  then have "active ?s \<le> unat L" if "\<not> limit < unused_cnt ?s + used_cnt ?s"
    using that \<open>limit \<le> L\<close> by (auto simp: word_less_nat_alt word_le_nat_alt)
  then show ?thesis
    using Some le
    by (auto simp: rqc_cid_set_insert_cid_def Let_def active_def intro!: active_le_upd_set)
qed (simp add: rqc_cid_set_insert_cid_def le)

lemma delete_active_le:
  assumes "active_le n cs"
  shows "active_le n (snd (rqc_cid_set_delete_cid cs cid path))"
proof -
  have "active ((dec_cnt (cid_list s ! j) s)\<lparr>cid_list := take j (cid_list s) @ drop (Suc j) (cid_list s)\<rparr>) \<le> active s" for j s
    unfolding active_def using length_filter_remove_le [of _ j "cid_list s"] by simp
  then show ?thesis
    using assms active_le_nth [OF assms]
    by (auto simp: rqc_cid_set_delete_cid_def Let_def split: option.splits
        intro!: active_le_upd_set intro: le_trans)
qed

lemma switch_active_le:
  assumes ok: "sets_ok cs" and p: "cid_at cs p path" and le: "active_le n cs"
  shows "active_le n (snd (rqc_cid_switch_to_next_state cs p st path))"
proof -
  obtain i j where ij: "p = (i, j)" by (cases p)
  let ?c = "cid_list (cid_set_list cs ! i) ! j"
  have i: "i < length (cid_set_list cs)" and j: "j < length (cid_list (cid_set_list cs ! i))"
    using p by (simp_all add: ij cid_at_def)
  have rename: "active (upd_cid j (\<lambda>d. d\<lparr>ci_cid := x\<rparr>) (cid_set_list cs ! i)) \<le> active (cid_set_list cs ! i)" for x
    unfolding active_def upd_cid_fields by (rule length_filter_update_le) simp
  have "active (inc_cnt st (upd_cid j (\<lambda>c. c\<lparr>ci_state := st\<rparr>) (dec_cnt ?c s))) \<le> active s"
    if "ci_state (cid_list s ! j) < st" for s
    unfolding active_def upd_cid_fields inc_cnt_fields dec_cnt_fields
    using that by (intro length_filter_update_le) auto
  from this [of "upd_cid j (\<lambda>d. d\<lparr>ci_cid := x\<rparr>) (cid_set_list cs ! i)" for x] j
  have switch: "active (inc_cnt st (upd_cid j (\<lambda>c. c\<lparr>ci_state := st\<rparr>)
        (dec_cnt ?c (upd_cid j (\<lambda>d. d\<lparr>ci_cid := x\<rparr>) (cid_set_list cs ! i))))) \<le> active (cid_set_list cs ! i)"
    if "ci_state ?c \<noteq> st" "\<not> st < ci_state ?c" for x
    using that by (intro le_trans [OF _ rename [of x]]) simp
  obtain k where eq: "rqc_cid_switch_to_next_state cs (i, j) st path =
    (let g = upd_cid j (\<lambda>d. d\<lparr>ci_cid := found (ci_cid ?c) (cid_list (cid_set_list cs ! i) ! k)\<rparr>)
     in if ci_state ?c = st then (RQC_OK, upd_set i g cs)
        else if ci_state ?c > st then (- RQC_ECID_STATE, upd_set i g cs)
        else (RQC_OK, upd_set i (inc_cnt st \<circ> (upd_cid j (\<lambda>c. c\<lparr>ci_state := st\<rparr>) \<circ> (dec_cnt ?c \<circ> g))) cs))"
    using switch_eq [OF ok p [unfolded ij]] by blast
  show ?thesis
    using active_le_nth [OF le i] le unfolding ij eq Let_def
    by (auto intro!: active_le_upd_set intro: le_trans [OF rename] le_trans [OF switch])
qed

lemma get_unused_active_le:
  assumes "sets_ok cs" "active_le n cs"
  shows "active_le n (snd (snd (rqc_get_unused_cid cs cid path)))"
proof (cases "rqc_get_path_cid_set cs path")
  case (Some i)
  show ?thesis
    using Some rqc_get_path_cid_set_Some [OF Some] switch_active_le [OF assms(1) _ assms(2)]
    by (auto simp: rqc_get_unused_cid_def Let_def first_idx_Some assms cid_at_def split: option.splits prod.splits)
      (metis snd_conv fst_conv)
qed (simp add: rqc_get_unused_cid_def assms)

lemma others_active_le:
  assumes le: "active_le n cs"
  shows "active_le n (snd (rqc_cid_set_add_path cs path))"
    "active_le n (snd (rqc_cid_set_set_largest_seq_or_rpt cs path val))"
    "active_le n (rqc_cid_set_update_state cs path state)"
    "active_le n (rqc_cid_set_on_cid_acked cs path seq)"
proof -
  show "active_le n (snd (rqc_cid_set_add_path cs path))"
    using le by (auto simp: rqc_cid_set_add_path_def active_le_def active_def rqc_cid_set_inner_init_def split: option.splits)
  show "active_le n (snd (rqc_cid_set_set_largest_seq_or_rpt cs path val))"
    using le active_le_nth [OF le]
    by (auto simp: rqc_cid_set_set_largest_seq_or_rpt_def active_def split: option.splits intro!: active_le_upd_set)
  have "active_le n (upd_set i (\<lambda>s. s\<lparr>set_state := state\<rparr>) (cs\<lparr>set_cnt := x\<rparr>))" for i x
    using le active_le_nth [OF le, of i] by (intro active_le_upd_set) (simp_all add: active_le_def active_def)
  with le show "active_le n (rqc_cid_set_update_state cs path state)"
    by (simp add: rqc_cid_set_update_state_def Let_def split: option.splits)
  have "(\<lambda>c. ci_state c < RQC_CID_RETIRED) \<circ> (\<lambda>c. if cid_seq_num (ci_cid c) = seq then c\<lparr>ci_acked := True\<rparr> else c) =
      (\<lambda>c. ci_state (c :: rqc_cid_inner) < RQC_CID_RETIRED)" by (auto simp: fun_eq_iff)
  then show "active_le n (rqc_cid_set_on_cid_acked cs path seq)"
    using le active_le_nth [OF le]
    by (auto simp: rqc_cid_set_on_cid_acked_def acked_loop_correct active_def filter_map
        split: option.splits intro!: active_le_upd_set)
qed

subsection \<open>Reachable identifier sets\<close>

text \<open>
  Everything the operations can produce from an empty set, when no insertion is given a limit
  above \<open>L\<close>. A state switch is called with a pointer into the set of its path, as the callers
  obtain it from a search.
\<close>

inductive cid_reach :: "u64 \<Rightarrow> rqc_cid_sets \<Rightarrow> bool" for L where
  init: "cid_reach L rqc_init_cid_set"
| add_path: "cid_reach L cs \<Longrightarrow> cid_reach L (snd (rqc_cid_set_add_path cs path))"
| ins: "cid_reach L cs \<Longrightarrow> limit \<le> L \<Longrightarrow> cid_wf cid \<Longrightarrow>
    cid_reach L (snd (snd (rqc_cid_set_insert_cid cs cid state limit path)))"
| del: "cid_reach L cs \<Longrightarrow> cid_reach L (snd (rqc_cid_set_delete_cid cs cid path))"
| switch: "cid_reach L cs \<Longrightarrow> cid_at cs p path \<Longrightarrow>
    cid_reach L (snd (rqc_cid_switch_to_next_state cs p state path))"
| get_unused: "cid_reach L cs \<Longrightarrow> cid_reach L (snd (snd (rqc_get_unused_cid cs cid path)))"
| set_largest: "cid_reach L cs \<Longrightarrow> cid_reach L (snd (rqc_cid_set_set_largest_seq_or_rpt cs path val))"
| update_state: "cid_reach L cs \<Longrightarrow> cid_reach L (rqc_cid_set_update_state cs path sst)"
| on_acked: "cid_reach L cs \<Longrightarrow> cid_reach L (rqc_cid_set_on_cid_acked cs path seq)"

lemma cid_reach_ok: "cid_reach L cs \<Longrightarrow> sets_ok cs"
  by (induction rule: cid_reach.induct)
    (auto intro: init_sets_ok add_path_sets_ok insert_sets_ok delete_sets_ok switch_sets_ok get_unused_sets_ok
      set_largest_sets_ok update_state_sets_ok on_cid_acked_sets_ok)

lemma cid_reach_active:
  assumes "cid_reach L cs" "Suc (unat L) < 2 ^ 64"
  shows "active_le (Suc (unat L)) cs"
  using assms
proof (induction rule: cid_reach.induct)
  case init
  then show ?case by (simp add: active_le_def rqc_init_cid_set_def)
qed (auto intro!: insert_active_le delete_active_le switch_active_le get_unused_active_le others_active_le dest: cid_reach_ok)

definition n_state :: "rqc_cid_state \<Rightarrow> rqc_cid_set_inner \<Rightarrow> nat" where
  "n_state st s = length (filter (\<lambda>c. ci_state c = st) (cid_list s))"

lemma n_state_le: "n_state st s \<le> length (cid_list s)"
  by (simp add: n_state_def)

lemma sint_of_nat_small: "n < 2 ^ 63 \<Longrightarrow> sint (of_nat n :: u64) = int n"
  by (simp add: sint_uint unsigned_of_nat signed_take_bit_int_eq_self take_bit_nat_eq_self)

lemma sint_cnt_state:
  "length (cid_list s) < 2 ^ 63 \<Longrightarrow> sint (cnt (\<lambda>c. ci_state c = st) (cid_list s) :: u64) = int (n_state st s)"
  using sint_of_nat_small [OF le_less_trans [OF n_state_le [of st s]]] by (simp add: cnt_def n_state_def)

lemma active_n_state: "active s = n_state RQC_CID_UNUSED s + n_state RQC_CID_USED s"
proof -
  have "length (filter (\<lambda>c. ci_state c < RQC_CID_RETIRED) xs) =
      length (filter (\<lambda>c. ci_state c = RQC_CID_UNUSED) xs) + length (filter (\<lambda>c. ci_state c = RQC_CID_USED) xs)" for xs
    by (induction xs) (auto simp: state_active_iff)
  then show ?thesis by (simp add: active_def n_state_def)
qed

text \<open>
  C34: In every reachable identifier set, the paths of the per-path lists differ, the counters
  reported for a path are the numbers of its unused, used and retired identifiers, and the
  insertions with limits up to \<open>L\<close> never leave more than \<open>L + 1\<close> active identifiers on a path.
\<close>

theorem cid_sets_invariant:
  assumes "cid_reach L cs" "unat L + 1 < 2 ^ 64" "rqc_get_path_cid_set cs path = Some i"
    "length (cid_list (cid_set_list cs ! i)) < 2 ^ 63"
  shows "distinct (map cs_path_id (cid_set_list cs)) \<and>
    rqc_cid_set_get_unused_cnt cs path = int (n_state RQC_CID_UNUSED (cid_set_list cs ! i)) \<and>
    rqc_cid_set_get_used_cnt cs path = int (n_state RQC_CID_USED (cid_set_list cs ! i)) \<and>
    rqc_cid_set_get_retired_cnt cs path = int (n_state RQC_CID_RETIRED (cid_set_list cs ! i)) \<and>
    n_state RQC_CID_UNUSED (cid_set_list cs ! i) + n_state RQC_CID_USED (cid_set_list cs ! i) \<le> unat L + 1"
proof -
  let ?s = "cid_set_list cs ! i"
  have i: "i < length (cid_set_list cs)" using rqc_get_path_cid_set_Some [OF assms(3)] by simp
  have ok: "inner_ok ?s" using cid_reach_ok [OF assms(1)] i by (rule sets_ok_nth)
  have "active ?s = n_state RQC_CID_UNUSED ?s + n_state RQC_CID_USED ?s" by (rule active_n_state)
  moreover have "active ?s \<le> unat L + 1"
    using active_le_nth [OF cid_reach_active [OF assms(1)] i] assms(2) by simp
  ultimately show ?thesis
    using ok cid_reach_ok [OF assms(1)] assms(3,4)
    by (simp add: rqc_cid_set_get_unused_cnt_def rqc_cid_set_get_used_cnt_def rqc_cid_set_get_retired_cnt_def
        inner_get_def sint_cnt_state inner_ok_def sets_ok_def)
qed

text \<open>
  A concrete run: one path, one unused and one used identifier inserted with limit 1 and a third
  one too, since the comparison is strict; the unused one is then taken into use.
\<close>

definition ex_cid :: "byte \<Rightarrow> rqc_cid" where
  "ex_cid b = \<lparr>cid_len = 1, cid_buf = b # replicate 19 0, cid_seq_num = 0, cid_path_id = 0\<rparr>"

definition ex_sets :: rqc_cid_sets where
  "ex_sets =
     (let cs = snd (rqc_cid_set_add_path rqc_init_cid_set 0);
          cs = snd (snd (rqc_cid_set_insert_cid cs (ex_cid 1) RQC_CID_UNUSED 1 0))
      in snd (snd (rqc_cid_set_insert_cid cs (ex_cid 2) RQC_CID_USED 1 0)))"

lemma ex_sets_reach: "cid_reach 1 ex_sets"
  unfolding ex_sets_def Let_def
  by (intro cid_reach.intros) (simp_all add: cid_wf_def ex_cid_def)

theorem cid_sets_invariant_witness:
  "cid_reach 1 ex_sets \<and> rqc_cid_set_get_unused_cnt ex_sets 0 = 1 \<and> rqc_cid_set_get_used_cnt ex_sets 0 = 1 \<and>
   rqc_cid_set_get_retired_cnt ex_sets 0 = 0 \<and> distinct (map cs_path_id (cid_set_list ex_sets))"
proof -
  have p: "rqc_get_path_cid_set ex_sets 0 = Some 0" by code_simp
  have l: "length (cid_list (cid_set_list ex_sets ! 0)) = 2" by code_simp
  have n: "n_state RQC_CID_UNUSED (cid_set_list ex_sets ! 0) = 1" "n_state RQC_CID_USED (cid_set_list ex_sets ! 0) = 1"
    "n_state RQC_CID_RETIRED (cid_set_list ex_sets ! 0) = 0" by code_simp+
  show ?thesis
    using cid_sets_invariant [OF ex_sets_reach _ p] ex_sets_reach by (simp add: l n)
qed

subsection \<open>Insert, find, delete\<close>

lemma rqc_cid_is_equal_path [simp]:
  "rqc_cid_is_equal (Some (d\<lparr>cid_path_id := p\<rparr>)) s = rqc_cid_is_equal (Some d) s"
  "rqc_cid_is_equal s (Some (d\<lparr>cid_path_id := p\<rparr>)) = rqc_cid_is_equal s (Some d)"
  by (simp_all add: rqc_cid_is_equal_def split: option.splits)

lemma dec_inc_cnt: "\<not> ci_acked c \<Longrightarrow> dec_cnt c (inc_cnt (ci_state c) s) = s"
  by (cases "ci_state c") (simp_all add: dec_cnt_def inc_cnt_def)

text \<open>
  C35: An identifier inserted below the limit on an existing path that does not hold it yet is
  found there afterwards, with its sequence number and that path, by the search of the path, and
  by its sequence number when no other identifier uses it; deleting it gives back the set as it
  was. On a path that does not exist, or above the limit, nothing changes and the
  code says why.
\<close>

theorem cid_insert_find_delete:
  assumes ok: "cid_reach L cs" and wf: "cid_wf cid"
    and new: "rqc_cid_in_cid_set cs cid path = None"
    and ins: "rqc_cid_set_insert_cid cs cid state limit path = (r, cid', cs')"
  shows "case rqc_get_path_cid_set cs path of
      None \<Rightarrow> r = - RQC_ECONN_CID_NOT_FOUND \<and> cs' = cs \<and> cid' = cid
    | Some i \<Rightarrow>
        let s = cid_set_list cs ! i in
        if limit < unused_cnt s + used_cnt s then r = - RQC_EACTIVE_CID_LIMIT \<and> cs' = cs \<and> cid' = cid
        else r = RQC_OK \<and> cid' = cid\<lparr>cid_path_id := path\<rparr> \<and>
          rqc_cid_in_cid_set cs' cid path = Some ((i, length (cid_list s)), cid') \<and>
          (rqc_get_inner_cid_by_seq cs (cid_seq_num cid) path = None \<longrightarrow>
            rqc_get_inner_cid_by_seq cs' (cid_seq_num cid) path = Some (i, length (cid_list s))) \<and>
          rqc_cid_set_delete_cid cs' cid path = (RQC_OK, cs)"
proof (cases "rqc_get_path_cid_set cs path")
  case None
  with ins show ?thesis by (simp add: rqc_cid_set_insert_cid_def)
next
  case (Some i)
  let ?s = "cid_set_list cs ! i"
  let ?c = "\<lparr>ci_cid = rqc_cid_copy zero_cid (cid\<lparr>cid_path_id := path\<rparr>), ci_state = state, retired_ts = - 1, ci_acked = False\<rparr>"
  let ?cs = "upd_set i (\<lambda>s. inc_cnt state (s\<lparr>cid_list := cid_list s @ [?c]\<rparr>)) cs"
  let ?P = "\<lambda>c. rqc_cid_is_equal (Some cid) (Some (ci_cid c)) = RQC_OK"
  have i: "i < length (cid_set_list cs)" "cs_path_id ?s = path"
    using rqc_get_path_cid_set_Some [OF Some] by simp_all
  have "map cs_path_id (cid_set_list ?cs) = map cs_path_id (cid_set_list cs)"
    using i by (intro path_upd_set) simp_all
  then have path: "rqc_get_path_cid_set ?cs path = Some i"
    using cid_reach_ok [OF ok] i by (intro rqc_get_path_cid_set_unique) (simp_all add: sets_ok_def)
  have "cid_wf (cid\<lparr>cid_path_id := path\<rparr>)" using wf by (simp add: cid_wf_def)
  from rqc_cid_copy_equal(2) [OF this] have eq: "?P ?c" by simp
  have none: "first_idx ?P (cid_list ?s) = None"
    using new Some by (auto simp: rqc_cid_in_cid_set_def Let_def split: option.splits)
  with eq have idx: "first_idx ?P (cid_list ?s @ [?c]) = Some (length (cid_list ?s))"
    by (simp add: first_idx_append)
  have del: "rqc_cid_set_delete_cid ?cs cid path = (RQC_OK, cs)"
    using idx path i dec_inc_cnt [of ?c "?s\<lparr>cid_list := cid_list ?s @ [?c]\<rparr>"]
    by (simp add: rqc_cid_set_delete_cid_def Let_def upd_set_def)
  show ?thesis
    using Some ins i idx path del
    by (auto simp: rqc_cid_set_insert_cid_def Let_def rqc_cid_in_cid_set_def found_def
        rqc_get_inner_cid_by_seq_def first_idx_append split: if_splits)
qed

theorem cid_insert_find_delete_witness:
  "rqc_cid_in_cid_set ex_sets (ex_cid 3) 0 = None \<and>
   rqc_cid_set_delete_cid (snd (snd (rqc_cid_set_insert_cid ex_sets (ex_cid 3) RQC_CID_UNUSED 2 0))) (ex_cid 3) 0 = (RQC_OK, ex_sets)"
proof -
  have p: "rqc_get_path_cid_set ex_sets 0 = Some 0" by code_simp
  have n: "rqc_cid_in_cid_set ex_sets (ex_cid 3) 0 = None" by code_simp
  have l: "\<not> 2 < unused_cnt (cid_set_list ex_sets ! 0) + used_cnt (cid_set_list ex_sets ! 0)" by code_simp
  obtain r cid' cs' where e: "rqc_cid_set_insert_cid ex_sets (ex_cid 3) RQC_CID_UNUSED 2 0 = (r, cid', cs')"
    by (rule prod_cases3)
  have "cid_wf (ex_cid 3)" by (simp add: cid_wf_def ex_cid_def)
  from cid_insert_find_delete [OF ex_sets_reach this n e] show ?thesis
    using l n by (simp add: p e Let_def)
qed

subsection \<open>Switching states\<close>

text \<open>The states of the identifiers of all paths, in list order.\<close>

definition states :: "rqc_cid_sets \<Rightarrow> rqc_cid_state list list" where
  "states cs = map (\<lambda>s. map ci_state (cid_list s)) (cid_set_list cs)"

lemma states_upd_set:
  "i < length (cid_set_list cs) \<Longrightarrow> map ci_state (cid_list (f (cid_set_list cs ! i))) = xs \<Longrightarrow>
   states (upd_set i f cs) = (states cs)[i := xs]"
  by (simp add: states_def upd_set_def map_update)

lemma states_nth: "i < length (cid_set_list cs) \<Longrightarrow> states cs ! i = map ci_state (cid_list (cid_set_list cs ! i))"
  by (simp add: states_def)

lemma states_same:
  assumes "i < length (cid_set_list cs)"
  shows "(states cs)[i := (states cs ! i)[j := ci_state (cid_list (cid_set_list cs ! i) ! j)]] = states cs"
proof -
  have "(states cs ! i)[j := ci_state (cid_list (cid_set_list cs ! i) ! j)] = states cs ! i"
    using assms by (cases "j < length (cid_list (cid_set_list cs ! i))")
      (simp_all add: states_nth map_update [symmetric] list_update_beyond)
  then show ?thesis by simp
qed

lemma switch_states:
  assumes ok: "sets_ok cs" and p: "cid_at cs (i, j) path"
    and r: "rqc_cid_switch_to_next_state cs (i, j) st path = (r, cs')"
  defines "c \<equiv> cid_list (cid_set_list cs ! i) ! j"
  shows "states cs' = (states cs)[i := (states cs ! i)[j := max (ci_state c) st]]"
    and "r = (if ci_state c \<le> st then RQC_OK else - RQC_ECID_STATE)"
proof -
  let ?s = "cid_set_list cs ! i"
  have i: "i < length (cid_set_list cs)" and j: "j < length (cid_list ?s)"
    using p by (simp_all add: cid_at_def)
  obtain k where eq: "rqc_cid_switch_to_next_state cs (i, j) st path =
    (let g = upd_cid j (\<lambda>d. d\<lparr>ci_cid := found (ci_cid c) (cid_list ?s ! k)\<rparr>)
     in if ci_state c = st then (RQC_OK, upd_set i g cs)
        else if ci_state c > st then (- RQC_ECID_STATE, upd_set i g cs)
        else (RQC_OK, upd_set i (inc_cnt st \<circ> (upd_cid j (\<lambda>c. c\<lparr>ci_state := st\<rparr>) \<circ> (dec_cnt c \<circ> g))) cs))"
    using switch_eq [OF ok p] unfolding c_def by blast
  have keep: "states (upd_set i (upd_cid j (\<lambda>d. d\<lparr>ci_cid := x\<rparr>)) cs) = states cs" for x
    using states_same [OF i, of j] j
    by (subst states_upd_set [OF i refl]) (simp add: map_update states_nth [OF i])
  have move: "states (upd_set i (inc_cnt st \<circ> (upd_cid j (\<lambda>c. c\<lparr>ci_state := st\<rparr>) \<circ>
      (dec_cnt c \<circ> upd_cid j (\<lambda>d. d\<lparr>ci_cid := x\<rparr>)))) cs) = (states cs)[i := (states cs ! i)[j := st]]" for x
    using i j by (subst states_upd_set [OF i refl]) (simp add: map_update states_def)
  have "ci_state c = st \<or> st < ci_state c \<Longrightarrow> states cs = (states cs)[i := (states cs ! i)[j := max (ci_state c) st]]"
    using states_same [OF i, of j] by (auto simp: c_def max_def)
  then show "states cs' = (states cs)[i := (states cs ! i)[j := max (ci_state c) st]]"
    using r eq keep move by (auto simp: Let_def max_def split: if_splits)
  show "r = (if ci_state c \<le> st then RQC_OK else - RQC_ECID_STATE)"
    using r eq by (auto simp: Let_def split: if_splits)
qed

lemma of_nat_eq_0_small: "n < 2 ^ 63 \<Longrightarrow> (of_nat n :: u64) = 0 \<longleftrightarrow> n = 0"
  by (auto simp: word_of_nat_eq_0_iff dest: dvd_imp_le)

lemma unused_cnt_zero:
  assumes "inner_ok s" "length (cid_list s) < 2 ^ 63"
  shows "unused_cnt s = 0 \<longleftrightarrow> first_idx (\<lambda>c. ci_state c = RQC_CID_UNUSED) (cid_list s) = None"
proof -
  have "n_state RQC_CID_UNUSED s < 2 ^ 63" using n_state_le assms(2) by (rule le_less_trans)
  then have "(of_nat (n_state RQC_CID_UNUSED s) :: u64) = 0 \<longleftrightarrow> n_state RQC_CID_UNUSED s = 0"
    by (rule of_nat_eq_0_small)
  moreover have "unused_cnt s = of_nat (n_state RQC_CID_UNUSED s)"
    using assms(1) by (simp add: inner_ok_def cnt_def n_state_def)
  ultimately show ?thesis by (simp add: first_idx_None n_state_def filter_empty_conv)
qed

text \<open>
  C36: Identifiers only move forward. A switch through a valid pointer succeeds exactly when
  the new state is not an earlier one, leaves the identifier in the later of the two states and
  touches no other state. Asking a path for an unused identifier succeeds exactly when it has one;
  it hands out the first one and marks it used, and otherwise reports that none is available and
  changes nothing.
\<close>

theorem cid_state_machine:
  assumes reach: "cid_reach L cs"
    and p: "cid_at cs (i, j) path" and r: "rqc_cid_switch_to_next_state cs (i, j) st path = (r, cs')"
    and small: "length (cid_list (cid_set_list cs ! i)) < 2 ^ 63"
    and g: "rqc_get_unused_cid cs cid path = (r2, cid2, cs2)"
  shows "(let old = states cs ! i ! j in
      r = (if old \<le> st then RQC_OK else - RQC_ECID_STATE) \<and>
      states cs' = (states cs)[i := (states cs ! i)[j := max old st]]) \<and>
    (case first_idx (\<lambda>s. s = RQC_CID_UNUSED) (states cs ! i) of
       Some k \<Rightarrow> r2 = RQC_OK \<and> cid2 = rqc_cid_copy cid (ci_cid (cid_list (cid_set_list cs ! i) ! k)) \<and>
         states cs2 = (states cs)[i := (states cs ! i)[k := RQC_CID_USED]]
     | None \<Rightarrow> r2 = - RQC_ECONN_NO_AVAIL_CID \<and> cid2 = cid \<and> cs2 = cs)"
proof -
  let ?s = "cid_set_list cs ! i"
  note ok = cid_reach_ok [OF reach]
  have i: "i < length (cid_set_list cs)" and j: "j < length (cid_list ?s)" and pth: "cs_path_id ?s = path"
    using p by (simp_all add: cid_at_def)
  have path: "rqc_get_path_cid_set cs path = Some i"
    using ok i pth by (intro rqc_get_path_cid_set_unique) (simp_all add: sets_ok_def)
  have idx: "first_idx (\<lambda>s. s = RQC_CID_UNUSED) (states cs ! i) = first_idx (\<lambda>c. ci_state c = RQC_CID_UNUSED) (cid_list ?s)"
  proof -
    have "first_idx P (map f xs) = first_idx (\<lambda>x. P (f x)) xs" for P and f :: "'x \<Rightarrow> 'y" and xs
      by (induction xs) auto
    then show ?thesis using i by (simp add: states_def)
  qed
  have zero: "unused_cnt ?s = 0 \<longleftrightarrow> first_idx (\<lambda>c. ci_state c = RQC_CID_UNUSED) (cid_list ?s) = None"
    using sets_ok_nth [OF ok i] small by (rule unused_cnt_zero)
  have old: "states cs ! i ! j = ci_state (cid_list ?s ! j)" using i j by (simp add: states_nth)
  have 1: "let old = states cs ! i ! j in
      r = (if old \<le> st then RQC_OK else - RQC_ECID_STATE) \<and>
      states cs' = (states cs)[i := (states cs ! i)[j := max old st]]"
    unfolding old Let_def using switch_states [OF ok p r] by blast
  show ?thesis
  proof (cases "first_idx (\<lambda>c. ci_state c = RQC_CID_UNUSED) (cid_list ?s)")
    case None
    then have "(r2, cid2, cs2) = (- RQC_ECONN_NO_AVAIL_CID, cid, cs)"
      using g path zero by (simp add: rqc_get_unused_cid_def Let_def)
    with 1 None idx show ?thesis by simp
  next
    case (Some k)
    then have k: "k < length (cid_list ?s)" "ci_state (cid_list ?s ! k) = RQC_CID_UNUSED"
      by (simp_all add: first_idx_Some)
    then have pk: "cid_at cs (i, k) path" using p by (simp add: cid_at_def)
    obtain r3 cs3 where sw: "rqc_cid_switch_to_next_state cs (i, k) RQC_CID_USED path = (r3, cs3)"
      by (rule prod.exhaust)
    have "max RQC_CID_UNUSED RQC_CID_USED = RQC_CID_USED" "RQC_CID_UNUSED \<le> RQC_CID_USED"
      by (simp_all add: max_def less_eq_rqc_cid_state_def)
    then have "r3 = RQC_OK" "states cs3 = (states cs)[i := (states cs ! i)[k := RQC_CID_USED]]"
      using switch_states [OF ok pk sw] k(2) by simp_all
    moreover have "(r2, cid2, cs2) = (r3, rqc_cid_copy cid (ci_cid (cid_list ?s ! k)), cs3)"
      using g path zero Some sw by (simp add: rqc_get_unused_cid_def Let_def)
    ultimately show ?thesis using 1 Some idx by simp
  qed
qed

theorem cid_state_machine_witness:
  "fst (rqc_get_unused_cid ex_sets (ex_cid 0) 0) = RQC_OK \<and>
   states (snd (snd (rqc_get_unused_cid ex_sets (ex_cid 0) 0))) = [[RQC_CID_USED, RQC_CID_USED]] \<and>
   fst (rqc_cid_switch_to_next_state ex_sets (0, 1) RQC_CID_UNUSED 0) = - RQC_ECID_STATE"
proof -
  have at: "cid_at ex_sets (0, 1) 0" by code_simp
  have st: "states ex_sets = [[RQC_CID_UNUSED, RQC_CID_USED]]" by code_simp
  have "length (cid_list (cid_set_list ex_sets ! 0)) = 2" by code_simp
  then have l: "length (cid_list (cid_set_list ex_sets ! 0)) < 2 ^ 63" by simp
  obtain r cs' where r: "rqc_cid_switch_to_next_state ex_sets (0, 1) RQC_CID_UNUSED 0 = (r, cs')" by (rule prod.exhaust)
  obtain r2 cid2 cs2 where g: "rqc_get_unused_cid ex_sets (ex_cid 0) 0 = (r2, cid2, cs2)" by (rule prod_cases3)
  from cid_state_machine [OF ex_sets_reach at r l g] show ?thesis
    by (simp add: st r [unfolded One_nat_def] g Let_def less_eq_rqc_cid_state_def)
qed

end
