(* ===== verification/Rqc_Packet_Header.thy ===== *)
theory Rqc_Packet_Header
  imports Rqc_Cid Rqc_Recv_Record
begin

text \<open>
  Packet headers: \<open>rqc_packet_parser.c\<close>, \<open>rqc_packet.c\<close>, the version tables of \<open>rqc_defs.c\<close>, and
  from \<open>rqc_conn.c\<close> the checks of identifiers and versions that the parsers call and
  the last step of the sender, \<open>rqc_encode_packet_with_pn\<close>.

  \<open>rqc_conn_hdr\<close> is the part of \<open>rqc_connection_t\<close> the headers depend on. A parser returns its
  result together with the connection and the packet, since both change on error paths too.

  The results: a truncated packet number is recovered exactly in the window around the expected
  one; a packet with a short or an Initial header that one endpoint builds is parsed by the other
  to the same identifiers, packet number and payload; parsing arbitrary bytes never leaves
  the datagram.
\<close>

subsection \<open>Constants and the connection\<close>

abbreviation (input) "RQC_PKTVER_BYTES \<equiv> (4 :: nat)"
abbreviation (input) "RQC_PKTLEN_BYTES \<equiv> (2 :: nat)"
abbreviation (input) "RQC_PKTNO_CLASS \<equiv> (3 :: nat)"
abbreviation (input) "RQC_INITIAL_PATH_ID \<equiv> (0 :: u64)"

abbreviation (input) "RQC_IDRAFT_INIT_VER \<equiv> (0 :: nat)"
abbreviation (input) "RQC_VERSION_V1 \<equiv> (1 :: nat)"
abbreviation (input) "RQC_IDRAFT_VER_29 \<equiv> (2 :: nat)"
abbreviation (input) "RQC_IDRAFT_VER_NEGOTIATION \<equiv> (3 :: nat)"

abbreviation (input) "RQC_CONN_FLAG_HANDSHAKE_SENT \<equiv> (0x2 :: u64)"
abbreviation (input) "RQC_CONN_FLAG_HANDSHAKE_DONE \<equiv> (0x8 :: u64)"
abbreviation (input) "RQC_CONN_FLAG_DCID_DONE \<equiv> (0x200 :: u64)"
abbreviation (input) "RQC_CONN_FLAG_VERSION_NEGOTIATION \<equiv> (0x10000 :: u64)"

definition RQC_PACKET_IS_LONG_HEADER :: "byte \<Rightarrow> bool" where
  "RQC_PACKET_IS_LONG_HEADER b \<longleftrightarrow> b AND 0x80 = 0x80"

definition RQC_PACKET_IS_SHORT_HEADER :: "byte \<Rightarrow> bool" where
  "RQC_PACKET_IS_SHORT_HEADER b \<longleftrightarrow> b AND 0xC0 = 0x40"

definition RQC_PACKET_HEADER_PKTNO_BYTES :: "byte \<Rightarrow> nat" where
  "RQC_PACKET_HEADER_PKTNO_BYTES b = unat (b AND 3) + 1"

definition rqc_proto_version_value :: "u32 list" where
  "rqc_proto_version_value = [0xFFFFFFFF, 0x00000001, 0xFF00001D, 0x00000000]"

definition rqc_proto_version_field :: "byte list list" where
  "rqc_proto_version_field =
     [[0xFF, 0xFF, 0xFF, 0xFF], [0x00, 0x00, 0x00, 0x01], [0xFF, 0x00, 0x00, 0x1D], [0x00, 0x00, 0x00, 0x00]]"

definition rqc_check_proto_version_valid :: "nat \<Rightarrow> bool" where
  "rqc_check_proto_version_valid ver \<longleftrightarrow> ver > RQC_IDRAFT_INIT_VER \<and> ver < RQC_IDRAFT_VER_NEGOTIATION"

datatype rqc_conn_type = RQC_CONN_TYPE_CLIENT | RQC_CONN_TYPE_SERVER

datatype rqc_conn_state = RQC_CONN_STATE_SERVER_INIT | RQC_CONN_STATE_SERVER_HANDSHAKE
  | RQC_CONN_STATE_CLIENT_INIT | RQC_CONN_STATE_CLIENT_HANDSHAKE | RQC_CONN_STATE_ESTABED
  | RQC_CONN_STATE_CLOSING | RQC_CONN_STATE_DRAINING | RQC_CONN_STATE_CLOSED

text \<open>\<open>path_recv_record\<close> is the receive record of \<open>the_path\<close>, \<open>None\<close> when there is no path.\<close>

record rqc_conn_hdr =
  conn_type :: rqc_conn_type
  conn_state :: rqc_conn_state
  conn_version :: nat
  hdr_flag :: u64
  discard_vn_flag :: bool
  original_dcid :: rqc_cid
  scid_set :: rqc_cid_sets
  dcid_set :: rqc_cid_sets
  path_recv_record :: "rqc_recv_record option"
  support_version_list :: "u32 list"
  support_version_count :: nat

definition rqc_conn_is_handshake_sent :: "rqc_conn_hdr \<Rightarrow> bool" where
  "rqc_conn_is_handshake_sent c \<longleftrightarrow> hdr_flag c AND RQC_CONN_FLAG_HANDSHAKE_SENT \<noteq> 0"

definition rqc_conn_is_handshake_done :: "rqc_conn_hdr \<Rightarrow> bool" where
  "rqc_conn_is_handshake_done c \<longleftrightarrow> hdr_flag c AND RQC_CONN_FLAG_HANDSHAKE_DONE \<noteq> 0"

definition rqc_conn_is_dcid_done :: "rqc_conn_hdr \<Rightarrow> bool" where
  "rqc_conn_is_dcid_done c \<longleftrightarrow> hdr_flag c AND RQC_CONN_FLAG_DCID_DONE \<noteq> 0"

definition rqc_state_to_pkt_type :: "rqc_conn_hdr \<Rightarrow> rqc_pkt_type" where
  "rqc_state_to_pkt_type c = (if rqc_conn_is_handshake_done c then RQC_PTYPE_SHORT_HEADER else RQC_PTYPE_INIT)"

definition rqc_has_packet_number :: "rqc_packet \<Rightarrow> bool" where
  "rqc_has_packet_number pkt \<longleftrightarrow> pkt_type pkt \<noteq> RQC_PTYPE_VERSION_NEGOTIATION"

definition rqc_uint32_list_find :: "u32 list \<Rightarrow> nat \<Rightarrow> u32 \<Rightarrow> int" where
  "rqc_uint32_list_find list count target =
     (case first_idx (\<lambda>v. v = target) (take count list) of Some i \<Rightarrow> int i | None \<Rightarrow> -1)"

text \<open>The loops over the enumeration of versions between the placeholder and the negotiation entry.\<close>

definition version_of_value :: "u32 \<Rightarrow> nat option" where
  "version_of_value version =
     find (\<lambda>i. rqc_proto_version_value ! i = version) [RQC_IDRAFT_INIT_VER + 1 ..< RQC_IDRAFT_VER_NEGOTIATION]"

definition rqc_conn_version_check :: "rqc_conn_hdr \<Rightarrow> u32 \<Rightarrow> int \<times> rqc_conn_hdr" where
  "rqc_conn_version_check c version =
     (if conn_type c = RQC_CONN_TYPE_SERVER \<and> conn_version c = RQC_IDRAFT_INIT_VER then
        if rqc_uint32_list_find (support_version_list c) (support_version_count c) version = -1
        then (- RQC_EPROTO, c)
        else case version_of_value version of
               Some i \<Rightarrow> (RQC_OK, c\<lparr>conn_version := i\<rparr>)
             | None \<Rightarrow> (- RQC_EPROTO, c)
      else (RQC_OK, c))"

definition rqc_conn_check_dcid :: "rqc_conn_hdr \<Rightarrow> rqc_cid \<Rightarrow> int \<times> rqc_cid \<times> rqc_conn_hdr" where
  "rqc_conn_check_dcid c dcid = (case rqc_cid_set_search_cid (scid_set c) dcid of
     None \<Rightarrow> (- RQC_ECONN_CID_NOT_FOUND, dcid, c)
   | Some (p, dcid) \<Rightarrow>
       let scid = cid_list (cid_set_list (scid_set c) ! fst p) ! snd p
       in if ci_state scid = RQC_CID_UNUSED then
            let (ret, s) = rqc_cid_switch_to_next_state (scid_set c) p RQC_CID_USED (cid_path_id (ci_cid scid));
                c = c\<lparr>scid_set := s\<rparr>
            in if ret < 0 then (ret, dcid, c) else (RQC_OK, dcid, c)
          else (RQC_OK, dcid, c))"

subsection \<open>Sizes and packet numbers\<close>

definition rqc_pktno_class_bytes :: "nat \<Rightarrow> nat" where
  "rqc_pktno_class_bytes c = c + 1"

definition rqc_short_packet_header_size :: "nat \<Rightarrow> nat \<Rightarrow> nat" where
  "rqc_short_packet_header_size dcid_len pktno_class =
     1 + dcid_len + RQC_PKTLEN_BYTES + rqc_pktno_class_bytes pktno_class"

definition rqc_long_packet_header_size :: "nat \<Rightarrow> nat \<Rightarrow> nat \<Rightarrow> rqc_pkt_type \<Rightarrow> nat" where
  "rqc_long_packet_header_size dcid_len scid_len pktno_class type =
     1 + RQC_PKTVER_BYTES + 2 + dcid_len + scid_len + RQC_PKTLEN_BYTES + rqc_pktno_class_bytes pktno_class"

fun parse_pktno_loop :: "u64 \<Rightarrow> byte list \<Rightarrow> u64" where
  "parse_pktno_loop pn [] = pn"
| "parse_pktno_loop pn (b # bs) = parse_pktno_loop (push_bit 8 pn + ucast b) bs"

definition rqc_packet_parse_packet_number :: "byte list \<Rightarrow> u64" where
  "rqc_packet_parse_packet_number bs = parse_pktno_loop 0 bs"

definition rqc_packet_calc_packet_number :: "u64 \<Rightarrow> u64 \<Rightarrow> nat \<Rightarrow> u64" where
  "rqc_packet_calc_packet_number largest_pn truncated_pn pn_nbits =
     (let expected_pn = largest_pn + 1;
          pn_win = push_bit pn_nbits 1;
          pn_hwin = drop_bit 1 pn_win;
          pn_mask = pn_win - 1;
          candidate_pn = (expected_pn AND NOT pn_mask) OR truncated_pn
      in if candidate_pn + pn_hwin \<le> expected_pn \<and> candidate_pn < push_bit 62 1 - pn_win
         then candidate_pn + pn_win
         else if candidate_pn > expected_pn + pn_hwin \<and> candidate_pn \<ge> pn_win
         then candidate_pn - pn_win
         else candidate_pn)"

definition rqc_packet_decode_packet_number :: "rqc_conn_hdr \<Rightarrow> rqc_packet_in \<Rightarrow> rqc_packet_in res" where
  "rqc_packet_decode_packet_number c pi =
     res_bind (rd_u8 pi 0) (\<lambda>(header, _).
       let pktno_bytes = RQC_PACKET_HEADER_PKTNO_BYTES header
       in res_bind (rd_mem pi (pkt_num_offset (pi_pkt pi)) pktno_bytes) (\<lambda>bs.
            let truncated_pn = rqc_packet_parse_packet_number bs;
                largest_pn = (case path_recv_record c of Some rr \<Rightarrow> rqc_recv_record_largest rr | None \<Rightarrow> 0)
            in Inr (pi\<lparr>pi_pkt := (pi_pkt pi)
                 \<lparr>pkt_num := rqc_packet_calc_packet_number largest_pn truncated_pn (pktno_bytes * 8)\<rparr>\<rparr>)))"

text \<open>The bytes \<open>rqc_write_packet_number\<close> stores, and the store through a cursor.\<close>

definition pktno_enc :: "u64 \<Rightarrow> nat \<Rightarrow> byte list" where
  "pktno_enc packet_number pktno_class =
     (let n = rqc_pktno_class_bytes pktno_class
      in (if n = 4 then [ucast (drop_bit 24 packet_number)] else []) @
         (if n \<ge> 3 then [ucast (drop_bit 16 packet_number)] else []) @
         (if n \<ge> 2 then [ucast (drop_bit 8 packet_number)] else []) @ [ucast packet_number])"

definition rqc_write_packet_number :: "u64 \<Rightarrow> nat \<Rightarrow> wcur \<Rightarrow> wcur option" where
  "rqc_write_packet_number packet_number pktno_class = wr_mem (pktno_enc packet_number pktno_class)"

subsection \<open>Building headers\<close>

definition rqc_update_packet_length :: "rqc_packet_out \<Rightarrow> rqc_packet_out res" where
  "rqc_update_packet_length po = (case po_ppktno po of
     None \<Rightarrow> Inl Fault
   | Some p \<Rightarrow>
       (case rqc_vint_write (po_buf po) (p - RQC_PKTLEN_BYTES) (ucast (of_nat (po_used_size po - p) :: u32)) 1 2 of
          None \<Rightarrow> Inl Fault
        | Some buf \<Rightarrow> Inr (po\<lparr>po_buf := buf\<rparr>)))"

definition rqc_short_packet_update_dcid :: "rqc_packet_out \<Rightarrow> rqc_cid \<Rightarrow> rqc_packet_out res" where
  "rqc_short_packet_update_dcid po dcid =
     (if pkt_type (po_pkt po) = RQC_PTYPE_SHORT_HEADER then
        (case wr_mem (take (cid_len dcid) (cid_buf dcid)) (po_buf po, 1) of
           None \<Rightarrow> Inl Fault
         | Some (buf, _) \<Rightarrow> Inr (po\<lparr>po_buf := buf\<rparr>))
      else Inr po)"

definition rqc_gen_short_packet_header :: "rqc_packet_out \<Rightarrow> byte list \<Rightarrow> nat \<Rightarrow> nat \<Rightarrow> u64 \<Rightarrow> nat gen" where
  "rqc_gen_short_packet_header po dcid dcid_len pktno_class packet_number =
     (let need = rqc_short_packet_header_size dcid_len pktno_class;
          dst_buf_size = rqc_get_po_remained_size po;
          po = po\<lparr>po_pkt := (po_pkt po)\<lparr>pkt_type := RQC_PTYPE_SHORT_HEADER\<rparr>\<rparr>
      in if need > dst_buf_size then (Err (- RQC_ENOBUF), po)
         else
           case Option.bind (wr_mem [0x40 OR push_bit 5 1 OR push_bit 3 0 OR of_nat pktno_class] (po_buf po, 0))
                  (wr_mem (take dcid_len dcid)) of
             None \<Rightarrow> (Inl Fault, po)
           | Some (buf, p) \<Rightarrow>
               let p = p + RQC_PKTLEN_BYTES
               in case rqc_write_packet_number packet_number pktno_class (buf, p) of
                    None \<Rightarrow> (Inl Fault, po)
                  | Some (buf, q) \<Rightarrow> (Inr need, po\<lparr>po_buf := buf, po_ppktno := Some p, po_payload := Some q\<rparr>))"

primrec pkt_type_num :: "rqc_pkt_type \<Rightarrow> nat" where
  "pkt_type_num RQC_PTYPE_INIT = 0"
| "pkt_type_num RQC_PTYPE_RSV1 = 1"
| "pkt_type_num RQC_PTYPE_RSV2 = 2"
| "pkt_type_num RQC_PTYPE_RSV3 = 3"
| "pkt_type_num RQC_PTYPE_SHORT_HEADER = 4"
| "pkt_type_num RQC_PTYPE_VERSION_NEGOTIATION = 5"

definition long_first_byte :: "rqc_pkt_type \<Rightarrow> nat \<Rightarrow> byte" where
  "long_first_byte type pktno_class = (0xC0 OR push_bit 4 (of_nat (pkt_type_num type))) OR of_nat pktno_class"

definition rqc_gen_long_packet_header ::
  "rqc_packet_out \<Rightarrow> byte list \<Rightarrow> nat \<Rightarrow> byte list \<Rightarrow> nat \<Rightarrow> nat \<Rightarrow> nat \<Rightarrow> nat gen" where
  "rqc_gen_long_packet_header po dcid dcid_len scid scid_len ver pktno_class =
     (let type = pkt_type (po_pkt po);
          need = rqc_long_packet_header_size dcid_len scid_len pktno_class type
      in if \<not> rqc_check_proto_version_valid ver then (Err (- RQC_EPROTO), po)
         else if need > rqc_get_po_remained_size po then (Err (- RQC_ENOBUF), po)
         else if scid_len < 3 then (Err (- RQC_EILLPKT), po)
         else
           case wr_mem (long_first_byte type pktno_class # rqc_proto_version_field ! ver @
                  of_nat dcid_len # take dcid_len dcid @ of_nat scid_len # take scid_len scid) (po_buf po, 0) of
             None \<Rightarrow> (Inl Fault, po)
           | Some (buf, p) \<Rightarrow>
               let p = p + RQC_PKTLEN_BYTES
               in case rqc_write_packet_number (pkt_num (po_pkt po)) pktno_class (buf, p) of
                    None \<Rightarrow> (Inl Fault, po)
                  | Some (buf, q) \<Rightarrow> (Inr need, po\<lparr>po_buf := buf, po_ppktno := Some p, po_payload := Some q\<rparr>))"

text \<open>
  \<open>rqc_write_packet_header\<close>: the identifiers come from the connection. The last step before a packet is
  sent gives it the next packet number; \<open>ctl_packet_number\<close> is the counter of the number space.
\<close>

definition rqc_write_packet_header :: "rqc_conn_hdr \<Rightarrow> rqc_packet_out \<Rightarrow> unit res \<times> rqc_packet_out" where
  "rqc_write_packet_header conn po =
     (if po_used_size po > 0 then (Inr (), po)
      else
        let dcid = user_scid (dcid_set conn); scid = user_scid (scid_set conn);
            (ret, po) = (if pkt_type (po_pkt po) = RQC_PTYPE_SHORT_HEADER
              then rqc_gen_short_packet_header po (cid_buf dcid) (cid_len dcid) RQC_PKTNO_CLASS (pkt_num (po_pkt po))
              else rqc_gen_long_packet_header po (cid_buf dcid) (cid_len dcid) (cid_buf scid) (cid_len scid)
                     (conn_version conn) RQC_PKTNO_CLASS)
        in case ret of
             Inl e \<Rightarrow> (Inl e, po)
           | Inr n \<Rightarrow> (Inr (), po\<lparr>po_used_size := po_used_size po + n\<rparr>))"

definition rqc_send_ctl_set_next_pn_for_packet :: "u64 \<Rightarrow> rqc_packet_out \<Rightarrow> u64 \<times> rqc_packet_out" where
  "rqc_send_ctl_set_next_pn_for_packet ctl_packet_number po =
     (ctl_packet_number + 1, po\<lparr>po_pkt := (po_pkt po)\<lparr>pkt_num := ctl_packet_number\<rparr>\<rparr>)"

definition rqc_encode_packet_with_pn :: "u64 \<Rightarrow> rqc_cid \<Rightarrow> rqc_packet_out \<Rightarrow> (u64 \<times> rqc_packet_out) res" where
  "rqc_encode_packet_with_pn ctl_packet_number path_dcid po =
     res_bind (rqc_short_packet_update_dcid po path_dcid) (\<lambda>po.
       let (ctl_packet_number, po) = rqc_send_ctl_set_next_pn_for_packet ctl_packet_number po
       in case po_ppktno po of
            None \<Rightarrow> Inl Fault
          | Some p \<Rightarrow>
              (case rqc_write_packet_number (pkt_num (po_pkt po)) RQC_PKTNO_CLASS (po_buf po, p) of
                 None \<Rightarrow> Inl Fault
               | Some (buf, _) \<Rightarrow>
                   res_bind (rqc_update_packet_length (po\<lparr>po_buf := buf\<rparr>)) (\<lambda>po. Inr (ctl_packet_number, po))))"

subsection \<open>Parsing headers\<close>

text \<open>
  \<open>rqc_packet_parse_cid\<close> is what the engine uses to find the connection of a datagram. Its callers
  drop the identifiers when it reports an error.
\<close>

definition rd_at :: "byte list \<Rightarrow> nat \<Rightarrow> byte res" where
  "rd_at buf p = (if p < length buf then Inr (buf ! p) else Inl Fault)"

definition rd_bytes :: "byte list \<Rightarrow> nat \<Rightarrow> nat \<Rightarrow> byte list res" where
  "rd_bytes buf p n = (if p + n \<le> length buf then Inr (take n (drop p buf)) else Inl Fault)"

definition rqc_packet_parse_cid :: "rqc_cid \<Rightarrow> rqc_cid \<Rightarrow> nat \<Rightarrow> byte list \<Rightarrow> (rqc_cid \<times> rqc_cid) res" where
  "rqc_packet_parse_cid dcid scid clen buf =
     (let sz = length buf
      in if sz \<le> 0 then Err (- RQC_EPARAM)
         else res_bind (rd_at buf 0) (\<lambda>b0.
           if b0 AND 0x40 = 0 \<and> b0 AND 0x80 = 0 then Err (- RQC_EILLPKT)
           else if RQC_PACKET_IS_SHORT_HEADER b0 then
             if sz < 1 + clen then Err (- RQC_EILLPKT)
             else res_bind (rd_bytes buf 1 clen) (\<lambda>d. Inr (rqc_cid_set dcid d clen, scid))
           else if sz < 1 + RQC_PKTVER_BYTES + 2 then Err (- RQC_EILLPKT)
           else res_bind (rd_at buf (1 + RQC_PKTVER_BYTES)) (\<lambda>dlen.
             let dcid = dcid\<lparr>cid_len := unat dlen\<rparr>; pos = 1 + RQC_PKTVER_BYTES + 1
             in if cid_len dcid > RQC_MAX_CID_LEN then Err (- RQC_EILLPKT)
                else if RQC_BUFF_LEFT_SIZE pos sz < cid_len dcid + 1 then Err (- RQC_EILLPKT)
                else res_bind (rd_bytes buf pos (cid_len dcid)) (\<lambda>d.
                  let dcid = dcid\<lparr>cid_buf := overwrite (cid_buf dcid) 0 d\<rparr>; pos = pos + cid_len dcid
                  in res_bind (rd_at buf pos) (\<lambda>slen.
                    let scid = scid\<lparr>cid_len := unat slen\<rparr>; pos = pos + 1
                    in if cid_len scid > RQC_MAX_CID_LEN then Err (- RQC_EILLPKT)
                       else if RQC_BUFF_LEFT_SIZE pos sz < cid_len scid then Err (- RQC_EILLPKT)
                       else res_bind (rd_bytes buf pos (cid_len scid)) (\<lambda>d.
                         Inr (dcid, scid\<lparr>cid_buf := overwrite (cid_buf scid) 0 d\<rparr>)))))))"

text \<open>
  The end of both packet types: the length, the packet number, the new window of the packet. The
  same statements stand in \<open>rqc_packet_parse_short_header\<close> and in \<open>rqc_packet_parse_initial\<close>.
\<close>

definition parse_length_pktno ::
  "rqc_conn_hdr \<Rightarrow> rqc_packet_in \<Rightarrow> nat \<Rightarrow> nat \<Rightarrow> nat \<Rightarrow> unit res \<times> rqc_packet_in" where
  "parse_length_pktno c pi pos end pktno_bytes =
     (case rqc_vint_read (pi_buf pi) pos end of
        None \<Rightarrow> (Err (- RQC_EILLPKT), pi)
      | Some (len, sz) \<Rightarrow>
          if RQC_BUFF_LEFT_SIZE pos end < sz + unat len then (Err (- RQC_EILLPKT), pi)
          else
            let pos = pos + sz;
                pi = pi\<lparr>pi_last := pos + unat len, pi_pkt := (pi_pkt pi)\<lparr>pkt_length := len\<rparr>\<rparr>
            in if pi_last pi > end then (Err (- RQC_EILLPKT), pi)
               else
                 let pi = pi\<lparr>pi_pkt := (pi_pkt pi)\<lparr>pkt_num_offset := pos\<rparr>\<rparr>
                 in if unat len < pktno_bytes then (Err (- RQC_EILLPKT), pi)
                    else case rqc_packet_decode_packet_number c pi of
                           Inl e \<Rightarrow> (Inl e, pi)
                         | Inr pi \<Rightarrow> (Inr (), pi\<lparr>pi_pos := pos + pktno_bytes\<rparr>))"

definition set_dcid :: "rqc_packet_in \<Rightarrow> rqc_cid \<Rightarrow> rqc_packet_in" where
  "set_dcid pi d = pi\<lparr>pi_pkt := (pi_pkt pi)\<lparr>pkt_dcid := d\<rparr>\<rparr>"

definition set_scid :: "rqc_packet_in \<Rightarrow> rqc_cid \<Rightarrow> rqc_packet_in" where
  "set_scid pi s = pi\<lparr>pi_pkt := (pi_pkt pi)\<lparr>pkt_scid := s\<rparr>\<rparr>"

definition set_type :: "rqc_packet_in \<Rightarrow> rqc_pkt_type \<Rightarrow> rqc_packet_in" where
  "set_type pi t = pi\<lparr>pi_pkt := (pi_pkt pi)\<lparr>pkt_type := t\<rparr>\<rparr>"

type_synonym parse_res = "unit res \<times> rqc_conn_hdr \<times> rqc_packet_in"

definition discard_vn :: "rqc_conn_hdr \<Rightarrow> rqc_conn_hdr" where
  "discard_vn c = (if conn_type c = RQC_CONN_TYPE_CLIENT then c\<lparr>discard_vn_flag := True\<rparr> else c)"

definition rqc_packet_parse_short_header :: "rqc_conn_hdr \<Rightarrow> rqc_packet_in \<Rightarrow> parse_res" where
  "rqc_packet_parse_short_header c pi =
     (let pos = pi_pos pi; end = pi_last pi;
          clen = cid_len (user_scid (scid_set c));
          pi = set_type pi RQC_PTYPE_SHORT_HEADER
      in if RQC_BUFF_LEFT_SIZE pos end < 1 + clen then (Err (- RQC_EILLPKT), c, pi)
         else case rd_u8 pi pos of
           Inl e \<Rightarrow> (Inl e, c, pi)
         | Inr (b0, pos) \<Rightarrow>
             if b0 AND 0x40 = 0 then (Err (- RQC_EILLPKT), c, pi)
             else case rd_mem pi pos clen of
               Inl e \<Rightarrow> (Inl e, c, pi)
             | Inr d \<Rightarrow>
                 let (ret, dcid, c) = rqc_conn_check_dcid c (rqc_cid_set (pkt_dcid (pi_pkt pi)) d clen);
                     pi = set_dcid pi dcid
                 in if ret \<noteq> RQC_OK then (Err (- RQC_EILLPKT), c, pi)
                    else case parse_length_pktno c pi (pos + clen) end (RQC_PACKET_HEADER_PKTNO_BYTES b0) of
                      (Inl e, pi) \<Rightarrow> (Inl e, c, pi)
                    | (Inr u, pi) \<Rightarrow> (Inr u, discard_vn c, pi))"

definition rqc_packet_parse_initial :: "rqc_conn_hdr \<Rightarrow> rqc_packet_in \<Rightarrow> parse_res" where
  "rqc_packet_parse_initial c pi =
     (let pos = pi_pos pi; end = pi_last pi
      in case rd_u8 pi 0 of
           Inl e \<Rightarrow> (Inl e, c, pi)
         | Inr (b0, _) \<Rightarrow>
             (case parse_length_pktno c (set_type pi RQC_PTYPE_INIT) pos end (RQC_PACKET_HEADER_PKTNO_BYTES b0) of
                (r, pi) \<Rightarrow> (r, c, pi)))"

text \<open>
  Version negotiation: the versions of the packet, without zeros and duplicates, at most 256 of
  them; then the first one the configuration also has.
\<close>

definition vn_add :: "u32 list \<Rightarrow> u32 \<Rightarrow> u32 list" where
  "vn_add vs version =
     (if version \<noteq> 0 \<and> rqc_uint32_list_find vs (length vs) version = -1 \<and> length vs < 256 then vs @ [version] else vs)"

function vn_collect :: "rqc_packet_in \<Rightarrow> nat \<Rightarrow> nat \<Rightarrow> u32 list \<Rightarrow> u32 list res" where
  "vn_collect pi pos end vs =
     (if RQC_BUFF_LEFT_SIZE pos end \<ge> RQC_PKTVER_BYTES then
        (case rd_mem pi pos RQC_PKTVER_BYTES of
           Inl e \<Rightarrow> Inl e
         | Inr bs \<Rightarrow> vn_collect pi (pos + RQC_PKTVER_BYTES) end (vn_add vs (ucast (be_value bs))))
      else Inr vs)"
  by pat_completeness auto
termination
  by (relation "measure (\<lambda>(pi, pos, end, vs). end - pos)") (auto simp: RQC_BUFF_LEFT_SIZE_def split: if_splits)

declare vn_collect.simps [simp del]

definition rqc_packet_parse_version_negotiation :: "rqc_conn_hdr \<Rightarrow> rqc_packet_in \<Rightarrow> parse_res" where
  "rqc_packet_parse_version_negotiation c pi =
     (if rqc_cid_is_equal (Some (original_dcid c)) (Some (pkt_scid (pi_pkt pi))) \<noteq> RQC_OK
      then (Err (- RQC_EILLPKT), c, pi)
      else
        let pi = set_type pi RQC_PTYPE_VERSION_NEGOTIATION
        in if RQC_BUFF_LEFT_SIZE (pi_pos pi) (pi_last pi) < RQC_PKTVER_BYTES then (Err (- RQC_EILLPKT), c, pi)
           else if conn_state c \<noteq> RQC_CONN_STATE_CLIENT_HANDSHAKE then (Err (- RQC_ESTATE), c, pi)
           else if conn_type c \<noteq> RQC_CONN_TYPE_CLIENT then (Err (- RQC_EPROTO), c, pi)
           else if discard_vn_flag c then (Inr (), c, pi\<lparr>pi_pos := pi_last pi\<rparr>)
           else case vn_collect pi (pi_pos pi) (pi_last pi) [] of
             Inl e \<Rightarrow> (Inl e, c, pi)
           | Inr vs \<Rightarrow>
               let pi = pi\<lparr>pi_pos := pi_last pi\<rparr>
               in if rqc_uint32_list_find vs (length vs) (of_nat (conn_version c)) \<noteq> -1 then (Inr (), c, pi)
                  else case find (\<lambda>v. rqc_uint32_list_find (support_version_list c) (support_version_count c) v \<noteq> -1) vs of
                    None \<Rightarrow> (Err (- RQC_ESYS), c, pi)
                  | Some version_chosen \<Rightarrow>
                      let c = (case version_of_value version_chosen of Some i \<Rightarrow> c\<lparr>conn_version := i\<rparr> | None \<Rightarrow> c)
                      in (Inr (), c\<lparr>discard_vn_flag := True\<rparr>, pi))"

text \<open>The two identifiers of a long header, from offset \<open>pos\<close> on; the result is the offset after them.\<close>

definition parse_long_cids :: "rqc_packet_in \<Rightarrow> nat \<Rightarrow> nat \<Rightarrow> nat res \<times> rqc_packet_in" where
  "parse_long_cids pi pos end = (case rd_u8 pi pos of
     Inl e \<Rightarrow> (Inl e, pi)
   | Inr (dlen, pos) \<Rightarrow>
       let dcid = (pkt_dcid (pi_pkt pi))\<lparr>cid_len := unat dlen\<rparr>; pi = set_dcid pi dcid
       in if RQC_BUFF_LEFT_SIZE pos end < unat dlen + 1 \<or> unat dlen > RQC_MAX_CID_LEN then (Err (- RQC_EILLPKT), pi)
          else case rd_mem pi pos (unat dlen) of
            Inl e \<Rightarrow> (Inl e, pi)
          | Inr d \<Rightarrow>
              let pi = set_dcid pi (dcid\<lparr>cid_path_id := RQC_INITIAL_PATH_ID, cid_buf := overwrite (cid_buf dcid) 0 d\<rparr>)
              in case rd_u8 pi (pos + unat dlen) of
                Inl e \<Rightarrow> (Inl e, pi)
              | Inr (slen, pos) \<Rightarrow>
                  let scid = (pkt_scid (pi_pkt pi))\<lparr>cid_len := unat slen\<rparr>; pi = set_scid pi scid
                  in if RQC_BUFF_LEFT_SIZE pos end < unat slen \<or> unat slen > RQC_MAX_CID_LEN then (Err (- RQC_EILLPKT), pi)
                     else case rd_mem pi pos (unat slen) of
                       Inl e \<Rightarrow> (Inl e, pi)
                     | Inr d \<Rightarrow>
                         (Inr (pos + unat slen), set_scid pi
                            (scid\<lparr>cid_path_id := RQC_INITIAL_PATH_ID, cid_buf := overwrite (cid_buf scid) 0 d\<rparr>)))"

text \<open>The check of the identifiers; a search that succeeds fills in the identifier of the packet.\<close>

definition check_cids :: "rqc_conn_hdr \<Rightarrow> rqc_packet_in \<Rightarrow> bool \<times> rqc_packet_in" where
  "check_cids c pi =
     (let (dcid_ok, pi) =
            (if rqc_cid_is_equal (Some (original_dcid c)) (Some (pkt_dcid (pi_pkt pi))) \<noteq> RQC_OK then
               case rqc_cid_set_search_cid (scid_set c) (pkt_dcid (pi_pkt pi)) of
                 None \<Rightarrow> (False, pi) | Some (_, d) \<Rightarrow> (True, set_dcid pi d)
             else (True, pi))
      in if dcid_ok then
           case rqc_cid_set_search_cid (dcid_set c) (pkt_scid (pi_pkt pi)) of
             None \<Rightarrow> (False, pi) | Some (_, s) \<Rightarrow> (True, set_scid pi s)
         else (False, pi))"

text \<open>What follows the identifiers: the checks, and the body of the packet type.\<close>

definition parse_long_body :: "rqc_conn_hdr \<Rightarrow> rqc_packet_in \<Rightarrow> u32 \<Rightarrow> nat \<Rightarrow> parse_res" where
  "parse_long_body c pi version type =
     (let (valid, pi) = (if rqc_conn_is_dcid_done c then check_cids c pi else (True, pi))
      in if \<not> valid then (Err (- RQC_EILLPKT), c, pi)
         else
           let (ret, c) = rqc_conn_version_check c version
           in if ret \<noteq> RQC_OK then
                (Err (- RQC_EVERSION),
                 if conn_type c = RQC_CONN_TYPE_SERVER then c\<lparr>hdr_flag := hdr_flag c OR RQC_CONN_FLAG_VERSION_NEGOTIATION\<rparr>
                 else c, pi)
              else
                case (if type = pkt_type_num RQC_PTYPE_INIT then rqc_packet_parse_initial c pi
                      else if type = pkt_type_num RQC_PTYPE_VERSION_NEGOTIATION then rqc_packet_parse_version_negotiation c pi
                      else (Err (- RQC_EILLPKT), c, pi)) of
                  (Inr u, c, pi) \<Rightarrow> (Inr u, discard_vn c, pi)
                | (Inl e, c, pi) \<Rightarrow> (Inl e, c, pi))"

definition rqc_packet_parse_long_header :: "rqc_conn_hdr \<Rightarrow> rqc_packet_in \<Rightarrow> parse_res" where
  "rqc_packet_parse_long_header c pi =
     (let pos = pi_pos pi; end = pi_last pi
      in if RQC_BUFF_LEFT_SIZE pos end < 1 + RQC_PKTVER_BYTES + 2 then (Err (- RQC_EILLPKT), c, pi)
         else case rd_u8 pi pos of
           Inl e \<Rightarrow> (Inl e, c, pi)
         | Inr (b0, pos) \<Rightarrow>
             (case rd_mem pi pos RQC_PKTVER_BYTES of
                Inl e \<Rightarrow> (Inl e, c, pi)
              | Inr ver \<Rightarrow>
                  let version = ucast (be_value ver) :: u32
                  in if version = 0 \<and> conn_type c = RQC_CONN_TYPE_SERVER then (Err (- RQC_EILLPKT), c, pi)
                     else
                       let type = (if version = 0 then pkt_type_num RQC_PTYPE_VERSION_NEGOTIATION
                                   else unat (drop_bit 4 (b0 AND 0x30)))
                       in if type \<noteq> pkt_type_num RQC_PTYPE_VERSION_NEGOTIATION \<and> b0 AND 0x40 = 0
                          then (Err (- RQC_EILLPKT), c, pi)
                          else case parse_long_cids pi (pos + RQC_PKTVER_BYTES) end of
                            (Inl e, pi) \<Rightarrow> (Inl e, c, pi)
                          | (Inr pos, pi) \<Rightarrow> parse_long_body c (pi\<lparr>pi_pos := pos\<rparr>) version type))"

definition rqc_packet_parse_single :: "rqc_conn_hdr \<Rightarrow> rqc_packet_in \<Rightarrow> parse_res" where
  "rqc_packet_parse_single c pi =
     (if RQC_BUFF_LEFT_SIZE (pi_pos pi) (pi_last pi) = 0 then (Err (- RQC_EILLPKT), c, pi)
      else case rd_u8 pi (pi_pos pi) of
        Inl e \<Rightarrow> (Inl e, c, pi)
      | Inr (b0, _) \<Rightarrow>
          if RQC_PACKET_IS_SHORT_HEADER b0 then
            if conn_type c = RQC_CONN_TYPE_CLIENT \<and> \<not> rqc_conn_is_handshake_done c \<or>
               conn_type c = RQC_CONN_TYPE_SERVER \<and> \<not> rqc_conn_is_handshake_sent c
            then (Err (- RQC_EIGNORE_PKT), c, pi)
            else rqc_packet_parse_short_header c pi
          else if RQC_PACKET_IS_LONG_HEADER b0 then rqc_packet_parse_long_header c pi
          else (Err (- RQC_EIGNORE_PKT), c, pi))"

subsection \<open>Recovering packet numbers\<close>

text \<open>The arithmetic of the decoder over the natural numbers.\<close>

lemma window_nat:
  fixes p E H :: nat
  assumes W: "W = 2 * H" and H: "0 < H" and lo: "E < p + H" and hi: "p \<le> E + H"
  defines "c \<equiv> E div W * W + p mod W"
  shows "(if c + H \<le> E then c + W else if c > E + H then c - W else c) = p"
    and "c + H \<le> E \<Longrightarrow> c + W = p" and "c > E + H \<Longrightarrow> W \<le> c"
proof -
  define q e r where "q = p div W" and "e = E div W" and "r = p mod W"
  have p: "p = q * W + r" by (simp add: q_def r_def)
  have r: "r < W" and m: "E mod W < W" using W H by (simp_all add: r_def)
  have E: "E = e * W + E mod W" by (simp add: e_def)
  have c: "c = e * W + r" by (simp add: c_def e_def r_def)
  have W': "W > 0" using W H by simp
  have d: "(e + 2) * W = e * W + 2 * W" "(q + 2) * W = q * W + 2 * W" by (simp_all add: add_mult_distrib)
  have "q * W < (e + 2) * W" "e * W < (q + 2) * W"
    unfolding d using p E r m lo hi W by linarith+
  then have "q < e + 2" "e < q + 2" by (meson mult_less_cancel2)+
  then consider "q = e" | "q = e + 1" | "e = q + 1" by linarith
  then have "(c + H \<le> E \<longrightarrow> c + W = p) \<and> (c > E + H \<longrightarrow> c = p + W) \<and> (c \<noteq> p \<longrightarrow> c + H \<le> E \<or> c > E + H)"
  proof cases
    case 1
    then show ?thesis using p c lo hi by auto
  next
    case 2
    then have "p = c + W" using p c by simp
    then show ?thesis using lo hi W by auto
  next
    case 3
    then have "c = p + W" using p c by simp
    then show ?thesis using lo hi W by auto
  qed
  then show "(if c + H \<le> E then c + W else if c > E + H then c - W else c) = p"
    "c + H \<le> E \<Longrightarrow> c + W = p" "c > E + H \<Longrightarrow> W \<le> c" by auto
qed

lemma candidate_unat:
  fixes e p :: u64
  assumes "n < 64" and e: "unat e < 2 ^ 63" and n: "n \<le> 32"
  shows "unat ((e AND NOT (push_bit n 1 - 1)) OR take_bit n p) = unat e div 2 ^ n * 2 ^ n + unat p mod 2 ^ n"
proof -
  have mask: "push_bit n 1 - 1 = (mask n :: u64)" by (simp add: mask_eq_exp_minus_1 push_bit_eq_mult)
  have "(e AND NOT (mask n)) OR take_bit n p = (e AND NOT (mask n)) + take_bit n p"
    by (rule disjunctive_add [symmetric]) (auto simp: bit_simps)
  moreover have "unat (e AND NOT (mask n)) = unat e div 2 ^ n * 2 ^ n"
  proof -
    have "e AND NOT (mask n) = push_bit n (drop_bit n e)"
      by (rule bit_word_eqI) (auto simp: bit_simps)
    moreover have d: "unat (drop_bit n e) = unat e div 2 ^ n"
      by (simp only: unat_drop_bit_eq drop_bit_eq_div [where 'a = nat])
    moreover have "unat e div 2 ^ n * 2 ^ n < 2 ^ 64"
      by (rule le_less_trans [OF div_times_less_eq_dividend]) (use e in simp)
    moreover have "unat (2 ^ n :: u64) = 2 ^ n"
    proof -
      have "(2 ^ n :: nat) < 2 ^ 64" using n by (intro power_strict_increasing) auto
      then have "unat (of_nat (2 ^ n) :: u64) = 2 ^ n" by (rule unat_of_nat_small)
      then show ?thesis by simp
    qed
    ultimately show ?thesis
      by (simp only: push_bit_eq_mult unat_word_ariths) simp
  qed
  moreover have "unat (take_bit n p) = unat p mod 2 ^ n"
    by (simp only: unsigned_take_bit_eq take_bit_eq_mod [where 'a = nat])
  moreover have "unat e div 2 ^ n * 2 ^ n + unat p mod 2 ^ n < 2 ^ 64"
  proof -
    have "unat p mod 2 ^ n < 2 ^ 32"
      by (rule less_le_trans [OF mod_less_divisor power_increasing]) (use n in auto)
    moreover have "unat e div 2 ^ n * 2 ^ n < 2 ^ 63"
      using div_times_less_eq_dividend e by (rule le_less_trans)
    ultimately have "unat e div 2 ^ n * 2 ^ n + unat p mod 2 ^ n < 2 ^ 63 + 2 ^ 32"
      by (intro add_strict_mono)
    also have "\<dots> \<le> (2 ^ 64 :: nat)" by simp
    finally show ?thesis .
  qed
  ultimately show ?thesis unfolding mask by (simp add: unat_word_ariths)
qed

lemma calc_packet_number_recovers:
  fixes largest_pn pn :: u64
  assumes n: "n \<in> {8, 16, 24, 32}"
    and bound: "unat largest_pn < 2 ^ 62" "unat pn < 2 ^ 62"
    and lo: "unat largest_pn + 1 < unat pn + 2 ^ (n - 1)"
    and hi: "unat pn \<le> unat largest_pn + 1 + 2 ^ (n - 1)"
  shows "rqc_packet_calc_packet_number largest_pn (take_bit n pn) n = pn"
proof -
  define e where "e = largest_pn + 1"
  define c where "c = (e AND NOT (push_bit n 1 - 1)) OR take_bit n pn"
  define H W :: nat where "H = 2 ^ (n - 1)" and "W = 2 ^ n"
  have WH: "W = 2 * H" "0 < H" "W \<le> 2 ^ 32" using n by (auto simp: H_def W_def)
  have ue: "unat e = unat largest_pn + 1"
    using bound(1) by (simp add: e_def unat_word_ariths)
  have uw: "unat (push_bit n 1 :: u64) = W"
    using n by (auto simp: W_def)
  have uh: "unat (drop_bit 1 (push_bit n 1) :: u64) = H"
    using n by (auto simp: H_def)
  have uc: "unat c = unat e div W * W + unat pn mod W"
    unfolding c_def W_def using n ue bound(1) by (intro candidate_unat) auto
  note win = window_nat [where p = "unat pn" and E = "unat e" and H = H and W = W, folded uc]
  have lim: "unat c < 2 ^ 63"
  proof -
    have "unat e div W * W \<le> unat e" "unat pn mod W \<le> W" using WH by (simp_all add: less_imp_le)
    then have "unat c \<le> unat e + W" using uc by linarith
    then show ?thesis using ue bound(1) WH(3) by simp
  qed
  have ch: "unat (c + drop_bit 1 (push_bit n 1)) = unat c + H"
    using lim WH uh by (simp add: unat_word_ariths)
  have eh: "unat (e + drop_bit 1 (push_bit n 1)) = unat e + H"
    using ue bound(1) WH uh by (simp add: unat_word_ariths)
  have cw: "unat (c + push_bit n 1) = unat c + W"
    using lim WH uw by (simp add: unat_word_ariths)
  have top: "unat (push_bit 62 1 - push_bit n 1 :: u64) = 2 ^ 62 - W"
    using WH uw by (subst unat_sub) (auto simp: word_le_nat_alt)
  have lohi: "unat e < unat pn + H" "unat pn \<le> unat e + H" using lo hi ue by (simp_all add: H_def)
  note win = win [OF WH(1,2) lohi]
  have "unat (rqc_packet_calc_packet_number largest_pn (take_bit n pn) n) = unat pn"
  proof (cases "unat c + H \<le> unat e")
    case True
    then have "unat c + W = unat pn" by (rule win(2))
    then have "unat c < 2 ^ 62 - W" using bound(2) by linarith
    with True \<open>unat c + W = unat pn\<close> show ?thesis
      unfolding rqc_packet_calc_packet_number_def Let_def e_def [symmetric] c_def [symmetric]
      by (simp only: word_le_nat_alt word_less_nat_alt ch top cw if_True simp_thms)
  next
    case False
    show ?thesis
    proof (cases "unat c > unat e + H")
      case True
      then have "W \<le> unat c" by (rule win(3))
      then have "unat (c - push_bit n 1) = unat c - W"
        using uw by (subst unat_sub) (auto simp: word_le_nat_alt)
      with True False \<open>W \<le> unat c\<close> win(1) show ?thesis
        unfolding rqc_packet_calc_packet_number_def Let_def e_def [symmetric] c_def [symmetric]
        by (simp only: word_le_nat_alt word_less_nat_alt ch eh uw if_True if_False simp_thms)
    next
      case not_gt: False
      with False win(1) show ?thesis
        unfolding rqc_packet_calc_packet_number_def Let_def e_def [symmetric] c_def [symmetric]
        by (simp only: word_le_nat_alt word_less_nat_alt ch eh uw if_True if_False simp_thms)
    qed
  qed
  then show ?thesis by (simp only: word_unat_eq_iff)
qed

text \<open>
  C37: A packet number is recovered from its low 8, 16, 24 or 32 bits, for every largest received
  number, as long as it lies in the window of that width around the next expected number
  (RFC 9000, appendix A.3).
\<close>

theorem rqc_packet_calc_packet_number_correct:
  fixes largest_pn pn :: u64
  assumes n: "n \<in> {8, 16, 24, 32}"
    and bound: "unat largest_pn < 2 ^ 62" "unat pn < 2 ^ 62"
    and lo: "unat largest_pn + 1 < unat pn + 2 ^ (n - 1)"
    and hi: "unat pn \<le> unat largest_pn + 1 + 2 ^ (n - 1)"
  shows "rqc_packet_calc_packet_number largest_pn (take_bit n pn) n = pn"
  using assms by (rule calc_packet_number_recovers)

theorem rqc_packet_calc_packet_number_correct_witness:
  "rqc_packet_calc_packet_number 0xa82f30ea (take_bit 16 0xa82f9b32) 16 = 0xa82f9b32"
  by (rule rqc_packet_calc_packet_number_correct) simp_all

subsection \<open>Reading a header back\<close>

lemma parse_pktno_loop_shift_in: "parse_pktno_loop v bs = shift_in v bs"
  by (induction v bs rule: parse_pktno_loop.induct) (simp_all add: shift_in_def)

lemma pktno_enc_3: "pktno_enc pn 3 = be_bytes 4 pn"
  by (simp add: pktno_enc_def rqc_pktno_class_bytes_def)

lemma length_pktno_enc_3 [simp]: "length (pktno_enc pn 3) = 4"
  by (simp add: pktno_enc_3 del: be_bytes_simps)

lemma rqc_packet_parse_packet_number_enc:
  "rqc_packet_parse_packet_number (pktno_enc pn 3) = take_bit 32 pn"
  by (simp add: rqc_packet_parse_packet_number_def parse_pktno_loop_shift_in shift_in_OR pktno_enc_3
      be_value_def [symmetric] be_value_be_bytes del: be_bytes_simps)

text \<open>Searches depend on the bytes of the identifier only, and lead to a valid position.\<close>

definition same_cid :: "rqc_cid \<Rightarrow> rqc_cid \<Rightarrow> bool" where
  "same_cid a b \<longleftrightarrow> rqc_cid_is_equal (Some a) (Some b) = RQC_OK"

lemma same_cid_iff:
  "same_cid a b \<longleftrightarrow> cid_len a = cid_len b \<and> take (cid_len a) (cid_buf a) = take (cid_len b) (cid_buf b)"
  by (simp add: same_cid_def rqc_cid_is_equal_iff)

lemma same_cid_fields: "cid_len a = cid_len b \<Longrightarrow> cid_buf a = cid_buf b \<Longrightarrow> same_cid a c = same_cid b c"
  by (simp add: same_cid_iff)

lemma search_sets_cong:
  assumes "same_cid a b"
  shows "map_option fst (search_sets i ss a) = map_option fst (search_sets i ss b)"
proof -
  have "(rqc_cid_is_equal (Some a) (Some c) = RQC_OK) = (rqc_cid_is_equal (Some b) (Some c) = RQC_OK)" for c
    using assms by (auto simp: rqc_cid_is_equal_iff same_cid_iff)
  then show ?thesis by (induction ss arbitrary: i) (auto split: option.splits)
qed

lemma search_sets_Some:
  "search_sets i ss a = Some (p, a') \<Longrightarrow>
   i \<le> fst p \<and> fst p - i < length ss \<and> snd p < length (cid_list (ss ! (fst p - i))) \<and>
   a' = found a (cid_list (ss ! (fst p - i)) ! snd p) \<and> same_cid a (ci_cid (cid_list (ss ! (fst p - i)) ! snd p))"
proof (induction ss arbitrary: i)
  case (Cons s ss)
  show ?case
  proof (cases "first_idx (\<lambda>c. rqc_cid_is_equal (Some a) (Some (ci_cid c)) = RQC_OK) (cid_list s)")
    case None
    then have "search_sets (Suc i) ss a = Some (p, a')" using Cons.prems by simp
    note ih = Cons.IH [OF this]
    then have "fst p - i = Suc (fst p - Suc i)" by arith
    with ih show ?thesis by simp
  next
    case (Some j)
    then have "p = (i, j)" "a' = found a (cid_list s ! j)" using Cons.prems by simp_all
    with Some show ?thesis by (simp add: first_idx_Some same_cid_def)
  qed
qed simp

lemma found_fields [simp]: "cid_len (found a c) = cid_len a" "cid_buf (found a c) = cid_buf a"
  by (simp_all add: found_def)

lemma cid_wf_found [simp]: "cid_wf (found a c) = cid_wf a"
  by (simp add: cid_wf_def)

lemma same_cid_found [simp]: "same_cid (found a c) b = same_cid a b" "same_cid a (found b c) = same_cid a b"
  by (simp_all add: same_cid_iff)

lemma rqc_conn_check_dcid_cases:
  assumes "rqc_conn_check_dcid c d = (r, d', c')"
  shows "cid_len d' = cid_len d \<and> cid_buf d' = cid_buf d \<and> path_recv_record c' = path_recv_record c \<and>
    conn_type c' = conn_type c"
  using assms by (auto simp: rqc_conn_check_dcid_def Let_def rqc_cid_set_search_cid_def split: option.splits prod.splits if_splits
      dest!: search_sets_Some)

lemma rqc_conn_check_dcid_known:
  assumes ok: "sets_ok (scid_set c)" and known: "rqc_cid_set_search_cid (scid_set c) b = Some q" and same: "same_cid d b"
  obtains d' c' where "rqc_conn_check_dcid c d = (RQC_OK, d', c')"
proof -
  have "map_option fst (rqc_cid_set_search_cid (scid_set c) d) = Some (fst q)"
    using search_sets_cong [OF same] known by (simp add: rqc_cid_set_search_cid_def)
  then obtain p d' where s: "rqc_cid_set_search_cid (scid_set c) d = Some (p, d')" by auto
  obtain i j where ij: "p = (i, j)" by (cases p)
  note at = search_sets_Some [OF s [unfolded rqc_cid_set_search_cid_def]]
  let ?c = "cid_list (cid_set_list (scid_set c) ! i) ! j"
  have i: "i < length (cid_set_list (scid_set c))" and j: "j < length (cid_list (cid_set_list (scid_set c) ! i))"
    using at ij by simp_all
  have "cid_path_id (ci_cid ?c) = cs_path_id (cid_set_list (scid_set c) ! i)"
    using inner_ok_nth [OF sets_ok_nth [OF ok i] j] by simp
  then have cat: "cid_at (scid_set c) (i, j) (cid_path_id (ci_cid ?c))"
    using i j by (simp add: cid_at_def)
  obtain r cs where sw: "rqc_cid_switch_to_next_state (scid_set c) (i, j) RQC_CID_USED (cid_path_id (ci_cid ?c)) = (r, cs)"
    by (rule prod.exhaust)
  have "r = RQC_OK" if "ci_state ?c = RQC_CID_UNUSED"
    using switch_states(2) [OF ok cat sw] that by (simp add: less_eq_rqc_cid_state_def)
  with s sw ij show ?thesis
    by (cases "ci_state ?c = RQC_CID_UNUSED") (auto simp: rqc_conn_check_dcid_def Let_def intro: that)
qed

text \<open>
  The end of a header as it stands on the wire, and what the parser makes of it: the packet
  number is recovered when it lies in the window around what the receiver has seen.
\<close>

definition tail_bytes :: "u64 \<Rightarrow> byte list \<Rightarrow> byte list" where
  "tail_bytes pn payload = rqc_vint_bytes (of_nat (4 + length payload)) 1 2 @ pktno_enc pn 3 @ payload"

lemma length_tail_bytes [simp]: "length (tail_bytes pn payload) = 6 + length payload"
  using length_rqc_vint_bytes [of 1 "of_nat (4 + length payload)"] by (simp add: tail_bytes_def)

definition largest_seen :: "rqc_conn_hdr \<Rightarrow> u64" where
  "largest_seen c = (case path_recv_record c of Some rr \<Rightarrow> rqc_recv_record_largest rr | None \<Rightarrow> 0)"

definition in_pn_window :: "u64 \<Rightarrow> u64 \<Rightarrow> bool" where
  "in_pn_window largest pn \<longleftrightarrow> unat largest < 2 ^ 62 \<and> unat pn < 2 ^ 62 \<and>
     unat largest + 1 < unat pn + 2 ^ 31 \<and> unat pn \<le> unat largest + 1 + 2 ^ 31"

lemma decode_tail:
  assumes "b0 # rest = pi_buf pi" "RQC_PACKET_HEADER_PKTNO_BYTES b0 = 4"
    and "holds_at (pi_buf pi) (pkt_num_offset (pi_pkt pi)) (pktno_enc pn 3)" and win: "in_pn_window (largest_seen c) pn"
  shows "rqc_packet_decode_packet_number c pi = Inr (pi\<lparr>pi_pkt := (pi_pkt pi)\<lparr>pkt_num := pn\<rparr>\<rparr>)"
proof -
  have "rd_u8 pi 0 = Inr (b0, 1)" using assms(1) by (simp add: rd_u8_def flip: assms(1))
  moreover have "rd_mem pi (pkt_num_offset (pi_pkt pi)) 4 = Inr (pktno_enc pn 3)"
    using assms(3) by (simp add: rd_mem_def holds_at_def)
  moreover have "rqc_packet_calc_packet_number (largest_seen c) (take_bit 32 pn) 32 = pn"
    using win by (intro calc_packet_number_recovers) (simp_all add: in_pn_window_def)
  ultimately show ?thesis
    by (simp add: rqc_packet_decode_packet_number_def assms(2) rqc_packet_parse_packet_number_enc largest_seen_def [symmetric])
qed

lemma parse_length_pktno_tail:
  assumes b0: "b0 # rest = pi_buf pi" "RQC_PACKET_HEADER_PKTNO_BYTES b0 = 4"
    and at: "pi_buf pi = pre @ tail_bytes pn payload" and win: "in_pn_window (largest_seen c) pn"
    and small: "length payload + 4 < 2 ^ 14"
  shows "\<exists>pi'. parse_length_pktno c pi (length pre) (length (pi_buf pi)) 4 = (Inr (), pi') \<and>
    pi_buf pi' = pi_buf pi \<and> drop (pi_pos pi') (take (pi_last pi') (pi_buf pi')) = payload \<and>
    pi_last pi' = length (pi_buf pi) \<and>
    pkt_num (pi_pkt pi') = pn \<and> pkt_dcid (pi_pkt pi') = pkt_dcid (pi_pkt pi) \<and> pkt_scid (pi_pkt pi') = pkt_scid (pi_pkt pi) \<and>
    pkt_type (pi_pkt pi') = pkt_type (pi_pkt pi)"
proof -
  let ?n = "of_nat (4 + length payload) :: u64"
  let ?pos = "length pre"
  have n: "unat ?n = 4 + length payload" using small by (intro unat_of_nat_small) simp
  have n14: "?n < 2 ^ 14" using small n by (simp add: word_less_nat_alt)
  have h: "holds_at (pi_buf pi) ?pos (tail_bytes pn payload)" by (simp add: at holds_at_def)
  have len: "length (pi_buf pi) = ?pos + 6 + length payload" by (simp add: at)
  have "rqc_vint_read (pi_buf pi) ?pos (length (pi_buf pi)) = Some (?n, rqc_vint_len 1)"
    using n14 h len by (intro rqc_vint_read_bytes) (simp_all add: tail_bytes_def holds_at_append)
  then have v: "rqc_vint_read (pi_buf pi) ?pos (length (pi_buf pi)) = Some (?n, 2)" by simp
  define pi1 where "pi1 = pi\<lparr>pi_last := ?pos + 2 + unat ?n,
    pi_pkt := (pi_pkt pi)\<lparr>pkt_length := ?n, pkt_num_offset := ?pos + 2\<rparr>\<rparr>"
  have "holds_at (pi_buf pi) (?pos + 2) (pktno_enc pn 3)"
    using h length_rqc_vint_bytes [of 1 ?n] by (simp add: tail_bytes_def holds_at_append)
  then have d: "rqc_packet_decode_packet_number c pi1 = Inr (pi1\<lparr>pi_pkt := (pi_pkt pi1)\<lparr>pkt_num := pn\<rparr>\<rparr>)"
    using b0 win by (intro decode_tail [of b0 rest]) (simp_all add: pi1_def)
  have e: "parse_length_pktno c pi ?pos (length (pi_buf pi)) 4 =
      (Inr (), pi1\<lparr>pi_pkt := (pi_pkt pi1)\<lparr>pkt_num := pn\<rparr>, pi_pos := ?pos + 2 + 4\<rparr>)"
    unfolding parse_length_pktno_def v option.case prod.case
    using d len n by (simp add: Let_def RQC_BUFF_LEFT_SIZE_def pi1_def)
  have "drop (?pos + 6) (pi_buf pi) = payload"
    using length_rqc_vint_bytes [of 1 ?n] by (simp add: at tail_bytes_def)
  then show ?thesis
    unfolding e using len n by (simp add: pi1_def eval_nat_numeral)
qed

text \<open>A short header on the wire, and what its receiver makes of it.\<close>

definition short_bytes :: "byte list \<Rightarrow> u64 \<Rightarrow> byte list \<Rightarrow> byte list" where
  "short_bytes dcid pn payload = 0x63 # dcid @ tail_bytes pn payload"

lemma first_byte_short:
  "RQC_PACKET_HEADER_PKTNO_BYTES 0x63 = 4" "RQC_PACKET_IS_SHORT_HEADER 0x63" "(0x63 :: byte) AND 0x40 \<noteq> 0"
  by (simp_all add: RQC_PACKET_HEADER_PKTNO_BYTES_def RQC_PACKET_IS_SHORT_HEADER_def)

lemma same_cid_set:
  "cid_wf d \<Longrightarrow> cid_wf a \<Longrightarrow> cid_len d = n \<Longrightarrow> bs = take n (cid_buf d) \<Longrightarrow> same_cid (rqc_cid_set a bs n) d"
  by (auto simp: same_cid_iff rqc_cid_set_def Let_def overwrite_def cid_wf_def)

text \<open>The receiver may take packets with a short header of identifier \<open>dcid\<close>.\<close>

definition accepts_short :: "rqc_conn_hdr \<Rightarrow> rqc_cid \<Rightarrow> bool" where
  "accepts_short c dcid \<longleftrightarrow> sets_ok (scid_set c) \<and> rqc_cid_set_search_cid (scid_set c) dcid \<noteq> None \<and>
     cid_len (user_scid (scid_set c)) = cid_len dcid \<and>
     (if conn_type c = RQC_CONN_TYPE_CLIENT then rqc_conn_is_handshake_done c else rqc_conn_is_handshake_sent c)"

lemma parse_short_bytes:
  assumes acc: "accepts_short c dcid" and wf: "cid_wf dcid" and win: "in_pn_window (largest_seen c) pn"
    and small: "length payload + 4 < 2 ^ 14"
    and buf: "pi_buf pi = short_bytes (take (cid_len dcid) (cid_buf dcid)) pn payload"
    and pi: "pi_pos pi = 0" "pi_last pi = length (pi_buf pi)" "cid_wf (pkt_dcid (pi_pkt pi))"
  shows "\<exists>c' pi'. rqc_packet_parse_single c pi = (Inr (), c', pi') \<and>
    drop (pi_pos pi') (take (pi_last pi') (pi_buf pi')) = payload \<and> pi_last pi' = length (pi_buf pi) \<and>
    pkt_num (pi_pkt pi') = pn \<and> pkt_type (pi_pkt pi') = RQC_PTYPE_SHORT_HEADER \<and> same_cid (pkt_dcid (pi_pkt pi')) dcid"
proof -
  let ?n = "cid_len dcid" and ?d = "take (cid_len dcid) (cid_buf dcid)"
  let ?pi = "set_type pi RQC_PTYPE_SHORT_HEADER"
  have len: "length ?d = ?n" "min (length (cid_buf dcid)) ?n = ?n" using wf by (simp_all add: cid_wf_def)
  have size: "length (pi_buf pi) = 7 + ?n + length payload" using len by (simp add: buf short_bytes_def)
  have u8: "rd_u8 pi 0 = Inr (0x63, 1)" "rd_u8 ?pi 0 = Inr (0x63, 1)"
    by (simp_all add: rd_u8_def set_type_def buf short_bytes_def)
  have mem: "rd_mem ?pi 1 ?n = Inr ?d"
    using len by (simp add: rd_mem_def set_type_def buf short_bytes_def)
  let ?dcid = "rqc_cid_set (pkt_dcid (pi_pkt ?pi)) ?d ?n"
  have same: "same_cid ?dcid dcid" using wf pi(3) by (intro same_cid_set) (simp_all add: set_type_def)
  obtain q where known: "rqc_cid_set_search_cid (scid_set c) dcid = Some q"
    using acc by (auto simp: accepts_short_def)
  obtain d' c' where chk: "rqc_conn_check_dcid c ?dcid = (RQC_OK, d', c')"
    using acc by (auto simp: accepts_short_def intro: rqc_conn_check_dcid_known [OF _ known same])
  note cases = rqc_conn_check_dcid_cases [OF chk]
  have "same_cid d' dcid" using same cases same_cid_fields by blast
  let ?pi2 = "set_dcid ?pi d'"
  have "\<exists>pi'. parse_length_pktno c' ?pi2 (length (0x63 # ?d)) (length (pi_buf ?pi2)) 4 = (Inr (), pi') \<and>
    pi_buf pi' = pi_buf ?pi2 \<and> drop (pi_pos pi') (take (pi_last pi') (pi_buf pi')) = payload \<and>
    pi_last pi' = length (pi_buf ?pi2) \<and> pkt_num (pi_pkt pi') = pn \<and> pkt_dcid (pi_pkt pi') = pkt_dcid (pi_pkt ?pi2) \<and>
    pkt_scid (pi_pkt pi') = pkt_scid (pi_pkt ?pi2) \<and> pkt_type (pi_pkt pi') = pkt_type (pi_pkt ?pi2)"
    using win small cases first_byte_short(1)
    by (intro parse_length_pktno_tail [of "0x63" "?d @ tail_bytes pn payload"])
      (simp_all add: set_type_def set_dcid_def buf short_bytes_def largest_seen_def)
  then obtain pi' where p: "parse_length_pktno c' ?pi2 (1 + ?n) (length (pi_buf pi)) 4 = (Inr (), pi')"
    and r: "drop (pi_pos pi') (take (pi_last pi') (pi_buf pi')) = payload" "pi_last pi' = length (pi_buf pi)"
      "pkt_num (pi_pkt pi') = pn" "pkt_dcid (pi_pkt pi') = d'" "pkt_type (pi_pkt pi') = RQC_PTYPE_SHORT_HEADER"
    using len by (auto simp: set_type_def set_dcid_def)
  have "rqc_packet_parse_short_header c pi = (Inr (), discard_vn c', pi')"
    unfolding rqc_packet_parse_short_header_def Let_def pi
    using acc size p chk
    by (simp add: accepts_short_def RQC_BUFF_LEFT_SIZE_def u8 mem [unfolded One_nat_def] first_byte_short [simplified])
  moreover have "rqc_packet_parse_single c pi = rqc_packet_parse_short_header c pi"
    unfolding rqc_packet_parse_single_def
    using acc size pi first_byte_short(2) by (cases "conn_type c") (auto simp: accepts_short_def RQC_BUFF_LEFT_SIZE_def u8)
  ultimately show ?thesis using r \<open>same_cid d' dcid\<close> by auto
qed

subsection \<open>What a sender puts on the wire\<close>

text \<open>The frames are appended to the header; only the bytes matter here.\<close>

definition append_payload :: "rqc_packet_out \<Rightarrow> byte list \<Rightarrow> rqc_packet_out" where
  "append_payload po bs =
     po\<lparr>po_buf := overwrite (po_buf po) (po_used_size po) bs, po_used_size := po_used_size po + length bs\<rparr>"

lemma holds_at_0_take: "holds_at buf 0 bs \<Longrightarrow> n = length bs \<Longrightarrow> take n buf = bs"
  by (simp add: holds_at_def)

lemma ucast_of_nat_u32: "n < 2 ^ 32 \<Longrightarrow> (ucast (of_nat n :: u32) :: u64) = of_nat n"
  by (simp add: unsigned_of_nat take_bit_nat_eq_self)

text \<open>The last step of the sender, on a buffer that holds the start of the header and the payload.\<close>

lemma encode_with_pn:
  assumes dcid: "rqc_short_packet_update_dcid po d = Inr po1"
    and keep: "po_ppktno po1 = Some (length H + 2)" "po_used_size po1 = length H + 6 + length payload"
    and start: "holds_at (po_buf po1) 0 H" and data: "holds_at (po_buf po1) (length H + 6) payload"
    and small: "length (po_buf po1) < 2 ^ 14"
  shows "\<exists>po'. rqc_encode_packet_with_pn pn d po = Inr (pn + 1, po') \<and>
    take (po_used_size po') (po_buf po') = H @ tail_bytes pn payload"
proof -
  let ?b = "po_buf po1" and ?p = "length H + 2" and ?V = "rqc_vint_bytes (of_nat (4 + length payload)) 1 2"
  let ?b1 = "overwrite ?b ?p (pktno_enc pn 3)"
  let ?b2 = "overwrite ?b1 (length H) ?V"
  have V: "length ?V = 2" using length_rqc_vint_bytes [of 1 "of_nat (4 + length payload)"] by simp
  have len: "length H + 6 + length payload \<le> length ?b" using holds_at_length [OF data] by simp
  have l1: "length ?b1 = length ?b" using len by simp
  have u: "ucast (of_nat (4 + length payload) :: u32) = (of_nat (4 + length payload) :: u64)"
    using len small by (intro ucast_of_nat_u32) simp
  have w1: "rqc_write_packet_number pn 3 (?b, ?p) = Some (?b1, ?p + 4)"
    using len by (simp add: rqc_write_packet_number_def)
  have w2: "rqc_vint_write ?b1 (length H) (of_nat (4 + length payload)) 1 2 = Some ?b2"
    using len V by (simp add: rqc_vint_write_def l1)
  let ?po' = "po1\<lparr>po_pkt := (po_pkt po1)\<lparr>pkt_num := pn\<rparr>, po_buf := ?b2\<rparr>"
  have enc: "rqc_encode_packet_with_pn pn d po = Inr (pn + 1, ?po')"
    using dcid keep w1 w2 u
    by (simp add: rqc_encode_packet_with_pn_def rqc_send_ctl_set_next_pn_for_packet_def rqc_update_packet_length_def)
  have "holds_at ?b2 0 (H @ ?V @ pktno_enc pn 3 @ payload)"
  proof -
    have "holds_at ?b1 0 H"
      using start len by (intro holds_at_overwrite_other) simp_all
    then have 1: "holds_at ?b2 0 H" by (rule holds_at_overwrite_other) (use len V l1 in simp_all)
    have 2: "holds_at ?b2 (length H) ?V" using len V l1 by (intro holds_at_overwrite) simp
    have "holds_at ?b1 ?p (pktno_enc pn 3)" using len by (intro holds_at_overwrite) simp
    then have 3: "holds_at ?b2 ?p (pktno_enc pn 3)" by (rule holds_at_overwrite_other) (use len V l1 in simp_all)
    have "holds_at ?b1 (length H + 6) payload" using data len by (intro holds_at_overwrite_other) simp_all
    then have 4: "holds_at ?b2 (length H + 6) payload" by (rule holds_at_overwrite_other) (use len V l1 in simp_all)
    show ?thesis using 1 2 3 4 V by (simp add: holds_at_append ac_simps)
  qed
  then have "take (length H + 6 + length payload) ?b2 = H @ ?V @ pktno_enc pn 3 @ payload"
    by (rule holds_at_0_take) (use V in simp)
  then show ?thesis using enc keep by (simp add: tail_bytes_def)
qed

lemma append_payload_fields [simp]:
  "po_ppktno (append_payload po bs) = po_ppktno po" "po_pkt (append_payload po bs) = po_pkt po"
  "po_used_size (append_payload po bs) = po_used_size po + length bs"
  "po_buf (append_payload po bs) = overwrite (po_buf po) (po_used_size po) bs"
  by (simp_all add: append_payload_def)

lemma first_byte_short_gen: "(0x40 OR push_bit 5 1 OR push_bit 3 0 OR of_nat 3 :: byte) = 0x63"
  by simp

lemma write_short_header:
  assumes ok: "po_ok po" "po_used_size po = 0" "pkt_type (po_pkt po) = RQC_PTYPE_SHORT_HEADER"
    and d: "d = user_scid (dcid_set a)" "cid_wf d" and fits: "cid_len d + 7 \<le> po_buf_size po"
  shows "\<exists>po1. rqc_write_packet_header a po = (Inr (), po1) \<and> po_ppktno po1 = Some (cid_len d + 3) \<and>
    po_used_size po1 = cid_len d + 7 \<and> length (po_buf po1) = length (po_buf po) \<and>
    pkt_type (po_pkt po1) = RQC_PTYPE_SHORT_HEADER \<and> holds_at (po_buf po1) 0 [0x63]"
proof -
  let ?d = "take (cid_len d) (cid_buf d)" and ?b = "po_buf po"
  let ?b1 = "overwrite ?b 0 (0x63 # ?d)"
  have dl: "length ?d = cid_len d" "min (length (cid_buf d)) (cid_len d) = cid_len d" using d(2) by (simp_all add: cid_wf_def)
  have len: "cid_len d + 7 \<le> length ?b" using ok fits by (simp add: po_ok_def)
  have need: "rqc_short_packet_header_size (cid_len d) 3 = cid_len d + 7"
    by (simp add: rqc_short_packet_header_size_def rqc_pktno_class_bytes_def)
  have rem: "\<not> rqc_get_po_remained_size po < cid_len d + 7" using ok(2) fits by (simp add: rqc_get_po_remained_size_def)
  have w: "Option.bind (wr_mem [0x63] (?b, 0)) (wr_mem ?d) = Some (?b1, cid_len d + 1)"
    unfolding wr_mem_bind using len dl by simp
  have l1: "length ?b1 = length ?b" using len dl by simp
  let ?b2 = "overwrite ?b1 (cid_len d + 3) (pktno_enc (pkt_num (po_pkt po)) 3)"
  have n: "rqc_write_packet_number (pkt_num (po_pkt po)) 3 (?b1, cid_len d + 3) = Some (?b2, cid_len d + 7)"
    using len l1 by (simp add: rqc_write_packet_number_def)
  let ?po1 = "po\<lparr>po_buf := ?b2, po_ppktno := Some (cid_len d + 3), po_payload := Some (cid_len d + 7)\<rparr>"
  have "rqc_gen_short_packet_header po (cid_buf d) (cid_len d) 3 (pkt_num (po_pkt po)) = (Inr (cid_len d + 7), ?po1)"
  proof -
    have e3: "cid_len d + 1 + 2 = cid_len d + 3" by simp
    have same: "po\<lparr>po_pkt := (po_pkt po)\<lparr>pkt_type := RQC_PTYPE_SHORT_HEADER\<rparr>\<rparr> = po" using ok(3) by simp
    show ?thesis
      unfolding rqc_gen_short_packet_header_def Let_def need same first_byte_short_gen w option.case prod.case e3 n
      using rem by (simp only: if_False)
  qed
  then have "rqc_write_packet_header a po = (Inr (), ?po1\<lparr>po_used_size := cid_len d + 7\<rparr>)"
    using ok(2,3) d(1) by (simp add: rqc_write_packet_header_def Let_def)
  moreover have "holds_at ?b1 0 [0x63]" using len by (simp add: holds_at_def overwrite_def)
  then have "holds_at ?b2 0 [0x63]" by (rule holds_at_overwrite_other) (use len l1 in simp_all)
  ultimately show ?thesis using len l1 ok(3) by simp
qed

lemma short_packet_bytes:
  assumes ok: "po_ok po" "po_used_size po = 0" "pkt_type (po_pkt po) = RQC_PTYPE_SHORT_HEADER"
    and d: "cid_wf (user_scid (dcid_set a))" "cid_wf d" "cid_len (user_scid (dcid_set a)) = cid_len d"
    and fits: "cid_len d + 7 + length payload \<le> po_buf_size po"
  shows "\<exists>po1 po2. rqc_write_packet_header a po = (Inr (), po1) \<and>
    rqc_encode_packet_with_pn pn d (append_payload po1 payload) = Inr (pn + 1, po2) \<and>
    take (po_used_size po2) (po_buf po2) = short_bytes (take (cid_len d) (cid_buf d)) pn payload"
proof -
  let ?n = "cid_len d" and ?d = "take (cid_len d) (cid_buf d)"
  obtain po1 where w: "rqc_write_packet_header a po = (Inr (), po1)"
    and po1: "po_ppktno po1 = Some (?n + 3)" "po_used_size po1 = ?n + 7" "length (po_buf po1) = length (po_buf po)"
      "pkt_type (po_pkt po1) = RQC_PTYPE_SHORT_HEADER" "holds_at (po_buf po1) 0 [0x63]"
    using write_short_header [OF ok refl d(1)] fits d(3) by auto
  have dl: "length ?d = ?n" "min (length (cid_buf d)) ?n = ?n" using d(2) by (simp_all add: cid_wf_def)
  have len: "?n + 7 + length payload \<le> length (po_buf po)" "length (po_buf po) < 2 ^ 14"
    using ok(1) fits by (simp_all add: po_ok_def)
  let ?b = "overwrite (po_buf po1) (?n + 7) payload"
  let ?po = "(append_payload po1 payload)\<lparr>po_buf := overwrite ?b 1 ?d\<rparr>"
  have lb: "length ?b = length (po_buf po)" using len po1(3) by simp
  have upd: "rqc_short_packet_update_dcid (append_payload po1 payload) d = Inr ?po"
    using po1 len dl lb by (simp add: rqc_short_packet_update_dcid_def)
  have "holds_at ?b 0 [0x63]" using po1(5) by (rule holds_at_overwrite_other) (use len po1(3) in simp_all)
  have pb: "po_buf ?po = overwrite ?b 1 ?d" by simp
  have "holds_at (po_buf ?po) 0 [0x63]"
    unfolding pb using \<open>holds_at ?b 0 [0x63]\<close> by (rule holds_at_overwrite_other) (use len dl lb in simp_all)
  moreover have "holds_at (po_buf ?po) 1 ?d"
    unfolding pb by (rule holds_at_overwrite) (use len dl lb in simp)
  ultimately have H: "holds_at (po_buf ?po) 0 (0x63 # ?d)"
    using holds_at_append [of "po_buf ?po" 0 "[0x63]" ?d] by simp
  have "holds_at ?b (?n + 7) payload" by (rule holds_at_overwrite) (use len po1(3) in simp)
  then have P: "holds_at (po_buf ?po) (?n + 7) payload"
    unfolding pb by (rule holds_at_overwrite_other) (use len dl lb in simp_all)
  have "\<exists>po2. rqc_encode_packet_with_pn pn d (append_payload po1 payload) = Inr (pn + 1, po2) \<and>
      take (po_used_size po2) (po_buf po2) = (0x63 # ?d) @ tail_bytes pn payload"
    using upd
  proof (rule encode_with_pn)
    show "holds_at (po_buf ?po) 0 (0x63 # ?d)" by (rule H)
    show "holds_at (po_buf ?po) (length (0x63 # ?d) + 6) payload" using P dl by (simp add: add.commute)
    show "length (po_buf ?po) < 2 ^ 14" using len lb dl by simp
  qed (use po1 dl in simp_all)
  with w show ?thesis by (simp add: short_bytes_def)
qed

text \<open>
  C38: A packet with a short header survives the wire. The sender writes the header, appends the
  frames, and before sending fills in the identifier of the path, the packet number and the length.
  A receiver that knows the identifier reads back exactly the frames, the packet number and the
  identifier, if the number is within \<open>2 ^ 31\<close> of the next one it expects.
\<close>

theorem short_header_roundtrip:
  assumes "po_ok po" "po_used_size po = 0" "pkt_type (po_pkt po) = RQC_PTYPE_SHORT_HEADER"
    and "cid_wf (user_scid (dcid_set a))" "cid_wf d" "cid_len (user_scid (dcid_set a)) = cid_len d"
    and "cid_len d + 7 + length payload \<le> po_buf_size po"
    and "accepts_short c d" "in_pn_window (largest_seen c) pn" "cid_wf (pkt_dcid (pi_pkt pi))"
  shows "\<exists>po1 po2 c' pi'. rqc_write_packet_header a po = (Inr (), po1) \<and>
    rqc_encode_packet_with_pn pn d (append_payload po1 payload) = Inr (pn + 1, po2) \<and>
    rqc_packet_parse_single c (rqc_packet_in_init pi (take (po_used_size po2) (po_buf po2)) now) = (Inr (), c', pi') \<and>
    drop (pi_pos pi') (take (pi_last pi') (pi_buf pi')) = payload \<and> pi_last pi' = length (take (po_used_size po2) (po_buf po2)) \<and>
    pkt_num (pi_pkt pi') = pn \<and> pkt_type (pi_pkt pi') = RQC_PTYPE_SHORT_HEADER \<and> same_cid (pkt_dcid (pi_pkt pi')) d"
proof -
  obtain po1 po2 where s: "rqc_write_packet_header a po = (Inr (), po1)"
    "rqc_encode_packet_with_pn pn d (append_payload po1 payload) = Inr (pn + 1, po2)"
    and b: "take (po_used_size po2) (po_buf po2) = short_bytes (take (cid_len d) (cid_buf d)) pn payload"
    using short_packet_bytes [OF assms(1-7)] by blast
  have "length payload + 4 < 2 ^ 14" using assms(1,7) by (simp add: po_ok_def)
  note small = this
  let ?pi = "rqc_packet_in_init pi (take (po_used_size po2) (po_buf po2)) now"
  have i: "pi_buf ?pi = take (po_used_size po2) (po_buf po2)" "pi_pos ?pi = 0" "pi_last ?pi = length (pi_buf ?pi)"
    "cid_wf (pkt_dcid (pi_pkt ?pi))"
    using assms(10) by (simp_all add: rqc_packet_in_init_def)
  from parse_short_bytes [OF assms(8,5,9) small trans [OF i(1) b] i(2-4)] show ?thesis
    using s unfolding i(1) by blast
qed

subsection \<open>Initial packets\<close>

definition long_bytes :: "nat \<Rightarrow> byte list \<Rightarrow> byte list \<Rightarrow> u64 \<Rightarrow> byte list \<Rightarrow> byte list" where
  "long_bytes ver d s pn payload =
     0xC3 # rqc_proto_version_field ! ver @ of_nat (length d) # d @ of_nat (length s) # s @ tail_bytes pn payload"

definition wire_cid :: "rqc_cid \<Rightarrow> byte list \<Rightarrow> rqc_cid" where
  "wire_cid c bs = c\<lparr>cid_len := length bs, cid_path_id := RQC_INITIAL_PATH_ID, cid_buf := overwrite (cid_buf c) 0 bs\<rparr>"

lemma wire_cid_same:
  assumes "cid_wf d" "bs = take (cid_len d) (cid_buf d)"
  shows "same_cid (wire_cid c bs) d"
  using assms by (auto simp: same_cid_iff wire_cid_def overwrite_def cid_wf_def)

lemma first_byte_long:
  "RQC_PACKET_HEADER_PKTNO_BYTES 0xC3 = 4" "RQC_PACKET_IS_LONG_HEADER 0xC3" "\<not> RQC_PACKET_IS_SHORT_HEADER 0xC3"
  "(0xC3 :: byte) AND 0x40 \<noteq> 0" "unat (drop_bit 4 ((0xC3 :: byte) AND 0x30)) = 0" "long_first_byte RQC_PTYPE_INIT 3 = 0xC3"
  by (simp_all add: RQC_PACKET_HEADER_PKTNO_BYTES_def RQC_PACKET_IS_SHORT_HEADER_def RQC_PACKET_IS_LONG_HEADER_def
      long_first_byte_def)

lemma valid_versions: "rqc_check_proto_version_valid ver \<longleftrightarrow> ver = 1 \<or> ver = 2"
  by (auto simp: rqc_check_proto_version_valid_def)

lemma version_field_1:
  "length (rqc_proto_version_field ! 1) = 4" "(ucast (be_value (rqc_proto_version_field ! 1)) :: u32) = rqc_proto_version_value ! 1"
  "rqc_proto_version_value ! 1 \<noteq> 0" "version_of_value (rqc_proto_version_value ! 1) = Some 1"
  by code_simp+

lemma version_field_2:
  "length (rqc_proto_version_field ! 2) = 4" "(ucast (be_value (rqc_proto_version_field ! 2)) :: u32) = rqc_proto_version_value ! 2"
  "rqc_proto_version_value ! 2 \<noteq> 0" "version_of_value (rqc_proto_version_value ! 2) = Some 2"
  by code_simp+

lemma version_field:
  assumes "rqc_check_proto_version_valid ver"
  shows "length (rqc_proto_version_field ! ver) = 4"
    and "ucast (be_value (rqc_proto_version_field ! ver)) = rqc_proto_version_value ! ver"
    and "rqc_proto_version_value ! ver \<noteq> 0" and "version_of_value (rqc_proto_version_value ! ver) = Some ver"
  using assms version_field_1 version_field_2 unfolding valid_versions by blast+

lemma rd_at_append:
  "pi_buf pi = pre @ b # post \<Longrightarrow> p = length pre \<Longrightarrow> rd_u8 pi p = Inr (b, p + 1)"
  "pi_buf pi = pre @ bs @ post \<Longrightarrow> p = length pre \<Longrightarrow> n = length bs \<Longrightarrow> rd_mem pi p n = Inr bs"
  by (simp_all add: rd_u8_def rd_mem_def)

lemma parse_long_cids_bytes:
  assumes buf: "pi_buf pi = pre @ of_nat (length d) # d @ of_nat (length s) # s @ post"
    and len: "length d \<le> 20" "length s \<le> 20"
  shows "parse_long_cids pi (length pre) (length (pi_buf pi)) =
    (Inr (length pre + 2 + length d + length s),
     set_scid (set_dcid pi (wire_cid (pkt_dcid (pi_pkt pi)) d)) (wire_cid (pkt_scid (pi_pkt pi)) s))"
proof -
  have n: "unat (of_nat (length d) :: byte) = length d" "unat (of_nat (length s) :: byte) = length s"
    using len by (simp_all add: unat_of_nat)
  have 1: "rd_u8 pi (length pre) = Inr (of_nat (length d), length pre + 1)"
    by (rule rd_at_append(1) [OF buf]) simp
  let ?pi1 = "set_dcid pi ((pkt_dcid (pi_pkt pi))\<lparr>cid_len := length d\<rparr>)"
  let ?pi2 = "set_dcid ?pi1 (wire_cid (pkt_dcid (pi_pkt pi)) d)"
  have 2: "rd_mem ?pi1 (length pre + 1) (length d) = Inr d"
    by (rule rd_at_append(2) [of _ "pre @ [of_nat (length d)]" d "of_nat (length s) # s @ post"]) (simp_all add: set_dcid_def buf)
  have 3: "rd_u8 ?pi2 (length pre + 1 + length d) = Inr (of_nat (length s), length pre + 1 + length d + 1)"
    by (rule rd_at_append(1) [of _ "pre @ of_nat (length d) # d" _ "s @ post"]) (simp_all add: set_dcid_def buf)
  let ?pi3 = "set_scid ?pi2 ((pkt_scid (pi_pkt pi))\<lparr>cid_len := length s\<rparr>)"
  have 4: "rd_mem ?pi3 (length pre + 1 + length d + 1) (length s) = Inr s"
    by (rule rd_at_append(2) [of _ "pre @ of_nat (length d) # d @ [of_nat (length s)]" s post])
      (simp_all add: set_dcid_def set_scid_def buf)
  have pk: "pkt_scid (pi_pkt ?pi2) = pkt_scid (pi_pkt pi)" by (simp add: set_dcid_def)
  have w: "(pkt_dcid (pi_pkt pi))\<lparr>cid_len := length d\<rparr>\<lparr>cid_path_id := RQC_INITIAL_PATH_ID,
      cid_buf := overwrite (cid_buf ((pkt_dcid (pi_pkt pi))\<lparr>cid_len := length d\<rparr>)) 0 d\<rparr> = wire_cid (pkt_dcid (pi_pkt pi)) d"
    "(pkt_scid (pi_pkt pi))\<lparr>cid_len := length s\<rparr>\<lparr>cid_path_id := RQC_INITIAL_PATH_ID,
      cid_buf := overwrite (cid_buf ((pkt_scid (pi_pkt pi))\<lparr>cid_len := length s\<rparr>)) 0 s\<rparr> = wire_cid (pkt_scid (pi_pkt pi)) s"
    by (simp_all add: wire_cid_def)
  have left: "(RQC_BUFF_LEFT_SIZE (length pre + 1) (length (pi_buf pi)) < length d + 1 \<or> 20 < length d) = False"
    "(RQC_BUFF_LEFT_SIZE (length pre + 1 + length d + 1) (length (pi_buf pi)) < length s \<or> 20 < length s) = False"
    using len by (simp_all add: RQC_BUFF_LEFT_SIZE_def buf)
  show ?thesis
    unfolding parse_long_cids_def 1 sum.case prod.case Let_def n left if_False 2 w 3 pk 4
    by (simp add: set_scid_def set_dcid_def)
qed

text \<open>A connection that still accepts any identifiers and the version of the packet.\<close>

definition accepts_initial :: "rqc_conn_hdr \<Rightarrow> nat \<Rightarrow> bool" where
  "accepts_initial c ver \<longleftrightarrow> \<not> rqc_conn_is_dcid_done c \<and>
     (conn_type c = RQC_CONN_TYPE_SERVER \<and> conn_version c = RQC_IDRAFT_INIT_VER \<longrightarrow>
        rqc_uint32_list_find (support_version_list c) (support_version_count c) (rqc_proto_version_value ! ver) \<noteq> -1)"

lemma version_check_accepts:
  assumes "accepts_initial c ver" "rqc_check_proto_version_valid ver"
  shows "\<exists>c'. rqc_conn_version_check c (rqc_proto_version_value ! ver) = (RQC_OK, c') \<and> path_recv_record c' = path_recv_record c \<and>
    (conn_type c = RQC_CONN_TYPE_SERVER \<and> conn_version c = RQC_IDRAFT_INIT_VER \<longrightarrow> conn_version c' = ver)"
  using assms by (auto simp: accepts_initial_def rqc_conn_version_check_def version_field(4))

lemma parse_long_bytes:
  assumes acc: "accepts_initial c ver" "rqc_check_proto_version_valid ver"
    and win: "in_pn_window (largest_seen c) pn" and small: "length payload + 4 < 2 ^ 14"
    and len: "length d \<le> 20" "length s \<le> 20"
    and buf: "pi_buf pi = long_bytes ver d s pn payload" and pi: "pi_pos pi = 0" "pi_last pi = length (pi_buf pi)"
  shows "\<exists>c' pi'. rqc_packet_parse_single c pi = (Inr (), c', pi') \<and>
    drop (pi_pos pi') (take (pi_last pi') (pi_buf pi')) = payload \<and> pi_last pi' = length (pi_buf pi) \<and>
    pkt_num (pi_pkt pi') = pn \<and> pkt_type (pi_pkt pi') = RQC_PTYPE_INIT \<and>
    pkt_dcid (pi_pkt pi') = wire_cid (pkt_dcid (pi_pkt pi)) d \<and> pkt_scid (pi_pkt pi') = wire_cid (pkt_scid (pi_pkt pi)) s \<and>
    (conn_type c = RQC_CONN_TYPE_SERVER \<and> conn_version c = RQC_IDRAFT_INIT_VER \<longrightarrow> conn_version c' = ver)"
proof -
  let ?F = "rqc_proto_version_field ! ver"
  note F = version_field [OF acc(2)]
  let ?pre = "0xC3 # ?F" and ?cids = "of_nat (length d) # d @ of_nat (length s) # s" and ?t = "tail_bytes pn payload"
  have b: "pi_buf pi = ?pre @ of_nat (length d) # d @ of_nat (length s) # s @ ?t" by (simp add: buf long_bytes_def)
  have size: "length (pi_buf pi) = 13 + length d + length s + length payload" by (simp add: b F(1))
  have u8: "rd_u8 pi 0 = Inr (0xC3, 1)" by (simp add: rd_u8_def b)
  have mem: "rd_mem pi 1 4 = Inr ?F"
    by (rule rd_at_append(2) [of _ "[0xC3]" ?F "?cids @ ?t"]) (simp_all add: b F(1))
  let ?pi = "set_scid (set_dcid pi (wire_cid (pkt_dcid (pi_pkt pi)) d)) (wire_cid (pkt_scid (pi_pkt pi)) s)"
  have cids: "parse_long_cids pi 5 (length (pi_buf pi)) = (Inr (7 + length d + length s), ?pi)"
    using parse_long_cids_bytes [OF b len] by (simp add: F(1) numeral_eq_Suc)
  obtain c' where v: "rqc_conn_version_check c (rqc_proto_version_value ! ver) = (RQC_OK, c')"
    and c': "path_recv_record c' = path_recv_record c"
      "conn_type c = RQC_CONN_TYPE_SERVER \<and> conn_version c = RQC_IDRAFT_INIT_VER \<longrightarrow> conn_version c' = ver"
    using version_check_accepts [OF acc] by blast
  let ?pi1 = "?pi\<lparr>pi_pos := 7 + length d + length s\<rparr>"
  let ?pi2 = "set_type ?pi1 RQC_PTYPE_INIT"
  have "\<exists>pi'. parse_length_pktno c' ?pi2 (length (?pre @ ?cids)) (length (pi_buf ?pi2)) 4 = (Inr (), pi') \<and>
    pi_buf pi' = pi_buf ?pi2 \<and> drop (pi_pos pi') (take (pi_last pi') (pi_buf pi')) = payload \<and>
    pi_last pi' = length (pi_buf ?pi2) \<and> pkt_num (pi_pkt pi') = pn \<and> pkt_dcid (pi_pkt pi') = pkt_dcid (pi_pkt ?pi2) \<and>
    pkt_scid (pi_pkt pi') = pkt_scid (pi_pkt ?pi2) \<and> pkt_type (pi_pkt pi') = pkt_type (pi_pkt ?pi2)"
    using win small c'(1) first_byte_long(1)
    by (intro parse_length_pktno_tail [of "0xC3" "?F @ ?cids @ ?t"])
      (simp_all add: set_type_def set_dcid_def set_scid_def b largest_seen_def)
  then obtain pi' where p: "parse_length_pktno c' ?pi2 (7 + length d + length s) (length (pi_buf pi)) 4 = (Inr (), pi')"
    and r: "drop (pi_pos pi') (take (pi_last pi') (pi_buf pi')) = payload" "pi_last pi' = length (pi_buf pi)"
      "pkt_num (pi_pkt pi') = pn" "pkt_dcid (pi_pkt pi') = wire_cid (pkt_dcid (pi_pkt pi)) d"
      "pkt_scid (pi_pkt pi') = wire_cid (pkt_scid (pi_pkt pi)) s" "pkt_type (pi_pkt pi') = RQC_PTYPE_INIT"
    using F(1) by (auto simp: set_type_def set_dcid_def set_scid_def numeral_eq_Suc)
  have "rd_u8 ?pi1 0 = Inr (0xC3, 1)" by (simp add: rd_u8_def set_dcid_def set_scid_def b)
  then have "rqc_packet_parse_initial c' ?pi1 = (Inr (), c', pi')"
    using p pi by (simp add: rqc_packet_parse_initial_def Let_def first_byte_long(1) set_dcid_def set_scid_def)
  then have body: "parse_long_body c ?pi1 (rqc_proto_version_value ! ver) 0 = (Inr (), discard_vn c', pi')"
    using acc(1) v by (simp add: parse_long_body_def accepts_initial_def Let_def)
  have "rqc_packet_parse_long_header c pi = (Inr (), discard_vn c', pi')"
    unfolding rqc_packet_parse_long_header_def Let_def pi
    using size u8 mem F(2,3) cids body first_byte_long(4,5)
    by (simp add: RQC_BUFF_LEFT_SIZE_def)
  moreover have "rqc_packet_parse_single c pi = rqc_packet_parse_long_header c pi"
    unfolding rqc_packet_parse_single_def using size pi u8 first_byte_long(2,3) by (simp add: RQC_BUFF_LEFT_SIZE_def)
  moreover have "conn_version (discard_vn c') = conn_version c'" by (simp add: discard_vn_def)
  ultimately show ?thesis using r c'(2) by auto
qed

lemma write_long_header:
  assumes ok: "po_ok po" "po_used_size po = 0" "pkt_type (po_pkt po) = RQC_PTYPE_INIT"
    and d: "d = user_scid (dcid_set a)" "cid_wf d" and s: "s = user_scid (scid_set a)" "cid_wf s" "3 \<le> cid_len s"
    and ver: "rqc_check_proto_version_valid (conn_version a)"
    and fits: "cid_len d + cid_len s + 13 \<le> po_buf_size po"
  defines "H \<equiv> 0xC3 # rqc_proto_version_field ! conn_version a @ of_nat (cid_len d) # take (cid_len d) (cid_buf d) @
    of_nat (cid_len s) # take (cid_len s) (cid_buf s)"
  shows "\<exists>po1. rqc_write_packet_header a po = (Inr (), po1) \<and> po_ppktno po1 = Some (length H + 2) \<and>
    po_used_size po1 = length H + 6 \<and> length (po_buf po1) = length (po_buf po) \<and>
    pkt_type (po_pkt po1) = RQC_PTYPE_INIT \<and> holds_at (po_buf po1) 0 H"
proof -
  let ?b = "po_buf po"
  let ?b1 = "overwrite ?b 0 H" and ?n = "length H"
  have H: "?n = cid_len d + cid_len s + 7"
    using d(2) s(2) version_field(1) [OF ver] by (simp add: H_def cid_wf_def)
  have len: "?n + 6 \<le> length ?b" using ok fits H by (simp add: po_ok_def)
  have need: "rqc_long_packet_header_size (cid_len d) (cid_len s) 3 RQC_PTYPE_INIT = ?n + 6"
    by (simp add: rqc_long_packet_header_size_def rqc_pktno_class_bytes_def H)
  have rem: "(?n + 6 > rqc_get_po_remained_size po) = False" using ok(2) fits H by (simp add: rqc_get_po_remained_size_def)
  have w: "wr_mem H (?b, 0) = Some (?b1, ?n)" using len by simp
  have l1: "length ?b1 = length ?b" using len by simp
  let ?b2 = "overwrite ?b1 (?n + 2) (pktno_enc (pkt_num (po_pkt po)) 3)"
  have n: "rqc_write_packet_number (pkt_num (po_pkt po)) 3 (?b1, ?n + 2) = Some (?b2, ?n + 6)"
    using len l1 by (simp add: rqc_write_packet_number_def)
  let ?po1 = "po\<lparr>po_buf := ?b2, po_ppktno := Some (?n + 2), po_payload := Some (?n + 6)\<rparr>"
  have "rqc_gen_long_packet_header po (cid_buf d) (cid_len d) (cid_buf s) (cid_len s) (conn_version a) 3 = (Inr (?n + 6), ?po1)"
    unfolding rqc_gen_long_packet_header_def Let_def ok(3) need first_byte_long(6) H_def [symmetric] w option.case prod.case n rem
    using ver s(3) by simp
  then have "rqc_write_packet_header a po = (Inr (), ?po1\<lparr>po_used_size := ?n + 6\<rparr>)"
    using ok(2,3) d(1) s(1) by (simp add: rqc_write_packet_header_def Let_def)
  moreover have "holds_at ?b1 0 H" by (rule holds_at_overwrite) (use len in simp)
  then have "holds_at ?b2 0 H" by (rule holds_at_overwrite_other) (use len l1 in simp_all)
  ultimately show ?thesis using len l1 ok(3) by simp
qed

lemma long_packet_bytes:
  assumes ok: "po_ok po" "po_used_size po = 0" "pkt_type (po_pkt po) = RQC_PTYPE_INIT"
    and d: "d = user_scid (dcid_set a)" "cid_wf d" and s: "s = user_scid (scid_set a)" "cid_wf s" "3 \<le> cid_len s"
    and ver: "rqc_check_proto_version_valid (conn_version a)"
    and fits: "cid_len d + cid_len s + 13 + length payload \<le> po_buf_size po"
  shows "\<exists>po1 po2. rqc_write_packet_header a po = (Inr (), po1) \<and>
    rqc_encode_packet_with_pn pn path_dcid (append_payload po1 payload) = Inr (pn + 1, po2) \<and>
    take (po_used_size po2) (po_buf po2) =
      long_bytes (conn_version a) (take (cid_len d) (cid_buf d)) (take (cid_len s) (cid_buf s)) pn payload"
proof -
  define H where "H = 0xC3 # rqc_proto_version_field ! conn_version a @ of_nat (cid_len d) # take (cid_len d) (cid_buf d) @
    of_nat (cid_len s) # take (cid_len s) (cid_buf s)"
  obtain po1 where w: "rqc_write_packet_header a po = (Inr (), po1)"
    and po1: "po_ppktno po1 = Some (length H + 2)" "po_used_size po1 = length H + 6" "length (po_buf po1) = length (po_buf po)"
      "pkt_type (po_pkt po1) = RQC_PTYPE_INIT" "holds_at (po_buf po1) 0 H"
    using write_long_header [OF ok d s ver] fits unfolding H_def by auto
  have min: "min (length (cid_buf d)) (cid_len d) = cid_len d" "min (length (cid_buf s)) (cid_len s) = cid_len s"
    using d(2) s(2) by (simp_all add: cid_wf_def)
  have H: "length H = cid_len d + cid_len s + 7"
    using min version_field(1) [OF ver] by (simp add: H_def)
  have len: "length H + 6 + length payload \<le> length (po_buf po)" "length (po_buf po) < 2 ^ 14"
    using ok(1) fits H by (simp_all add: po_ok_def)
  let ?po = "append_payload po1 payload"
  have upd: "rqc_short_packet_update_dcid ?po path_dcid = Inr ?po"
    using po1(4) by (simp add: rqc_short_packet_update_dcid_def)
  have "\<exists>po2. rqc_encode_packet_with_pn pn path_dcid ?po = Inr (pn + 1, po2) \<and>
      take (po_used_size po2) (po_buf po2) = H @ tail_bytes pn payload"
    using upd
  proof (rule encode_with_pn)
    show "holds_at (po_buf ?po) 0 H"
      unfolding append_payload_fields po1(2) using po1(5) by (rule holds_at_overwrite_other) (use len po1(3) in simp_all)
    show "holds_at (po_buf ?po) (length H + 6) payload"
      unfolding append_payload_fields po1(2) by (rule holds_at_overwrite) (use len po1(3) in simp)
    show "length (po_buf ?po) < 2 ^ 14" using len po1 by simp
  qed (use po1 in simp_all)
  with w show ?thesis using min by (simp add: long_bytes_def H_def)
qed

text \<open>
  C39: An Initial packet survives the wire: the receiver reads back the frames, the packet number and
  both identifiers, and a server that has not chosen a version yet takes over the version of
  the packet, provided it supports it.
\<close>

theorem initial_header_roundtrip:
  assumes "po_ok po" "po_used_size po = 0" "pkt_type (po_pkt po) = RQC_PTYPE_INIT"
    and "cid_wf (user_scid (dcid_set a))" "cid_wf (user_scid (scid_set a))" "3 \<le> cid_len (user_scid (scid_set a))"
    and "rqc_check_proto_version_valid (conn_version a)"
    and "cid_len (user_scid (dcid_set a)) + cid_len (user_scid (scid_set a)) + 13 + length payload \<le> po_buf_size po"
    and "accepts_initial c (conn_version a)" "in_pn_window (largest_seen c) pn"
  shows "\<exists>po1 po2 c' pi'. rqc_write_packet_header a po = (Inr (), po1) \<and>
    rqc_encode_packet_with_pn pn path_dcid (append_payload po1 payload) = Inr (pn + 1, po2) \<and>
    rqc_packet_parse_single c (rqc_packet_in_init pi (take (po_used_size po2) (po_buf po2)) now) = (Inr (), c', pi') \<and>
    drop (pi_pos pi') (take (pi_last pi') (pi_buf pi')) = payload \<and> pi_last pi' = length (take (po_used_size po2) (po_buf po2)) \<and>
    pkt_num (pi_pkt pi') = pn \<and> pkt_type (pi_pkt pi') = RQC_PTYPE_INIT \<and>
    same_cid (pkt_dcid (pi_pkt pi')) (user_scid (dcid_set a)) \<and> same_cid (pkt_scid (pi_pkt pi')) (user_scid (scid_set a)) \<and>
    (conn_type c = RQC_CONN_TYPE_SERVER \<and> conn_version c = RQC_IDRAFT_INIT_VER \<longrightarrow> conn_version c' = conn_version a)"
proof -
  let ?d = "user_scid (dcid_set a)" and ?s = "user_scid (scid_set a)"
  let ?db = "take (cid_len ?d) (cid_buf ?d)" and ?sb = "take (cid_len ?s) (cid_buf ?s)"
  obtain po1 po2 where s: "rqc_write_packet_header a po = (Inr (), po1)"
    "rqc_encode_packet_with_pn pn path_dcid (append_payload po1 payload) = Inr (pn + 1, po2)"
    and b: "take (po_used_size po2) (po_buf po2) = long_bytes (conn_version a) ?db ?sb pn payload"
    using long_packet_bytes [OF assms(1-3) refl assms(4) refl assms(5-8)] by blast
  have small: "length payload + 4 < 2 ^ 14" using assms(1,8) by (simp add: po_ok_def)
  let ?pi = "rqc_packet_in_init pi (take (po_used_size po2) (po_buf po2)) now"
  have i: "pi_buf ?pi = take (po_used_size po2) (po_buf po2)" "pi_pos ?pi = 0" "pi_last ?pi = length (pi_buf ?pi)"
    by (simp_all add: rqc_packet_in_init_def)
  have l: "length ?db \<le> 20" "length ?sb \<le> 20" using assms(4,5) by (simp_all add: cid_wf_def)
  have same: "same_cid (wire_cid x ?db) ?d" "same_cid (wire_cid x ?sb) ?s" for x
    using assms(4,5) by (simp_all add: wire_cid_same)
  from parse_long_bytes [OF assms(9,7,10) small l trans [OF i(1) b] i(2,3)] show ?thesis
    using s same unfolding i(1) by metis
qed

subsection \<open>Arbitrary bytes\<close>

lemma pktno_bytes_le: "RQC_PACKET_HEADER_PKTNO_BYTES b \<le> 4"
proof -
  have "b AND 3 \<le> 3" by (rule word_and_le1)
  then have "unat (b AND 3) \<le> 3" by (simp add: word_le_nat_alt)
  then show ?thesis by (simp add: RQC_PACKET_HEADER_PKTNO_BYTES_def)
qed

text \<open>
  What a parser may do to a packet: keep the bytes and the identifiers well formed, and on
  success leave a window that lies behind the position \<open>p\<close> and inside the old one.
\<close>

definition parsed :: "nat \<Rightarrow> nat \<Rightarrow> rqc_packet_in \<Rightarrow> unit res \<Rightarrow> rqc_packet_in \<Rightarrow> bool" where
  "parsed p lst pi r pi' \<longleftrightarrow> r \<noteq> Inl Fault \<and> pi_buf pi' = pi_buf pi \<and>
     (cid_wf (pkt_dcid (pi_pkt pi)) \<longrightarrow> cid_wf (pkt_dcid (pi_pkt pi'))) \<and>
     (cid_wf (pkt_scid (pi_pkt pi)) \<longrightarrow> cid_wf (pkt_scid (pi_pkt pi'))) \<and>
     (r = Inr () \<longrightarrow> p < pi_pos pi' \<and> pi_pos pi' \<le> pi_last pi' \<and> pi_last pi' \<le> lst)"

lemma parsed_Err [simp]: "parsed p lst pi (Err e) pi"
  by (simp add: parsed_def)

lemma parsed_trans:
  "parsed p lst pi1 r pi2 \<Longrightarrow> pi_buf pi1 = pi_buf pi \<Longrightarrow>
   (cid_wf (pkt_dcid (pi_pkt pi)) \<Longrightarrow> cid_wf (pkt_dcid (pi_pkt pi1))) \<Longrightarrow>
   (cid_wf (pkt_scid (pi_pkt pi)) \<Longrightarrow> cid_wf (pkt_scid (pi_pkt pi1))) \<Longrightarrow> q \<le> p \<Longrightarrow> parsed q lst pi r pi2"
  by (auto simp: parsed_def)

lemma decode_packet_number_ok:
  assumes "0 < length (pi_buf pi)"
    "pkt_num_offset (pi_pkt pi) + RQC_PACKET_HEADER_PKTNO_BYTES (pi_buf pi ! 0) \<le> length (pi_buf pi)"
  shows "\<exists>pn. rqc_packet_decode_packet_number c pi = Inr (pi\<lparr>pi_pkt := (pi_pkt pi)\<lparr>pkt_num := pn\<rparr>\<rparr>)"
  using assms by (auto simp: rqc_packet_decode_packet_number_def rd_u8_def rd_mem_def Let_def)

lemma parse_length_pktno_parsed:
  assumes n: "0 < length (pi_buf pi)" "n = RQC_PACKET_HEADER_PKTNO_BYTES (pi_buf pi ! 0)" and e: "end \<le> length (pi_buf pi)"
    and r: "parse_length_pktno c pi pos end n = (r, pi')"
  shows "parsed pos end pi r pi'"
proof (cases "rqc_vint_read (pi_buf pi) pos end")
  case None
  then show ?thesis using r by (auto simp: parse_length_pktno_def)
next
  case (Some v)
  obtain len sz where v: "v = (len, sz)" by (cases v)
  note rd = Some [unfolded v]
  note sz = rqc_vint_read_Some [OF rd]
  define pi1 where "pi1 = pi\<lparr>pi_last := pos + sz + unat len,
    pi_pkt := (pi_pkt pi)\<lparr>pkt_length := len, pkt_num_offset := pos + sz\<rparr>\<rparr>"
  show ?thesis
  proof (cases "pos + sz + unat len \<le> end \<and> n \<le> unat len")
    case False
    then show ?thesis using r sz(3)
      by (auto simp: parse_length_pktno_def rd Let_def RQC_BUFF_LEFT_SIZE_def parsed_def split: if_splits)
  next
    case True
    then obtain pn where d: "rqc_packet_decode_packet_number c pi1 = Inr (pi1\<lparr>pi_pkt := (pi_pkt pi1)\<lparr>pkt_num := pn\<rparr>\<rparr>)"
      using decode_packet_number_ok [of pi1 c] n e by (auto simp: pi1_def)
    have left: "\<not> end - pos < sz + unat len" using True by linarith
    have "parse_length_pktno c pi pos end n = (Inr (), pi1\<lparr>pi_pkt := (pi_pkt pi1)\<lparr>pkt_num := pn\<rparr>, pi_pos := pos + sz + n\<rparr>)"
      using True sz(3) d left by (simp add: parse_length_pktno_def rd Let_def RQC_BUFF_LEFT_SIZE_def pi1_def)
    then show ?thesis using r True sz by (auto simp: parsed_def pi1_def)
  qed
qed

lemma short_header_parsed:
  assumes ok: "pi_ok pi" "pi_pos pi = 0" and wf: "cid_wf (user_scid (scid_set c))"
    and r: "rqc_packet_parse_short_header c pi = (r, c', pi')"
  shows "parsed 0 (pi_last pi) pi r pi'"
proof -
  let ?n = "cid_len (user_scid (scid_set c))" and ?pi = "set_type pi RQC_PTYPE_SHORT_HEADER"
  have keep: "parsed 0 (pi_last pi) pi (Err e) ?pi" for e by (simp add: parsed_def set_type_def)
  show ?thesis
  proof (cases "1 + ?n \<le> pi_last pi \<and> pi_buf pi ! 0 AND 0x40 \<noteq> 0")
    case False
    then show ?thesis
      using r ok keep by (auto simp: rqc_packet_parse_short_header_def Let_def RQC_BUFF_LEFT_SIZE_def rd_u8_def pi_ok_def
          set_type_def split: if_splits)
  next
    case True
    have u8: "rd_u8 ?pi 0 = Inr (pi_buf pi ! 0, 1)" using True ok by (auto simp: rd_u8_def set_type_def pi_ok_def)
    obtain d where mem: "rd_mem ?pi 1 ?n = Inr d" and dl: "length d = ?n"
      using True ok by (auto simp: rd_mem_def set_type_def pi_ok_def)
    let ?dcid = "rqc_cid_set (pkt_dcid (pi_pkt ?pi)) d ?n"
    obtain ret dcid c1 where chk: "rqc_conn_check_dcid c ?dcid = (ret, dcid, c1)" by (rule prod_cases3)
    have "cid_wf (pkt_dcid (pi_pkt pi)) \<Longrightarrow> cid_wf dcid"
      using rqc_conn_check_dcid_cases [OF chk] wf dl
      by (auto simp: cid_wf_def rqc_cid_set_def Let_def set_type_def split: if_splits)
    note keep2 = this
    let ?pi2 = "set_dcid ?pi dcid"
    obtain r1 pi1 where tail: "parse_length_pktno c1 ?pi2 (1 + ?n) (pi_last pi)
        (RQC_PACKET_HEADER_PKTNO_BYTES (pi_buf pi ! 0)) = (r1, pi1)" by (rule prod.exhaust)
    have p: "parsed (1 + ?n) (pi_last pi) ?pi2 r1 pi1"
      by (rule parse_length_pktno_parsed [OF _ _ _ tail])
        (use ok True in \<open>auto simp: set_type_def set_dcid_def pi_ok_def\<close>)
    have res: "rqc_packet_parse_short_header c pi =
        (if ret \<noteq> RQC_OK then (Err (- RQC_EILLPKT), c1, ?pi2)
         else (r1, case r1 of Inl e \<Rightarrow> c1 | Inr u \<Rightarrow> discard_vn c1, pi1))"
      unfolding rqc_packet_parse_short_header_def Let_def ok(2)
      using True u8 mem chk tail
      by (simp add: RQC_BUFF_LEFT_SIZE_def split: sum.splits)
    have "parsed 0 (pi_last pi) pi r1 pi1"
      using p by (rule parsed_trans) (use keep2 in \<open>simp_all add: set_type_def set_dcid_def\<close>)
    moreover have "parsed 0 (pi_last pi) pi (Err e) ?pi2" for e
      using keep2 by (auto simp: parsed_def set_type_def set_dcid_def)
    ultimately show ?thesis using r res by (auto split: if_splits)
  qed
qed

lemma parse_long_cids_parsed:
  assumes ok: "lst \<le> length (pi_buf pi)" "pos < lst" and r: "parse_long_cids pi pos lst = (r, pi')"
  shows "r \<noteq> Inl Fault \<and> pi_buf pi' = pi_buf pi \<and> pi_last pi' = pi_last pi \<and>
     (cid_wf (pkt_dcid (pi_pkt pi)) \<longrightarrow> (\<forall>q. r = Inr q \<longrightarrow> cid_wf (pkt_dcid (pi_pkt pi')))) \<and>
     (cid_wf (pkt_scid (pi_pkt pi)) \<longrightarrow> (\<forall>q. r = Inr q \<longrightarrow> cid_wf (pkt_scid (pi_pkt pi')))) \<and>
     (\<forall>q. r = Inr q \<longrightarrow> pos < q \<and> q \<le> lst)"
proof -
  let ?dl = "unat (pi_buf pi ! pos)"
  let ?sp = "pos + 1 + ?dl"
  let ?sl = "unat (pi_buf pi ! ?sp)"
  have u8: "rd_u8 pi pos = Inr (pi_buf pi ! pos, pos + 1)" using ok by (simp add: rd_u8_def)
  show ?thesis
  proof (cases "RQC_BUFF_LEFT_SIZE (pos + 1) lst < ?dl + 1 \<or> ?dl > 20")
    case True
    then show ?thesis using r u8 by (auto simp: parse_long_cids_def Let_def set_dcid_def)
  next
    case False
    then have fit: "?sp < lst" "?dl \<le> 20" by (auto simp: RQC_BUFF_LEFT_SIZE_def split: if_splits)
    show ?thesis
    proof (cases "RQC_BUFF_LEFT_SIZE (?sp + 1) lst < ?sl \<or> ?sl > 20")
      case True
      then show ?thesis using r u8 False fit ok
        by (auto simp: parse_long_cids_def Let_def set_dcid_def set_scid_def rd_u8_def rd_mem_def)
    next
      case s: False
      then have sfit: "?sp + 1 + ?sl \<le> lst" "?sl \<le> 20" using fit by (auto simp: RQC_BUFF_LEFT_SIZE_def split: if_splits)
      then show ?thesis using r u8 False fit s ok
        by (auto simp: parse_long_cids_def Let_def set_dcid_def set_scid_def rd_u8_def rd_mem_def cid_wf_def)
    qed
  qed
qed

lemma vn_collect_no_fault:
  "end \<le> length (pi_buf pi) \<Longrightarrow> vn_collect pi pos end vs \<noteq> Inl Fault"
proof (induction pi pos "end" vs rule: vn_collect.induct)
  case (1 pi pos e vs)
  show ?case
  proof (cases "RQC_BUFF_LEFT_SIZE pos e \<ge> 4")
    case True
    then have "pos + 4 \<le> e" by (auto simp: RQC_BUFF_LEFT_SIZE_def split: if_splits)
    then have "rd_mem pi pos 4 = Inr (take 4 (drop pos (pi_buf pi)))" using "1.prems" by (simp add: rd_mem_def)
    then show ?thesis using 1 True by (subst vn_collect.simps) simp
  qed (subst vn_collect.simps, simp)
qed

lemma version_negotiation_parsed:
  assumes "pi_ok pi" "rqc_packet_parse_version_negotiation c pi = (r, c', pi')"
  shows "r \<noteq> Inl Fault \<and> pi_buf pi' = pi_buf pi \<and> pi_last pi' = pi_last pi \<and>
    pkt_dcid (pi_pkt pi') = pkt_dcid (pi_pkt pi) \<and> pkt_scid (pi_pkt pi') = pkt_scid (pi_pkt pi) \<and>
    (r = Inr () \<longrightarrow> pi_pos pi' = pi_last pi)"
proof -
  have "vn_collect (set_type pi t) (pi_pos pi) (pi_last pi) [] \<noteq> Inl Fault" for t
    using assms(1) by (intro vn_collect_no_fault) (simp add: pi_ok_def set_type_def)
  then show ?thesis
    using assms(2)
    by (auto simp: rqc_packet_parse_version_negotiation_def Let_def set_type_def split: if_splits sum.splits option.splits)
qed

lemma check_cids_fields:
  assumes "check_cids c pi = (b, pi')"
  shows "pi_buf pi' = pi_buf pi \<and> pi_last pi' = pi_last pi \<and> pi_pos pi' = pi_pos pi \<and>
    cid_wf (pkt_dcid (pi_pkt pi')) = cid_wf (pkt_dcid (pi_pkt pi)) \<and> cid_wf (pkt_scid (pi_pkt pi')) = cid_wf (pkt_scid (pi_pkt pi))"
  using assms
  by (auto simp: check_cids_def Let_def set_dcid_def set_scid_def rqc_cid_set_search_cid_def dest!: search_sets_Some
      split: if_splits option.splits)

lemma initial_parsed:
  assumes "pi_ok pi" "0 < pi_last pi" "rqc_packet_parse_initial c pi = (r, c', pi')"
  shows "parsed (pi_pos pi) (pi_last pi) pi r pi'"
proof -
  have u8: "rd_u8 pi 0 = Inr (pi_buf pi ! 0, 1)" using assms by (auto simp: rd_u8_def pi_ok_def)
  obtain r1 pi1 where t: "parse_length_pktno c (set_type pi RQC_PTYPE_INIT) (pi_pos pi) (pi_last pi)
      (RQC_PACKET_HEADER_PKTNO_BYTES (pi_buf pi ! 0)) = (r1, pi1)" by (rule prod.exhaust)
  have "parsed (pi_pos pi) (pi_last pi) (set_type pi RQC_PTYPE_INIT) r1 pi1"
    by (rule parse_length_pktno_parsed [OF _ _ _ t]) (use assms in \<open>auto simp: pi_ok_def set_type_def\<close>)
  then have "parsed (pi_pos pi) (pi_last pi) pi r1 pi1"
    by (rule parsed_trans) (simp_all add: set_type_def)
  then show ?thesis using assms(3) u8 t by (simp add: rqc_packet_parse_initial_def Let_def)
qed

lemma long_body_parsed:
  assumes ok: "pi_ok pi" "0 < pi_pos pi" and r: "parse_long_body c pi version type = (r, c', pi')"
  shows "parsed 0 (pi_last pi) pi r pi'"
proof -
  obtain valid pi1 where v: "(if rqc_conn_is_dcid_done c then check_cids c pi else (True, pi)) = (valid, pi1)"
    by (rule prod.exhaust)
  have pi1: "pi_buf pi1 = pi_buf pi" "pi_last pi1 = pi_last pi" "pi_pos pi1 = pi_pos pi"
    "cid_wf (pkt_dcid (pi_pkt pi1)) = cid_wf (pkt_dcid (pi_pkt pi))" "cid_wf (pkt_scid (pi_pkt pi1)) = cid_wf (pkt_scid (pi_pkt pi))"
    using v check_cids_fields [of c pi valid pi1] by (auto split: if_splits)
  have ok1: "pi_ok pi1" "0 < pi_last pi1" using ok pi1 by (auto simp: pi_ok_def)
  obtain ret c1 where ver: "rqc_conn_version_check c version = (ret, c1)" by (rule prod.exhaust)
  have keep: "parsed 0 (pi_last pi) pi (Err e) pi1" for e using pi1 by (simp add: parsed_def)
  have ini: "parsed 0 (pi_last pi) pi r2 pi2" if "rqc_packet_parse_initial c1 pi1 = (r2, c2, pi2)" for r2 c2 pi2
    using initial_parsed [OF ok1 that] pi1 by (auto simp: parsed_def)
  have vn: "parsed 0 (pi_last pi) pi r2 pi2" if "rqc_packet_parse_version_negotiation c1 pi1 = (r2, c2, pi2)" for r2 c2 pi2
    using version_negotiation_parsed [OF ok1(1) that] pi1 ok by (auto simp: parsed_def pi_ok_def)
  show ?thesis
    using r keep ini vn
    by (auto simp: parse_long_body_def v ver Let_def split: if_splits sum.splits prod.splits)
qed

lemma long_header_parsed:
  assumes ok: "pi_ok pi" "pi_pos pi = 0" and r: "rqc_packet_parse_long_header c pi = (r, c', pi')"
    and wf: "cid_wf (pkt_dcid (pi_pkt pi))" "cid_wf (pkt_scid (pi_pkt pi))"
  shows "r \<noteq> Inl Fault \<and> pi_buf pi' = pi_buf pi \<and>
    (r = Inr () \<longrightarrow> parsed 0 (pi_last pi) pi r pi')"
proof (cases "RQC_BUFF_LEFT_SIZE 0 (pi_last pi) < 1 + 4 + 2")
  case True
  then show ?thesis using r ok by (auto simp: rqc_packet_parse_long_header_def Let_def)
next
  case False
  then have l: "7 \<le> pi_last pi" by (auto simp: RQC_BUFF_LEFT_SIZE_def split: if_splits)
  define b0 ver where "b0 = pi_buf pi ! 0" and "ver = take 4 (drop 1 (pi_buf pi))"
  have "7 \<le> length (pi_buf pi)" using l ok by (simp add: pi_ok_def)
  then have u8: "rd_u8 pi 0 = Inr (b0, 1)" and mem: "rd_mem pi 1 4 = Inr ver"
    by (auto simp: rd_u8_def rd_mem_def b0_def ver_def)
  obtain rc pi1 where cids: "parse_long_cids pi 5 (pi_last pi) = (rc, pi1)" by (rule prod.exhaust)
  have cp: "rc \<noteq> Inl Fault" "pi_buf pi1 = pi_buf pi" "pi_last pi1 = pi_last pi"
    "rc = Inr q \<Longrightarrow> cid_wf (pkt_dcid (pi_pkt pi1)) \<and> cid_wf (pkt_scid (pi_pkt pi1)) \<and> 5 < q \<and> q \<le> pi_last pi" for q
    using parse_long_cids_parsed [OF _ _ cids] l ok wf by (auto simp: pi_ok_def)
  have body: "parsed 0 (pi_last pi) pi r2 pi2"
    if "rc = Inr q" "parse_long_body c (pi1\<lparr>pi_pos := q\<rparr>) v t = (r2, c2, pi2)" for q v t r2 c2 pi2
    using long_body_parsed [OF _ _ that(2)] cp(2,3) cp(4) [OF that(1)] ok by (auto simp: parsed_def pi_ok_def)
  have keep: "parsed 0 (pi_last pi) pi (Err e) pi" for e by simp
  let ?v = "ucast (be_value ver) :: u32"
  let ?t = "if ?v = 0 then pkt_type_num RQC_PTYPE_VERSION_NEGOTIATION else unat (drop_bit 4 (b0 AND 0x30))"
  have eq: "rqc_packet_parse_long_header c pi =
      (if ?v = 0 \<and> conn_type c = RQC_CONN_TYPE_SERVER then (Err (- RQC_EILLPKT), c, pi)
       else if ?t \<noteq> pkt_type_num RQC_PTYPE_VERSION_NEGOTIATION \<and> b0 AND 0x40 = 0 then (Err (- RQC_EILLPKT), c, pi)
       else case rc of Inl e \<Rightarrow> (Inl e, c, pi1) | Inr pos \<Rightarrow> parse_long_body c (pi1\<lparr>pi_pos := pos\<rparr>) ?v ?t)"
    unfolding rqc_packet_parse_long_header_def Let_def ok(2)
    using False u8 mem cids by (simp split: sum.splits)
  show ?thesis
  proof (cases rc)
    case (Inl e)
    then show ?thesis using r eq cp(1,2) by (auto split: if_splits)
  next
    case (Inr q)
    then show ?thesis using r eq body [OF Inr] by (auto simp: parsed_def split: if_splits)
  qed
qed

text \<open>
  C40: Parsing the header of a packet from arbitrary bytes is memory safe: whatever the datagram and
  the state of the connection, no byte outside the datagram is read and no identifier is written
  past its array; and a packet that is accepted has a window of at least one header byte less,
  inside the datagram, so that the loop over a datagram makes progress.
\<close>

theorem header_parse_safe:
  assumes "cid_wf (user_scid (scid_set c))" "cid_wf (pkt_dcid (pi_pkt pi))" "cid_wf (pkt_scid (pi_pkt pi))"
    and "rqc_packet_parse_single c (rqc_packet_in_init pi buf now) = (r, c', pi')"
  shows "r \<noteq> Inl Fault \<and> pi_buf pi' = buf \<and>
    (r = Inr () \<longrightarrow> cid_wf (pkt_dcid (pi_pkt pi')) \<and> cid_wf (pkt_scid (pi_pkt pi')) \<and>
       0 < pi_pos pi' \<and> pi_pos pi' \<le> pi_last pi' \<and> pi_last pi' \<le> length buf)"
proof -
  let ?pi = "rqc_packet_in_init pi buf now"
  have pi: "pi_ok ?pi" "pi_pos ?pi = 0" "pi_last ?pi = length buf" "pi_buf ?pi = buf" "pi_pkt ?pi = pi_pkt pi"
    by (simp_all add: rqc_packet_in_init_def pi_ok_def)
  have sh: "parsed 0 (length buf) ?pi r2 pi2" if "rqc_packet_parse_short_header c ?pi = (r2, c2, pi2)" for r2 c2 pi2
    using short_header_parsed [OF pi(1,2) assms(1) that] pi(3) by simp
  have lh: "r2 \<noteq> Inl Fault \<and> pi_buf pi2 = buf \<and> (r2 = Inr () \<longrightarrow> parsed 0 (length buf) ?pi r2 pi2)"
    if "rqc_packet_parse_long_header c ?pi = (r2, c2, pi2)" for r2 c2 pi2
    using long_header_parsed [OF pi(1,2) that] assms(2,3) pi by simp
  have u8: "rd_u8 ?pi 0 = Inr (buf ! 0, 1)" if "buf \<noteq> []" using that pi by (simp add: rd_u8_def)
  consider (err) e where "r = Err e" "pi' = ?pi" | (short) "rqc_packet_parse_short_header c ?pi = (r, c', pi')"
    | (long) "rqc_packet_parse_long_header c ?pi = (r, c', pi')"
    using assms(4) u8 unfolding rqc_packet_parse_single_def pi(2,3)
    by (cases "buf = []") (auto simp: RQC_BUFF_LEFT_SIZE_def split: if_splits)
  then show ?thesis
  proof cases
    case err
    then show ?thesis using pi by simp
  next
    case short
    from sh [OF this] show ?thesis using assms(2,3) pi(4,5) by (auto simp: parsed_def)
  next
    case long
    from lh [OF this] show ?thesis using assms(2,3) pi(4,5) by (auto simp: parsed_def)
  qed
qed

subsection \<open>A concrete exchange\<close>

definition ex_cid3 :: rqc_cid where
  "ex_cid3 = \<lparr>cid_len = 3, cid_buf = [7, 8, 9] @ replicate 17 0, cid_seq_num = 0, cid_path_id = 0\<rparr>"

definition ex_conn :: "rqc_conn_type \<Rightarrow> nat \<Rightarrow> u64 \<Rightarrow> rqc_conn_hdr" where
  "ex_conn t ver fl = \<lparr>conn_type = t, conn_state = RQC_CONN_STATE_CLIENT_HANDSHAKE, conn_version = ver, hdr_flag = fl,
     discard_vn_flag = False, original_dcid = ex_cid 1, scid_set = ex_sets\<lparr>user_scid := ex_cid3\<rparr>,
     dcid_set = ex_sets\<lparr>user_scid := ex_cid 1\<rparr>, path_recv_record = None,
     support_version_list = [1, 0xFF00001D], support_version_count = 2\<rparr>"

definition ex_po :: "rqc_pkt_type \<Rightarrow> rqc_packet_out" where
  "ex_po t = \<lparr>po_pkt = \<lparr>pkt_num = 0, pkt_type = t, pkt_dcid = zero_cid, pkt_scid = zero_cid, pkt_length = 0, pkt_num_offset = 0\<rparr>,
     po_buf = replicate 1452 0, po_ppktno = None, po_payload = None, po_padding = None, po_buf_size = 1200, po_used_size = 0,
     po_ack_offset = 0, po_flag = 0, po_largest_ack = 0, po_frame_types = 0,
     po_stream_frames = replicate 3 \<lparr>ps_stream_id = 0, ps_offset = 0, ps_length = 0, ps_type_offset = 0, ps_length_offset = 0,
       ps_is_used = False, ps_has_fin = False, ps_is_reset = False\<rparr>, po_stream_frames_idx = 0\<rparr>"

definition ex_pi :: rqc_packet_in where
  "ex_pi = \<lparr>pi_pkt = po_pkt (ex_po RQC_PTYPE_INIT), pi_buf = [], pi_pos = 0, pi_last = 0, pkt_recv_time = 0, pi_frame_types = 0\<rparr>"

lemma ex_po_simps [simp]:
  "po_ok (ex_po t)" "po_used_size (ex_po t) = 0" "pkt_type (po_pkt (ex_po t)) = t" "po_buf_size (ex_po t) = 1200"
  "cid_wf (ex_cid b)" "cid_wf ex_cid3" "cid_len (ex_cid b) = 1" "cid_len ex_cid3 = 3"
  "cid_wf (pkt_dcid (pi_pkt ex_pi))" "cid_wf (pkt_scid (pi_pkt ex_pi))"
  by (simp_all add: po_ok_def ex_po_def cid_wf_def ex_cid_def ex_cid3_def ex_pi_def zero_cid_def)

lemma ex_conn_simps [simp]:
  "user_scid (scid_set (ex_conn t v fl)) = ex_cid3" "user_scid (dcid_set (ex_conn t v fl)) = ex_cid 1"
  "conn_version (ex_conn t v fl) = v" "conn_type (ex_conn t v fl) = t" "largest_seen (ex_conn t v fl) = 0"
  by (simp_all add: ex_conn_def largest_seen_def)

lemma sets_ok_user_scid: "sets_ok (cs\<lparr>user_scid := d\<rparr>) = sets_ok cs"
  by (simp add: sets_ok_def)

theorem short_header_roundtrip_witness:
  "\<exists>po1 po2 c' pi'. rqc_write_packet_header (ex_conn RQC_CONN_TYPE_SERVER 1 0xA) (ex_po RQC_PTYPE_SHORT_HEADER) = (Inr (), po1) \<and>
    rqc_encode_packet_with_pn 5 (ex_cid 1) (append_payload po1 [1, 1, 1]) = Inr (6, po2) \<and>
    rqc_packet_parse_single (ex_conn RQC_CONN_TYPE_CLIENT 1 0xA\<lparr>scid_set := ex_sets\<lparr>user_scid := ex_cid 1\<rparr>\<rparr>)
      (rqc_packet_in_init ex_pi (take (po_used_size po2) (po_buf po2)) 0) = (Inr (), c', pi') \<and>
    drop (pi_pos pi') (take (pi_last pi') (pi_buf pi')) = [1, 1, 1] \<and> pkt_num (pi_pkt pi') = 5"
proof -
  let ?c = "ex_conn RQC_CONN_TYPE_CLIENT 1 0xA\<lparr>scid_set := ex_sets\<lparr>user_scid := ex_cid 1\<rparr>\<rparr>"
  have "rqc_cid_set_search_cid (ex_sets\<lparr>user_scid := ex_cid 1\<rparr>) (ex_cid 1) \<noteq> None" by code_simp
  then have acc: "accepts_short ?c (ex_cid 1)"
    by (simp add: accepts_short_def sets_ok_user_scid cid_reach_ok [OF ex_sets_reach] rqc_conn_is_handshake_done_def)
      (simp add: ex_conn_def)
  have "largest_seen ?c = 0" by (simp add: largest_seen_def ex_conn_def)
  then have win: "in_pn_window (largest_seen ?c) 5" by (simp add: in_pn_window_def)
  show ?thesis
    using short_header_roundtrip [where po = "ex_po RQC_PTYPE_SHORT_HEADER" and a = "ex_conn RQC_CONN_TYPE_SERVER 1 0xA"
        and payload = "[1, 1, 1]" and now = 0, OF _ _ _ _ _ _ _ acc win, of ex_pi]
    by (simp, blast)
qed

theorem initial_header_roundtrip_witness:
  "\<exists>po1 po2 c' pi'. rqc_write_packet_header (ex_conn RQC_CONN_TYPE_CLIENT 1 0) (ex_po RQC_PTYPE_INIT) = (Inr (), po1) \<and>
    rqc_encode_packet_with_pn 0 (ex_cid 1) (append_payload po1 [8, 0]) = Inr (1, po2) \<and>
    rqc_packet_parse_single (ex_conn RQC_CONN_TYPE_SERVER 0 0)
      (rqc_packet_in_init ex_pi (take (po_used_size po2) (po_buf po2)) 0) = (Inr (), c', pi') \<and>
    drop (pi_pos pi') (take (pi_last pi') (pi_buf pi')) = [8, 0] \<and> conn_version c' = 1 \<and>
    same_cid (pkt_dcid (pi_pkt pi')) (ex_cid 1) \<and> same_cid (pkt_scid (pi_pkt pi')) ex_cid3"
proof -
  let ?c = "ex_conn RQC_CONN_TYPE_SERVER 0 0"
  have acc: "accepts_initial ?c 1"
    by (simp add: accepts_initial_def rqc_conn_is_dcid_done_def rqc_uint32_list_find_def rqc_proto_version_value_def)
      (simp add: ex_conn_def)
  have win: "in_pn_window (largest_seen ?c) 0" by (simp add: in_pn_window_def)
  show ?thesis
    using initial_header_roundtrip [where po = "ex_po RQC_PTYPE_INIT" and a = "ex_conn RQC_CONN_TYPE_CLIENT 1 0" and c = ?c
        and payload = "[8, 0]" and now = 0 and pn = 0 and pi = ex_pi and path_dcid = "ex_cid 1"] acc win
    by (simp add: valid_versions) blast
qed

theorem header_parse_safe_witness:
  "fst (rqc_packet_parse_single (ex_conn RQC_CONN_TYPE_SERVER 0 0) (rqc_packet_in_init ex_pi [0xC3, 0, 0, 0, 1, 200] 0)) \<noteq> Inl Fault"
proof -
  obtain r c' pi' where "rqc_packet_parse_single (ex_conn RQC_CONN_TYPE_SERVER 0 0)
      (rqc_packet_in_init ex_pi [0xC3, 0, 0, 0, 1, 200] 0) = (r, c', pi')" by (rule prod_cases3)
  then show ?thesis using header_parse_safe [of "ex_conn RQC_CONN_TYPE_SERVER 0 0" ex_pi] by simp
qed

end
