(* ===== verification/Rqc_Stream.thy ===== *)
theory Rqc_Stream
  imports Rqc_Stream_In Rqc_Id_Hash Rqc_Packet_Header
begin

text \<open>
  Streams of a connection: \<open>src/transport/rqc_stream.{h,c}\<close>, their flow control, creation and
  reading, and the frame writers of \<open>src/transport/rqc_packet_out.c\<close> they call.

  \<open>rqc_conn_streams\<close> holds the fields of \<open>rqc_connection_t\<close> that this code reads and writes. A function
  on a \<open>rqc_stream_t *\<close> also reaches the connection through \<open>stream_conn\<close>, so it takes and returns
  the pair of both; \<open>put_stream\<close> stores the stream back under its identifier.
  \<^item> \<open>streams_hash\<close> and \<open>passive_streams_hash\<close> are the maps that the tables of \<open>Rqc_Id_Hash\<close> implement;
    the second only tells whether an identifier is in it. Lists of streams are lists of identifiers.
  \<^item> \<open>sndq_ops\<close> is the trace of what is handed to the send queue: a control frame in a packet of its
    own, or the order to drop the packets of a stream.
  \<^item> \<open>conn_active\<close> says that the connection was moved from the wake-up to the active queue.
  \<^item> The time, the smoothed round-trip time and the probe timeout of the path are in \<open>stream_env\<close>, and
    the result of the application's \<open>stream_create_notify\<close> is an argument.
  Statistics, log and the notification of the application are left out.
\<close>

abbreviation (input) "RQC_EAGAIN \<equiv> (611 :: int)"
abbreviation (input) "RQC_CLOSING \<equiv> (608 :: int)"
abbreviation (input) "RQC_ESTREAM_RESET \<equiv> (623 :: int)"
abbreviation (input) "RQC_ECONN_BLOCKED \<equiv> (618 :: int)"
abbreviation (input) "RQC_ESTREAM_BLOCKED \<equiv> (619 :: int)"
abbreviation (input) "RQC_UNDEFINE_STREAM_ID \<equiv> (0xFFFFFFFFFFFFFFFF :: u64)"
abbreviation (input) "RQC_MAX_STREAMS \<equiv> (0x1000000000000000 :: u64)"
abbreviation (input) "RQC_MIN_RECV_WINDOW \<equiv> (63000 :: u64)"
abbreviation (input) "RQC_MAX_RECV_WINDOW \<equiv> (4194304 :: u64)"

abbreviation (input) "TRA_INTERNAL_ERROR \<equiv> (0x1 :: u64)"
abbreviation (input) "TRA_FLOW_CONTROL_ERROR \<equiv> (0x3 :: u64)"
abbreviation (input) "TRA_STREAM_LIMIT_ERROR \<equiv> (0x4 :: u64)"
abbreviation (input) "TRA_FINAL_SIZE_ERROR \<equiv> (0x6 :: u64)"

subsection \<open>States and types of a stream\<close>

datatype rqc_stream_type = RQC_CLI_BID | RQC_SVR_BID | RQC_CLI_UNI | RQC_SVR_UNI

fun stream_type_val :: "rqc_stream_type \<Rightarrow> u64" where
  "stream_type_val RQC_CLI_BID = 0"
| "stream_type_val RQC_SVR_BID = 1"
| "stream_type_val RQC_CLI_UNI = 2"
| "stream_type_val RQC_SVR_UNI = 3"

definition rqc_get_stream_type :: "u64 \<Rightarrow> rqc_stream_type" where
  "rqc_get_stream_type stream_id =
     (let t = stream_id AND 0x03 in
      if t = 0 then RQC_CLI_BID else if t = 1 then RQC_SVR_BID else if t = 2 then RQC_CLI_UNI else RQC_SVR_UNI)"

definition rqc_stream_is_bidi :: "u64 \<Rightarrow> bool" where
  "rqc_stream_is_bidi stream_id \<longleftrightarrow> stream_id = 0 \<or> stream_id AND 0x02 = 0"

definition rqc_stream_is_uni :: "u64 \<Rightarrow> bool" where
  "rqc_stream_is_uni stream_id \<longleftrightarrow> stream_id AND 0x02 \<noteq> 0"

datatype rqc_send_stream_state = RQC_SEND_STREAM_ST_READY | RQC_SEND_STREAM_ST_SEND | RQC_SEND_STREAM_ST_DATA_SENT
  | RQC_SEND_STREAM_ST_DATA_RECVD | RQC_SEND_STREAM_ST_RESET_SENT | RQC_SEND_STREAM_ST_RESET_RECVD

datatype rqc_recv_stream_state = RQC_RECV_STREAM_ST_RECV | RQC_RECV_STREAM_ST_SIZE_KNOWN | RQC_RECV_STREAM_ST_DATA_RECVD
  | RQC_RECV_STREAM_ST_DATA_READ | RQC_RECV_STREAM_ST_RESET_RECVD | RQC_RECV_STREAM_ST_RESET_READ

text \<open>The code compares the states as numbers; the enumerations are ordered as they are listed.\<close>

fun send_state_val :: "rqc_send_stream_state \<Rightarrow> nat" where
  "send_state_val RQC_SEND_STREAM_ST_READY = 0"
| "send_state_val RQC_SEND_STREAM_ST_SEND = 1"
| "send_state_val RQC_SEND_STREAM_ST_DATA_SENT = 2"
| "send_state_val RQC_SEND_STREAM_ST_DATA_RECVD = 3"
| "send_state_val RQC_SEND_STREAM_ST_RESET_SENT = 4"
| "send_state_val RQC_SEND_STREAM_ST_RESET_RECVD = 5"

fun recv_state_val :: "rqc_recv_stream_state \<Rightarrow> nat" where
  "recv_state_val RQC_RECV_STREAM_ST_RECV = 0"
| "recv_state_val RQC_RECV_STREAM_ST_SIZE_KNOWN = 1"
| "recv_state_val RQC_RECV_STREAM_ST_DATA_RECVD = 2"
| "recv_state_val RQC_RECV_STREAM_ST_DATA_READ = 3"
| "recv_state_val RQC_RECV_STREAM_ST_RESET_RECVD = 4"
| "recv_state_val RQC_RECV_STREAM_ST_RESET_READ = 5"

lemma send_state_val_inj: "send_state_val a = send_state_val b \<Longrightarrow> a = b"
  by (cases a; cases b) simp_all

lemma recv_state_val_inj: "recv_state_val a = recv_state_val b \<Longrightarrow> a = b"
  by (cases a; cases b) simp_all

instantiation rqc_send_stream_state :: linorder
begin

definition less_eq_rqc_send_stream_state :: "rqc_send_stream_state \<Rightarrow> rqc_send_stream_state \<Rightarrow> bool" where
  "less_eq_rqc_send_stream_state a b \<longleftrightarrow> send_state_val a \<le> send_state_val b"

definition less_rqc_send_stream_state :: "rqc_send_stream_state \<Rightarrow> rqc_send_stream_state \<Rightarrow> bool" where
  "less_rqc_send_stream_state a b \<longleftrightarrow> send_state_val a < send_state_val b"

instance
  by standard (auto simp: less_eq_rqc_send_stream_state_def less_rqc_send_stream_state_def intro: send_state_val_inj)

end

instantiation rqc_recv_stream_state :: linorder
begin

definition less_eq_rqc_recv_stream_state :: "rqc_recv_stream_state \<Rightarrow> rqc_recv_stream_state \<Rightarrow> bool" where
  "less_eq_rqc_recv_stream_state a b \<longleftrightarrow> recv_state_val a \<le> recv_state_val b"

definition less_rqc_recv_stream_state :: "rqc_recv_stream_state \<Rightarrow> rqc_recv_stream_state \<Rightarrow> bool" where
  "less_rqc_recv_stream_state a b \<longleftrightarrow> recv_state_val a < recv_state_val b"

instance
  by standard (auto simp: less_eq_rqc_recv_stream_state_def less_rqc_recv_stream_state_def intro: recv_state_val_inj)

end

lemmas stream_state_order = less_eq_rqc_send_stream_state_def less_rqc_send_stream_state_def
  less_eq_rqc_recv_stream_state_def less_rqc_recv_stream_state_def

subsection \<open>Data\<close>

abbreviation (input) "RQC_STREAM_FLAG_READY_TO_WRITE \<equiv> (0x1 :: u32)"
abbreviation (input) "RQC_STREAM_FLAG_READY_TO_READ \<equiv> (0x2 :: u32)"
abbreviation (input) "RQC_STREAM_FLAG_DATA_BLOCKED \<equiv> (0x4 :: u32)"
abbreviation (input) "RQC_STREAM_FLAG_NEED_CLOSE \<equiv> (0x8 :: u32)"
abbreviation (input) "RQC_STREAM_FLAG_FIN_WRITE \<equiv> (0x10 :: u32)"
abbreviation (input) "RQC_STREAM_FLAG_DISCARDED \<equiv> (0x80 :: u32)"
abbreviation (input) "RQC_STREAM_FLAG_APP_CLOSED \<equiv> (0x100 :: u32)"

abbreviation (input) "RQC_CONN_FLAG_ERROR \<equiv> (0x80 :: u64)"
abbreviation (input) "RQC_CONN_FLAG_DATA_BLOCKED \<equiv> (0x100 :: u64)"
abbreviation (input) "RQC_CONN_FLAG_CLOSING_NOTIFY \<equiv> (0x4000 :: u64)"

record rqc_stream_flow_ctl =
  fc_max_stream_data_can_send :: u64
  fc_max_stream_data_can_recv :: u64
  fc_stream_recv_window_size :: u64
  fc_stream_last_window_update_time :: u64

record rqc_stream_atomic_ctx =
  fixed_buf :: "byte list"
  dynamic_buf :: "byte list option"
  pending_len :: nat
  pending_offset :: nat
  atomic_fin :: bool
  atomic_flush :: bool

record rqc_stream =
  stream_id :: u64
  stream_type :: rqc_stream_type
  stream_flow_ctl :: rqc_stream_flow_ctl
  stream_send_offset :: u64
  stream_max_recv_offset :: u64
  stream_flag :: u32
  stream_data_in :: rqc_stream_data_in
  stream_state_send :: rqc_send_stream_state
  stream_state_recv :: rqc_recv_stream_state
  stream_close_time :: u64
  stream_err :: u64
  recv_rate_bytes_per_sec :: u64
  atomic_ctx :: "rqc_stream_atomic_ctx option"

record rqc_trans_settings =
  max_data :: u64
  max_stream_data_bidi_local :: u64
  max_stream_data_bidi_remote :: u64
  max_stream_data_uni :: u64
  max_streams_bidi :: u64
  max_streams_uni :: u64

record rqc_conn_flow_ctl =
  fc_max_data_can_send :: u64
  fc_data_sent :: u64
  fc_max_data_can_recv :: u64
  fc_data_recved :: u64
  fc_data_read :: u64
  fc_max_streams_bidi_can_send :: u64
  fc_max_streams_bidi_can_recv :: u64
  fc_max_streams_uni_can_send :: u64
  fc_max_streams_uni_can_recv :: u64
  fc_recv_windows_size :: u64
  fc_last_window_update_time :: u64

datatype sndq_op = Sq_Frame rqc_ctrl_frame | Sq_Drop_Stream u64

record rqc_conn_streams =
  c_conn_type :: rqc_conn_type
  c_conn_state :: rqc_conn_state
  c_conn_flag :: u64
  c_conn_err :: u64
  streams_hash :: "u64 \<rightharpoonup> rqc_stream"
  passive_streams_hash :: "u64 set"
  conn_write_streams :: "u64 list"
  conn_read_streams :: "u64 list"
  conn_closing_streams :: "u64 list"
  conn_all_streams :: "u64 list"
  cur_stream_id_bidi_local :: u64
  cur_stream_id_uni_local :: u64
  max_stream_id_bidi_remote :: int
  max_stream_id_uni_remote :: int
  local_settings :: rqc_trans_settings
  remote_settings :: rqc_trans_settings
  conn_flow_ctl :: rqc_conn_flow_ctl
  init_recv_window :: u64
  conn_recv_rate_bytes_per_sec :: u64
  enable_stream_rate_limit :: bool
  pkt_out_size :: u64
  stream_close_timer :: "u64 option"
  finished_streams :: u32
  cli_bidi_streams :: u32
  svr_bidi_streams :: u32
  sndq_ops :: "sndq_op list"
  conn_active :: bool

text \<open>\<open>env_srtt\<close> and \<open>env_pto\<close> are those of the path when it is active, \<open>None\<close> otherwise.\<close>

record stream_env =
  env_now :: u64
  env_srtt :: "u64 option"
  env_pto :: "u64 option"
  env_running :: bool

type_synonym conn_stream = "rqc_conn_streams \<times> rqc_stream"

definition put_stream :: "conn_stream \<Rightarrow> rqc_conn_streams" where
  "put_stream cs = (case cs of (c, s) \<Rightarrow> c\<lparr>streams_hash := (streams_hash c)(stream_id s \<mapsto> s)\<rparr>)"

definition conn_error :: "u64 \<Rightarrow> rqc_conn_streams \<Rightarrow> rqc_conn_streams" where
  "conn_error err c =
     (if c_conn_err c = 0
      then c\<lparr>c_conn_err := err, c_conn_flag := c_conn_flag c OR RQC_CONN_FLAG_ERROR OR RQC_CONN_FLAG_CLOSING_NOTIFY\<rparr>
      else c)"

definition conn_is_closing :: "rqc_conn_streams \<Rightarrow> bool" where
  "conn_is_closing c \<longleftrightarrow> c_conn_state c \<in> {RQC_CONN_STATE_CLOSING, RQC_CONN_STATE_DRAINING, RQC_CONN_STATE_CLOSED}"

definition rqc_conn_get_max_pto :: "stream_env \<Rightarrow> u64" where
  "rqc_conn_get_max_pto env = (case env_pto env of Some pto \<Rightarrow> pto | None \<Rightarrow> 0)"

definition rqc_conn_get_min_srtt :: "stream_env \<Rightarrow> u64" where
  "rqc_conn_get_min_srtt env = (case env_srtt env of Some srtt \<Rightarrow> srtt | None \<Rightarrow> 0xFFFFFFFFFFFFFFFF)"

definition rqc_conn_get_max_srtt :: "stream_env \<Rightarrow> u64" where
  "rqc_conn_get_max_srtt env = (case env_srtt env of Some srtt \<Rightarrow> srtt | None \<Rightarrow> 0)"

definition upd_flag :: "(u32 \<Rightarrow> u32) \<Rightarrow> rqc_stream \<Rightarrow> rqc_stream" where
  "upd_flag f s = s\<lparr>stream_flag := f (stream_flag s)\<rparr>"

definition has_flag :: "u32 \<Rightarrow> rqc_stream \<Rightarrow> bool" where
  "has_flag fl s \<longleftrightarrow> stream_flag s AND fl \<noteq> 0"

subsection \<open>Frames handed to the send queue\<close>

definition emit :: "sndq_op \<Rightarrow> rqc_conn_streams \<Rightarrow> rqc_conn_streams" where
  "emit e c = c\<lparr>sndq_ops := sndq_ops c @ [e]\<rparr>"

definition rqc_write_max_data_to_packet :: "rqc_conn_streams \<Rightarrow> u64 \<Rightarrow> rqc_conn_streams" where
  "rqc_write_max_data_to_packet c limit = emit (Sq_Frame (Max_Data limit)) c"

definition rqc_write_max_stream_data_to_packet :: "rqc_conn_streams \<Rightarrow> u64 \<Rightarrow> u64 \<Rightarrow> rqc_conn_streams" where
  "rqc_write_max_stream_data_to_packet c sid limit = emit (Sq_Frame (Max_Stream_Data sid limit)) c"

definition rqc_write_data_blocked_to_packet :: "rqc_conn_streams \<Rightarrow> u64 \<Rightarrow> rqc_conn_streams" where
  "rqc_write_data_blocked_to_packet c limit = emit (Sq_Frame (Data_Blocked limit)) c"

definition rqc_write_stream_data_blocked_to_packet :: "rqc_conn_streams \<Rightarrow> u64 \<Rightarrow> u64 \<Rightarrow> rqc_conn_streams" where
  "rqc_write_stream_data_blocked_to_packet c sid limit = emit (Sq_Frame (Stream_Data_Blocked sid limit)) c"

definition rqc_write_streams_blocked_to_packet :: "rqc_conn_streams \<Rightarrow> u64 \<Rightarrow> bool \<Rightarrow> rqc_conn_streams" where
  "rqc_write_streams_blocked_to_packet c limit bidirectional = emit (Sq_Frame (Streams_Blocked limit bidirectional)) c"

definition rqc_write_max_streams_to_packet :: "rqc_conn_streams \<Rightarrow> u64 \<Rightarrow> bool \<Rightarrow> int \<times> rqc_conn_streams" where
  "rqc_write_max_streams_to_packet c max_stream bidirectional =
     (if max_stream > RQC_MAX_STREAMS then (- RQC_EPARAM, c)
      else (RQC_OK, emit (Sq_Frame (Max_Streams max_stream bidirectional)) c))"

definition rqc_stream_atomic_clear_pending :: "rqc_stream \<Rightarrow> rqc_stream" where
  "rqc_stream_atomic_clear_pending s =
     s\<lparr>atomic_ctx := map_option (\<lambda>ctx. ctx\<lparr>dynamic_buf := None, pending_len := 0, pending_offset := 0,
         atomic_fin := False, atomic_flush := False\<rparr>) (atomic_ctx s)\<rparr>"

definition rqc_stream_has_atomic_pending :: "rqc_stream \<Rightarrow> bool" where
  "rqc_stream_has_atomic_pending s =
     (case atomic_ctx s of None \<Rightarrow> False | Some ctx \<Rightarrow> pending_offset ctx < pending_len ctx)"

definition rqc_stream_send_state_update :: "rqc_send_stream_state \<Rightarrow> rqc_stream \<Rightarrow> rqc_stream" where
  "rqc_stream_send_state_update st s =
     (let s = s\<lparr>stream_state_send := st\<rparr>
      in if st \<ge> RQC_SEND_STREAM_ST_RESET_SENT then rqc_stream_atomic_clear_pending s else s)"

definition rqc_stream_recv_state_update :: "rqc_recv_stream_state \<Rightarrow> rqc_stream \<Rightarrow> rqc_stream" where
  "rqc_stream_recv_state_update st s = s\<lparr>stream_state_recv := st\<rparr>"

definition rqc_write_reset_stream_to_packet :: "u64 \<Rightarrow> u64 \<Rightarrow> conn_stream \<Rightarrow> conn_stream" where
  "rqc_write_reset_stream_to_packet err_code final_size cs =
     (case cs of (c, s) \<Rightarrow>
        (emit (Sq_Frame (Reset_Stream (stream_id s) err_code final_size)) c,
         let s = s\<lparr>stream_err := err_code\<rparr> in
         if stream_state_send s < RQC_SEND_STREAM_ST_RESET_SENT
         then rqc_stream_send_state_update RQC_SEND_STREAM_ST_RESET_SENT s else s))"

definition rqc_write_stop_sending_to_packet :: "u64 \<Rightarrow> conn_stream \<Rightarrow> conn_stream" where
  "rqc_write_stop_sending_to_packet err_code cs =
     (case cs of (c, s) \<Rightarrow>
        if stream_state_recv s \<ge> RQC_RECV_STREAM_ST_DATA_RECVD then (c, s)
        else (emit (Sq_Frame (Stop_Sending (stream_id s) err_code)) c, s))"

subsection \<open>Readiness and closing\<close>

definition engine_activate :: "rqc_conn_streams \<Rightarrow> rqc_conn_streams" where
  "engine_activate c = c\<lparr>conn_active := True\<rparr>"

definition rqc_stream_ready_to_write :: "conn_stream \<Rightarrow> conn_stream" where
  "rqc_stream_ready_to_write cs = (case cs of (c, s) \<Rightarrow>
     if \<not> has_flag RQC_STREAM_FLAG_READY_TO_WRITE s
     then (engine_activate (c\<lparr>conn_write_streams := conn_write_streams c @ [stream_id s]\<rparr>),
           upd_flag (\<lambda>f. f OR RQC_STREAM_FLAG_READY_TO_WRITE) s)
     else (engine_activate c, s))"

definition rqc_stream_shutdown_write :: "conn_stream \<Rightarrow> conn_stream" where
  "rqc_stream_shutdown_write cs = (case cs of (c, s) \<Rightarrow>
     if has_flag RQC_STREAM_FLAG_READY_TO_WRITE s
     then (c\<lparr>conn_write_streams := remove1 (stream_id s) (conn_write_streams c)\<rparr>,
           upd_flag (\<lambda>f. f AND NOT RQC_STREAM_FLAG_READY_TO_WRITE) s)
     else (c, s))"

definition rqc_stream_ready_to_read :: "conn_stream \<Rightarrow> conn_stream" where
  "rqc_stream_ready_to_read cs = (case cs of (c, s) \<Rightarrow>
     if \<not> has_flag RQC_STREAM_FLAG_READY_TO_READ s
     then (engine_activate (c\<lparr>conn_read_streams := conn_read_streams c @ [stream_id s]\<rparr>),
           upd_flag (\<lambda>f. f OR RQC_STREAM_FLAG_READY_TO_READ) s)
     else (engine_activate c, s))"

definition rqc_stream_shutdown_read :: "conn_stream \<Rightarrow> conn_stream" where
  "rqc_stream_shutdown_read cs = (case cs of (c, s) \<Rightarrow>
     if has_flag RQC_STREAM_FLAG_READY_TO_READ s
     then (c\<lparr>conn_read_streams := remove1 (stream_id s) (conn_read_streams c)\<rparr>,
           upd_flag (\<lambda>f. f AND NOT RQC_STREAM_FLAG_READY_TO_READ) s)
     else (c, s))"

text \<open>Which sides of a stream the endpoint uses.\<close>

definition is_bid :: "rqc_stream_type \<Rightarrow> bool" where
  "is_bid t \<longleftrightarrow> t = RQC_CLI_BID \<or> t = RQC_SVR_BID"

definition uni_send_side :: "rqc_conn_type \<Rightarrow> rqc_stream_type \<Rightarrow> bool" where
  "uni_send_side ct t \<longleftrightarrow> t = RQC_CLI_UNI \<and> ct = RQC_CONN_TYPE_CLIENT \<or> t = RQC_SVR_UNI \<and> ct = RQC_CONN_TYPE_SERVER"

definition rqc_stream_is_terminal_state :: "conn_stream \<Rightarrow> bool" where
  "rqc_stream_is_terminal_state cs = (case cs of (c, s) \<Rightarrow>
     let sent = stream_state_send s = RQC_SEND_STREAM_ST_DATA_RECVD \<or> stream_state_send s = RQC_SEND_STREAM_ST_RESET_RECVD;
         recvd = stream_state_recv s = RQC_RECV_STREAM_ST_DATA_READ \<or> stream_state_recv s = RQC_RECV_STREAM_ST_RESET_READ
     in if is_bid (stream_type s) then sent \<and> recvd
        else if uni_send_side (c_conn_type c) (stream_type s) then sent
        else recvd)"

definition rqc_is_stream_finished :: "conn_stream \<Rightarrow> bool" where
  "rqc_is_stream_finished cs = (case cs of (c, s) \<Rightarrow>
     let sent = stream_state_send s = RQC_SEND_STREAM_ST_DATA_RECVD;
         recvd = stream_state_recv s = RQC_RECV_STREAM_ST_DATA_READ
     in if is_bid (stream_type s) then sent \<and> recvd
        else if uni_send_side (c_conn_type c) (stream_type s) then sent
        else recvd)"

text \<open>The common tail of closing: the flag, the connection's close timer, the closing list.\<close>

definition schedule_close :: "stream_env \<Rightarrow> conn_stream \<Rightarrow> conn_stream" where
  "schedule_close env cs = (case cs of (c, s) \<Rightarrow>
     let s = upd_flag (\<lambda>f. f OR RQC_STREAM_FLAG_NEED_CLOSE) s;
         new_expire = env_now env + 3 * rqc_conn_get_max_pto env;
         c = (if (case stream_close_timer c of Some expire \<Rightarrow> new_expire < expire | None \<Rightarrow> True)
              then c\<lparr>stream_close_timer := Some new_expire\<rparr> else c);
         s = s\<lparr>stream_close_time := new_expire\<rparr>;
         c = c\<lparr>conn_closing_streams := conn_closing_streams c @ [stream_id s]\<rparr>
     in rqc_stream_shutdown_write (rqc_stream_shutdown_read (c, s)))"

definition rqc_stream_maybe_need_close :: "stream_env \<Rightarrow> conn_stream \<Rightarrow> conn_stream" where
  "rqc_stream_maybe_need_close env cs =
     (if has_flag RQC_STREAM_FLAG_NEED_CLOSE (snd cs) then cs
      else if rqc_stream_is_terminal_state cs then schedule_close env cs else cs)"

definition rqc_stream_close_discarded_stream :: "stream_env \<Rightarrow> conn_stream \<Rightarrow> conn_stream" where
  "rqc_stream_close_discarded_stream env cs =
     (if has_flag RQC_STREAM_FLAG_NEED_CLOSE (snd cs) then cs else schedule_close env cs)"

definition rqc_destroy_frame_list :: "rqc_stream \<Rightarrow> rqc_stream" where
  "rqc_destroy_frame_list s = s\<lparr>stream_data_in := (stream_data_in s)\<lparr>frames_tailq := []\<rparr>\<rparr>"

definition rqc_destroy_stream :: "conn_stream \<Rightarrow> rqc_conn_streams" where
  "rqc_destroy_stream cs = (case cs of (c, s) \<Rightarrow>
     let c = (if rqc_is_stream_finished (c, s) then c\<lparr>finished_streams := finished_streams c + 1\<rparr> else c);
         c = c\<lparr>conn_all_streams := remove1 (stream_id s) (conn_all_streams c),
               streams_hash := (streams_hash c)(stream_id s := None),
               passive_streams_hash := passive_streams_hash c - {stream_id s}\<rparr>
     in fst (rqc_stream_shutdown_read (rqc_stream_shutdown_write (c, s))))"

subsection \<open>Flow control\<close>

definition zero_settings :: "rqc_trans_settings \<Rightarrow> bool" where
  "zero_settings rs \<longleftrightarrow> max_stream_data_bidi_remote rs = 0 \<or> max_stream_data_bidi_local rs = 0 \<or> max_stream_data_uni rs = 0"

definition set_limits :: "u64 \<Rightarrow> u64 \<Rightarrow> rqc_stream \<Rightarrow> rqc_stream" where
  "set_limits can_send can_recv s =
     s\<lparr>stream_flow_ctl := (stream_flow_ctl s)\<lparr>fc_max_stream_data_can_send := can_send,
         fc_max_stream_data_can_recv := can_recv, fc_stream_recv_window_size := can_recv\<rparr>\<rparr>"

definition rqc_stream_set_flow_ctl :: "conn_stream \<Rightarrow> rqc_stream" where
  "rqc_stream_set_flow_ctl cs = (case cs of (c, s) \<Rightarrow>
     let ls = local_settings c;
         rs = (if zero_settings (remote_settings c) then local_settings c else remote_settings c)
     in if c_conn_type c = RQC_CONN_TYPE_CLIENT then
          (if stream_type s = RQC_CLI_BID then
             set_limits (max_stream_data_bidi_remote rs) (max_stream_data_bidi_local ls) s
           else if stream_type s = RQC_SVR_BID then
             set_limits (max_stream_data_bidi_local rs) (max_stream_data_bidi_remote ls) s
           else set_limits (max_stream_data_uni rs) (max_stream_data_uni ls) s)
        else
          (if stream_type s = RQC_CLI_BID then
             set_limits (max_stream_data_bidi_local rs) (max_stream_data_bidi_remote ls) s
           else if stream_type s = RQC_SVR_BID then
             set_limits (max_stream_data_bidi_remote rs) (max_stream_data_bidi_local ls) s
           else set_limits (max_stream_data_uni rs) (max_stream_data_uni ls) s))"

definition rqc_stream_update_flow_ctl :: "conn_stream \<Rightarrow> rqc_stream" where
  "rqc_stream_update_flow_ctl cs = (case cs of (c, s) \<Rightarrow>
     let rs = remote_settings c;
         limit = (if c_conn_type c = RQC_CONN_TYPE_CLIENT then
                    (if stream_type s = RQC_CLI_BID then max_stream_data_bidi_remote rs
                     else if stream_type s = RQC_SVR_BID then max_stream_data_bidi_local rs
                     else max_stream_data_uni rs)
                  else
                    (if stream_type s = RQC_CLI_BID then max_stream_data_bidi_local rs
                     else if stream_type s = RQC_SVR_BID then max_stream_data_bidi_remote rs
                     else max_stream_data_uni rs))
     in s\<lparr>stream_flow_ctl := (stream_flow_ctl s)\<lparr>fc_max_stream_data_can_send := limit\<rparr>\<rparr>)"

definition rqc_stream_get_init_max_stream_data :: "conn_stream \<Rightarrow> u64" where
  "rqc_stream_get_init_max_stream_data cs = (case cs of (c, s) \<Rightarrow>
     if stream_type s = RQC_SVR_BID then
       (if c_conn_type c = RQC_CONN_TYPE_SERVER then max_stream_data_bidi_local (local_settings c)
        else max_stream_data_bidi_remote (local_settings c))
     else if stream_type s = RQC_CLI_BID then
       (if c_conn_type c = RQC_CONN_TYPE_SERVER then max_stream_data_bidi_remote (local_settings c)
        else max_stream_data_bidi_local (local_settings c))
     else max_stream_data_uni (local_settings c))"

definition rqc_stream_do_send_flow_ctl :: "conn_stream \<Rightarrow> int \<times> conn_stream" where
  "rqc_stream_do_send_flow_ctl cs = (case cs of (c, s) \<Rightarrow>
     let (ret, c) =
           (if fc_data_sent (conn_flow_ctl c) + pkt_out_size c > fc_max_data_can_send (conn_flow_ctl c) then
              (- RQC_ECONN_BLOCKED,
               rqc_write_data_blocked_to_packet (c\<lparr>c_conn_flag := c_conn_flag c OR RQC_CONN_FLAG_DATA_BLOCKED\<rparr>)
                 (fc_max_data_can_send (conn_flow_ctl c)))
            else (RQC_OK, c))
     in if stream_send_offset s + pkt_out_size c > fc_max_stream_data_can_send (stream_flow_ctl s) then
          (- RQC_ESTREAM_BLOCKED,
           rqc_write_stream_data_blocked_to_packet c (stream_id s) (fc_max_stream_data_can_send (stream_flow_ctl s)),
           upd_flag (\<lambda>f. f OR RQC_STREAM_FLAG_DATA_BLOCKED) s)
        else (ret, c, s))"

text \<open>
  \<open>rqc_stream_do_recv_flow_ctl\<close> in its two halves, each returning whether it queued an update. The
  comparison and the product with 1.5 are exact in a \<open>double\<close> for windows below \<open>2 ^ 51\<close>.
\<close>

definition stream_new_window :: "stream_env \<Rightarrow> conn_stream \<Rightarrow> u64" where
  "stream_new_window env cs = (case cs of (c, s) \<Rightarrow>
     let fc = stream_flow_ctl s; window = fc_stream_recv_window_size fc in
     if recv_rate_bytes_per_sec s = 0 then
       (if fc_stream_last_window_update_time fc \<noteq> 0
           \<and> env_now env - fc_stream_last_window_update_time fc < 2 * rqc_conn_get_min_srtt env
        then min (window * 2) RQC_MAX_RECV_WINDOW else window)
     else min RQC_MAX_RECV_WINDOW (max (init_recv_window c)
            (recv_rate_bytes_per_sec s * rqc_conn_get_max_srtt env div 1000000)))"

definition stream_window_update :: "stream_env \<Rightarrow> conn_stream \<Rightarrow> bool \<times> conn_stream" where
  "stream_window_update env cs = (case cs of (c, s) \<Rightarrow>
     let fc = stream_flow_ctl s;
         available_window = fc_max_stream_data_can_recv fc - next_read_offset (stream_data_in s)
     in if available_window < fc_stream_recv_window_size fc div 2 then
          let window = stream_new_window env (c, s);
              fc = fc\<lparr>fc_stream_recv_window_size := window, fc_stream_last_window_update_time := env_now env\<rparr>
          in if window > available_window then
               let limit = fc_max_stream_data_can_recv fc + (window - available_window);
                   fc = fc\<lparr>fc_max_stream_data_can_recv := limit\<rparr>
               in (True, rqc_write_max_stream_data_to_packet c (stream_id s) limit, s\<lparr>stream_flow_ctl := fc\<rparr>)
             else (False, c, s\<lparr>stream_flow_ctl := fc\<rparr>)
        else (False, c, s))"

definition conn_new_window :: "stream_env \<Rightarrow> conn_stream \<Rightarrow> u64" where
  "conn_new_window env cs = (case cs of (c, s) \<Rightarrow>
     let fc = conn_flow_ctl c;
         window = fc_recv_windows_size fc;
         stream_window = fc_stream_recv_window_size (stream_flow_ctl s)
     in if conn_recv_rate_bytes_per_sec c = 0 then
          let window = (if fc_last_window_update_time fc \<noteq> 0
                           \<and> env_now env - fc_last_window_update_time fc < 2 * rqc_conn_get_min_srtt env
                        then min (window * 2) RQC_MAX_RECV_WINDOW else window)
          in if 2 * unat window < 3 * unat stream_window then of_nat (3 * unat stream_window div 2) else window
        else min RQC_MAX_RECV_WINDOW (max RQC_MIN_RECV_WINDOW
               (conn_recv_rate_bytes_per_sec c * rqc_conn_get_max_srtt env div 1000000)))"

definition conn_window_update :: "stream_env \<Rightarrow> conn_stream \<Rightarrow> bool \<times> conn_stream" where
  "conn_window_update env cs = (case cs of (c, s) \<Rightarrow>
     let fc = conn_flow_ctl c;
         available_window = fc_max_data_can_recv fc - fc_data_read fc
     in if available_window < fc_recv_windows_size fc div 2 then
          let window = conn_new_window env (c, s);
              fc = fc\<lparr>fc_recv_windows_size := window, fc_last_window_update_time := env_now env\<rparr>
          in if window > available_window then
               let limit = fc_max_data_can_recv fc + (window - available_window);
                   fc = fc\<lparr>fc_max_data_can_recv := limit\<rparr>
               in (True, rqc_write_max_data_to_packet (c\<lparr>conn_flow_ctl := fc\<rparr>) limit, s)
             else (False, c\<lparr>conn_flow_ctl := fc\<rparr>, s)
        else (False, c, s))"

definition rqc_stream_do_recv_flow_ctl :: "stream_env \<Rightarrow> conn_stream \<Rightarrow> conn_stream" where
  "rqc_stream_do_recv_flow_ctl env cs =
     (let (queued, cs) = stream_window_update env cs;
          (queued', c, s) = conn_window_update env cs
      in if (queued \<or> queued') \<and> \<not> env_running env then (engine_activate c, s) else (c, s))"

subsection \<open>Creating streams\<close>

definition rqc_gen_stream_id :: "rqc_conn_streams \<Rightarrow> rqc_stream_type \<Rightarrow> u64 \<times> rqc_conn_streams" where
  "rqc_gen_stream_id c t =
     (if is_bid t then
        (push_bit 2 (cur_stream_id_bidi_local c) OR stream_type_val t,
         c\<lparr>cur_stream_id_bidi_local := cur_stream_id_bidi_local c + 1\<rparr>)
      else
        (push_bit 2 (cur_stream_id_uni_local c) OR stream_type_val t,
         c\<lparr>cur_stream_id_uni_local := cur_stream_id_uni_local c + 1\<rparr>))"

definition rqc_stream_do_create_flow_ctl :: "rqc_conn_streams \<Rightarrow> u64 \<Rightarrow> rqc_stream_type \<Rightarrow> int \<times> rqc_conn_streams" where
  "rqc_stream_do_create_flow_ctl c sid t =
     (let fc = conn_flow_ctl c in
      if sid = RQC_UNDEFINE_STREAM_ID then
        (if is_bid t then
           (if cur_stream_id_bidi_local c \<ge> fc_max_streams_bidi_can_send fc
            then (- RQC_EPROTO, rqc_write_streams_blocked_to_packet c (fc_max_streams_bidi_can_send fc) True)
            else (RQC_OK, c))
         else
           (if cur_stream_id_uni_local c \<ge> fc_max_streams_uni_can_send fc
            then (- RQC_EPROTO, rqc_write_streams_blocked_to_packet c (fc_max_streams_uni_can_send fc) False)
            else (RQC_OK, c)))
      else
        let t = rqc_get_stream_type sid in
        if is_bid t then
          (if sid \<ge> 4 * fc_max_streams_bidi_can_recv fc + stream_type_val t
           then (- RQC_EPROTO, conn_error TRA_STREAM_LIMIT_ERROR c)
           else if drop_bit 2 sid \<ge> fc_max_streams_bidi_can_recv fc div 2 then
             let limit = fc_max_streams_bidi_can_recv fc + max_streams_bidi (local_settings c)
             in (RQC_OK, snd (rqc_write_max_streams_to_packet
                   (c\<lparr>conn_flow_ctl := fc\<lparr>fc_max_streams_bidi_can_recv := limit\<rparr>\<rparr>) limit True))
           else (RQC_OK, c))
        else
          (if sid \<ge> 4 * fc_max_streams_uni_can_recv fc + stream_type_val t
           then (- RQC_EPROTO, conn_error TRA_STREAM_LIMIT_ERROR c)
           else if drop_bit 2 sid \<ge> fc_max_streams_uni_can_recv fc div 2 then
             let limit = fc_max_streams_uni_can_recv fc + max_streams_uni (local_settings c)
             in (RQC_OK, snd (rqc_write_max_streams_to_packet
                   (c\<lparr>conn_flow_ctl := fc\<lparr>fc_max_streams_uni_can_recv := limit\<rparr>\<rparr>) limit False))
           else (RQC_OK, c)))"

text \<open>The zeroed stream of \<open>rqc_calloc\<close>; the type 0 is \<open>RQC_CLI_BID\<close>.\<close>

definition stream_zero :: rqc_stream where
  "stream_zero = \<lparr>stream_id = 0, stream_type = RQC_CLI_BID,
     stream_flow_ctl = \<lparr>fc_max_stream_data_can_send = 0, fc_max_stream_data_can_recv = 0,
       fc_stream_recv_window_size = 0, fc_stream_last_window_update_time = 0\<rparr>,
     stream_send_offset = 0, stream_max_recv_offset = 0, stream_flag = 0, stream_data_in = stream_in_init,
     stream_state_send = RQC_SEND_STREAM_ST_READY, stream_state_recv = RQC_RECV_STREAM_ST_RECV,
     stream_close_time = 0, stream_err = 0, recv_rate_bytes_per_sec = 0, atomic_ctx = None\<rparr>"

text \<open>
  \<open>recv_rate\<close> is the rate of the settings argument, \<open>None\<close> for \<open>NULL\<close>; \<open>notify\<close> is the result of
  \<open>stream_create_notify\<close> for an identifier. \<open>finish_create\<close> is the tail of the function, once the
  identifier is in the table.
\<close>

definition finish_create ::
  "(u64 \<Rightarrow> int) option \<Rightarrow> bool \<Rightarrow> u64 option \<Rightarrow> conn_stream \<Rightarrow> rqc_stream option \<times> rqc_conn_streams" where
  "finish_create notify locally recv_rate cs = (case cs of (c, s) \<Rightarrow>
     let (c, s) = (if locally then rqc_stream_ready_to_write (c, s) else (c, s));
         s = (case recv_rate of
                Some rate \<Rightarrow> if enable_stream_rate_limit c \<and> stream_type s = RQC_CLI_BID
                             then s\<lparr>recv_rate_bytes_per_sec := rate\<rparr> else s
              | None \<Rightarrow> s);
         s = (case notify of
                Some f \<Rightarrow> if f (stream_id s) \<noteq> RQC_OK then upd_flag (\<lambda>f. f OR RQC_STREAM_FLAG_DISCARDED) s else s
              | None \<Rightarrow> s)
     in (Some s, put_stream (c, s)))"

definition rqc_create_stream_with_conn ::
  "(u64 \<Rightarrow> int) option \<Rightarrow> rqc_conn_streams \<Rightarrow> u64 \<Rightarrow> rqc_stream_type \<Rightarrow> u64 option \<Rightarrow> rqc_stream option \<times> rqc_conn_streams" where
  "rqc_create_stream_with_conn notify c sid t recv_rate =
     (if conn_is_closing c then (None, c)
      else let (ret, c) = rqc_stream_do_create_flow_ctl c sid t in
      if ret \<noteq> 0 then (None, c)
      else
        let s = rqc_stream_set_flow_ctl (c, stream_zero);
            (s, c) = (if sid = RQC_UNDEFINE_STREAM_ID
                      then let (i, c) = rqc_gen_stream_id c t in (s\<lparr>stream_type := t, stream_id := i\<rparr>, c)
                      else (s\<lparr>stream_id := sid, stream_type := rqc_get_stream_type sid\<rparr>, c));
            c = c\<lparr>conn_all_streams := conn_all_streams c @ [stream_id s]\<rparr>
        in if streams_hash c (stream_id s) \<noteq> None then (None, rqc_destroy_stream (c, s))
           else finish_create notify (sid = RQC_UNDEFINE_STREAM_ID) recv_rate (c, s))"

definition rqc_stream_create_with_direction ::
  "(u64 \<Rightarrow> int) option \<Rightarrow> rqc_conn_streams \<Rightarrow> bool \<Rightarrow> rqc_stream option \<times> rqc_conn_streams" where
  "rqc_stream_create_with_direction notify c bidi =
     rqc_create_stream_with_conn notify c RQC_UNDEFINE_STREAM_ID
       (if c_conn_type c = RQC_CONN_TYPE_CLIENT then (if bidi then RQC_CLI_BID else RQC_CLI_UNI)
        else (if bidi then RQC_SVR_BID else RQC_SVR_UNI)) None"

definition rqc_insert_passive_stream_hash :: "rqc_conn_streams \<Rightarrow> int \<Rightarrow> u64 \<Rightarrow> rqc_conn_streams" where
  "rqc_insert_passive_stream_hash c cur_max_sid sid =
     fold (\<lambda>i c. let h = push_bit 2 (of_int i) OR stream_type_val (rqc_get_stream_type sid)
                in if h \<in> passive_streams_hash c then conn_error TRA_INTERNAL_ERROR c
                   else c\<lparr>passive_streams_hash := insert h (passive_streams_hash c)\<rparr>)
       [cur_max_sid + 1 .. uint (drop_bit 2 sid)] c"

definition rqc_passive_create_stream ::
  "(u64 \<Rightarrow> int) option \<Rightarrow> rqc_conn_streams \<Rightarrow> u64 \<Rightarrow> rqc_stream option \<times> rqc_conn_streams" where
  "rqc_passive_create_stream notify c strm_id =
     (let (ret, c) = rqc_stream_do_create_flow_ctl c strm_id (rqc_get_stream_type strm_id) in
      if ret \<noteq> RQC_OK then (None, c)
      else
        let sid = uint (drop_bit 2 strm_id);
            known = (if rqc_stream_is_bidi strm_id then \<not> sid > max_stream_id_bidi_remote c
                     else \<not> sid > max_stream_id_uni_remote c);
            c = (if known then c
                 else if rqc_stream_is_bidi strm_id then
                   (rqc_insert_passive_stream_hash c (max_stream_id_bidi_remote c) strm_id)\<lparr>max_stream_id_bidi_remote := sid\<rparr>
                 else
                   (rqc_insert_passive_stream_hash c (max_stream_id_uni_remote c) strm_id)\<lparr>max_stream_id_uni_remote := sid\<rparr>)
        in if known \<and> strm_id \<notin> passive_streams_hash c then (None, c)
           else case rqc_create_stream_with_conn notify c strm_id RQC_CLI_BID None of
             (None, c) \<Rightarrow> (None, conn_error TRA_INTERNAL_ERROR c)
           | (Some s, c) \<Rightarrow>
               (Some s,
                if rqc_get_stream_type strm_id = RQC_CLI_BID then c\<lparr>cli_bidi_streams := cli_bidi_streams c + 1\<rparr>
                else if rqc_get_stream_type strm_id = RQC_SVR_BID then c\<lparr>svr_bidi_streams := svr_bidi_streams c + 1\<rparr>
                else c))"

subsection \<open>Reading\<close>

text \<open>The end of the stream has been read.\<close>

definition recv_fin :: "stream_env \<Rightarrow> bool \<Rightarrow> conn_stream \<Rightarrow> conn_stream" where
  "recv_fin env fin cs = (case cs of (c, s) \<Rightarrow>
     if fin \<and> stream_state_recv s = RQC_RECV_STREAM_ST_DATA_RECVD
     then rqc_stream_maybe_need_close env (c, rqc_stream_recv_state_update RQC_RECV_STREAM_ST_DATA_READ s)
     else (c, s))"

definition add_data_read :: "nat \<Rightarrow> conn_stream \<Rightarrow> conn_stream" where
  "add_data_read n cs = (case cs of (c, s) \<Rightarrow>
     (c\<lparr>conn_flow_ctl := (conn_flow_ctl c)\<lparr>fc_data_read := fc_data_read (conn_flow_ctl c) + of_nat n\<rparr>\<rparr>, s))"

text \<open>The result is the \<open>ssize_t\<close> that is returned, what was copied, and \<open>*fin\<close>.\<close>

definition rqc_stream_recv :: "stream_env \<Rightarrow> u64 \<Rightarrow> conn_stream \<Rightarrow> (int \<times> byte list \<times> bool \<times> conn_stream) res" where
  "rqc_stream_recv env recv_buf_size cs = (case cs of (c, s) \<Rightarrow>
     if stream_state_recv s \<ge> RQC_RECV_STREAM_ST_RESET_RECVD then
       Inr (- RQC_ESTREAM_RESET, [], False,
            rqc_stream_maybe_need_close env (rqc_stream_shutdown_read (c, s\<lparr>stream_state_recv := RQC_RECV_STREAM_ST_RESET_READ\<rparr>)))
     else
       res_bind (stream_read recv_buf_size (stream_data_in s)) (\<lambda>(recv_buf, d).
         let fin = (stream_determined d \<and> next_read_offset d = stream_length d) in
         Inr (if recv_buf = [] \<and> \<not> fin then - RQC_EAGAIN else int (length recv_buf), recv_buf, fin,
              rqc_stream_do_recv_flow_ctl env (rqc_stream_shutdown_read
                (add_data_read (length recv_buf) (recv_fin env fin (c, s\<lparr>stream_data_in := d\<rparr>)))))))"

text \<open>The result is the return value, the peeked bytes, \<open>*readable_bytes\<close> and \<open>*fin\<close>.\<close>

definition rqc_stream_peek ::
  "stream_env \<Rightarrow> u64 \<Rightarrow> conn_stream \<Rightarrow> (int \<times> byte list \<times> u64 \<times> bool \<times> conn_stream) res" where
  "rqc_stream_peek env peek_buf_size cs = (case cs of (c, s) \<Rightarrow>
     let d = stream_data_in s in
     if stream_state_recv s \<ge> RQC_RECV_STREAM_ST_RESET_RECVD then
       Inr (- RQC_ESTREAM_RESET, [], 0, False,
            rqc_stream_maybe_need_close env (rqc_stream_shutdown_read (c, s\<lparr>stream_state_recv := RQC_RECV_STREAM_ST_RESET_READ\<rparr>)))
     else if merged_offset_end d < next_read_offset d then
       Inr (- RQC_ESTATE, [], 0, False, rqc_stream_shutdown_read (c, s))
     else
       let readable = merged_offset_end d - next_read_offset d;
           fin = (stream_determined d \<and> merged_offset_end d = stream_length d)
       in res_bind (peek_loop peek_buf_size (frames_tailq d) (next_read_offset d) 0 []) (\<lambda>(copied, peek_buf).
            Inr (if copied < min readable peek_buf_size then - RQC_ESTATE
                 else if readable = 0 \<and> \<not> fin then - RQC_EAGAIN else uint copied,
                 peek_buf, readable, fin, rqc_stream_shutdown_read (c, s))))"

subsection \<open>Identifiers\<close>

definition mk_stream_id :: "u64 \<Rightarrow> rqc_stream_type \<Rightarrow> u64" where
  "mk_stream_id n t = push_bit 2 n OR stream_type_val t"

lemma stream_type_val_and: "stream_type_val t AND 3 = stream_type_val t" "drop_bit 2 (stream_type_val t) = 0"
  by (cases t; simp)+

lemma three_mask: "(3 :: u64) = mask 2"
  by (simp add: mask_eq_exp_minus_1)

lemma mk_stream_id_and: "mk_stream_id n t AND 3 = stream_type_val t"
proof -
  have "push_bit 2 n AND (3 :: u64) = 0" unfolding three_mask take_bit_eq_mask [symmetric] by (simp add: take_bit_push_bit)
  then show ?thesis by (simp add: mk_stream_id_def bit.conj_disj_distrib2 stream_type_val_and)
qed

lemma type_of_mk_stream_id [simp]: "rqc_get_stream_type (mk_stream_id n t) = t"
  unfolding rqc_get_stream_type_def mk_stream_id_and by (cases t) simp_all

lemma drop_mk_stream_id:
  assumes "unat n < 2 ^ 62" shows "drop_bit 2 (mk_stream_id n t) = n"
proof -
  have "take_bit 62 n = n" using assms by (simp add: word_unat_eq_iff unsigned_take_bit_eq take_bit_nat_eq_self)
  moreover have "drop_bit 2 (push_bit 2 n) = take_bit 62 n"
    by (rule bit_word_eqI) (auto simp: bit_simps)
  ultimately show ?thesis by (simp add: mk_stream_id_def drop_bit_or stream_type_val_and)
qed

lemma stream_type_val_get: "stream_type_val (rqc_get_stream_type i) = i AND 3"
proof -
  have "unat (i AND 3) < 4" unfolding three_mask take_bit_eq_mask [symmetric]
    by (simp add: take_bit_eq_mod unat_mod)
  then have "unat (i AND 3) = 0 \<or> unat (i AND 3) = 1 \<or> unat (i AND 3) = 2 \<or> unat (i AND 3) = 3" by arith
  then consider "i AND 3 = 0" | "i AND 3 = 1" | "i AND 3 = 2" | "i AND 3 = 3"
    by (auto simp: word_unat_eq_iff)
  then show ?thesis by cases (simp_all add: rqc_get_stream_type_def)
qed

text \<open>Every identifier is made of its number and its type.\<close>

lemma mk_stream_id_surj: "mk_stream_id (drop_bit 2 i) (rqc_get_stream_type i) = i"
proof -
  have "2 \<le> n \<Longrightarrow> Suc (Suc (n - 2)) = n" for n :: nat by simp
  then show ?thesis
    unfolding mk_stream_id_def stream_type_val_get three_mask take_bit_eq_mask [symmetric]
    by (intro bit_word_eqI) (auto simp: bit_simps not_less)
qed

lemma bidi_iff_type: "rqc_stream_is_bidi i \<longleftrightarrow> is_bid (rqc_get_stream_type i)"
proof -
  have "mk_stream_id n t AND 2 = stream_type_val t AND 2" for n t
  proof -
    have "mk_stream_id n t AND 2 = (mk_stream_id n t AND 3) AND 2" by (simp add: and.assoc)
    then show ?thesis by (simp add: mk_stream_id_and)
  qed
  from this [of "drop_bit 2 i" "rqc_get_stream_type i"]
  have "i AND 2 = stream_type_val (rqc_get_stream_type i) AND 2" by (simp add: mk_stream_id_surj)
  then show ?thesis by (cases "rqc_get_stream_type i") (auto simp: rqc_stream_is_bidi_def is_bid_def)
qed

subsection \<open>The table of streams\<close>

definition local_type :: "rqc_conn_type \<Rightarrow> rqc_stream_type \<Rightarrow> bool" where
  "local_type ct t \<longleftrightarrow>
     (ct = RQC_CONN_TYPE_CLIENT \<and> (t = RQC_CLI_BID \<or> t = RQC_CLI_UNI) \<or>
      ct = RQC_CONN_TYPE_SERVER \<and> (t = RQC_SVR_BID \<or> t = RQC_SVR_UNI))"

definition cur_local :: "rqc_conn_streams \<Rightarrow> rqc_stream_type \<Rightarrow> u64" where
  "cur_local c t = (if is_bid t then cur_stream_id_bidi_local c else cur_stream_id_uni_local c)"

definition max_remote :: "rqc_conn_streams \<Rightarrow> rqc_stream_type \<Rightarrow> int" where
  "max_remote c t = (if is_bid t then max_stream_id_bidi_remote c else max_stream_id_uni_remote c)"

definition send_limit :: "rqc_conn_streams \<Rightarrow> rqc_stream_type \<Rightarrow> u64" where
  "send_limit c t = (if is_bid t then fc_max_streams_bidi_can_send (conn_flow_ctl c)
     else fc_max_streams_uni_can_send (conn_flow_ctl c))"

definition recv_limit :: "rqc_conn_streams \<Rightarrow> rqc_stream_type \<Rightarrow> u64" where
  "recv_limit c t = (if is_bid t then fc_max_streams_bidi_can_recv (conn_flow_ctl c)
     else fc_max_streams_uni_can_recv (conn_flow_ctl c))"

text \<open>
  A stream is filed under its identifier, its type is the one in the identifier, and its number was
  handed out: by this end below the counter of the kind, by the peer up to the largest number seen,
  and then it is in \<open>passive_streams_hash\<close> until it is destroyed.
\<close>

definition stream_filed :: "rqc_conn_streams \<Rightarrow> u64 \<Rightarrow> rqc_stream \<Rightarrow> bool" where
  "stream_filed c i s \<longleftrightarrow> stream_id s = i \<and> stream_type s = rqc_get_stream_type i \<and>
     (if local_type (c_conn_type c) (rqc_get_stream_type i)
      then drop_bit 2 i < cur_local c (rqc_get_stream_type i)
      else uint (drop_bit 2 i) \<le> max_remote c (rqc_get_stream_type i) \<and> i \<in> passive_streams_hash c)"

definition streams_wf :: "rqc_conn_streams \<Rightarrow> bool" where
  "streams_wf c \<longleftrightarrow>
     (\<forall>i s. streams_hash c i = Some s \<longrightarrow> stream_filed c i s) \<and>
     (\<forall>i \<in> passive_streams_hash c. \<not> local_type (c_conn_type c) (rqc_get_stream_type i) \<and>
        uint (drop_bit 2 i) \<le> max_remote c (rqc_get_stream_type i)) \<and>
     (\<forall>t. unat (cur_local c t) \<le> 2 ^ 60 \<and> unat (send_limit c t) \<le> 2 ^ 60 \<and> - 1 \<le> max_remote c t)"

lemmas stream_defs = is_bid_def local_type_def cur_local_def max_remote_def send_limit_def recv_limit_def

text \<open>
  What the operations on one stream keep of the connection. \<open>same_table c c'\<close>: nothing that the
  table's invariant looks at has changed but the streams themselves.
\<close>

definition same_table :: "rqc_conn_streams \<Rightarrow> rqc_conn_streams \<Rightarrow> bool" where
  "same_table c c' \<longleftrightarrow> c_conn_type c' = c_conn_type c \<and> streams_hash c' = streams_hash c \<and>
     passive_streams_hash c' = passive_streams_hash c \<and>
     cur_stream_id_bidi_local c' = cur_stream_id_bidi_local c \<and> cur_stream_id_uni_local c' = cur_stream_id_uni_local c \<and>
     max_stream_id_bidi_remote c' = max_stream_id_bidi_remote c \<and> max_stream_id_uni_remote c' = max_stream_id_uni_remote c \<and>
     fc_max_streams_bidi_can_send (conn_flow_ctl c') = fc_max_streams_bidi_can_send (conn_flow_ctl c) \<and>
     fc_max_streams_uni_can_send (conn_flow_ctl c') = fc_max_streams_uni_can_send (conn_flow_ctl c)"

lemma same_table_refl [simp]: "same_table c c"
  by (simp add: same_table_def)

lemma same_table_trans: "same_table a b \<Longrightarrow> same_table b c \<Longrightarrow> same_table a c"
  by (simp add: same_table_def)

lemma same_table_wf: "same_table c c' \<Longrightarrow> streams_wf c' \<longleftrightarrow> streams_wf c"
  by (simp add: same_table_def streams_wf_def stream_filed_def cur_local_def max_remote_def send_limit_def)

definition same_stream :: "rqc_stream \<Rightarrow> rqc_stream \<Rightarrow> bool" where
  "same_stream s s' \<longleftrightarrow> stream_id s' = stream_id s \<and> stream_type s' = stream_type s"

named_theorems keeps \<open>operations on a stream keep the table and the identity of the stream\<close>

lemma put_stream_simps [simp]:
  "cur_local (put_stream (c, s)) = cur_local c" "max_remote (put_stream (c, s)) = max_remote c"
  "send_limit (put_stream (c, s)) = send_limit c" "recv_limit (put_stream (c, s)) = recv_limit c"
  "stream_filed (put_stream (c, s)) = stream_filed c"
  "streams_hash (put_stream (c, s)) = (streams_hash c)(stream_id s \<mapsto> s)"
  "passive_streams_hash (put_stream (c, s)) = passive_streams_hash c" "c_conn_type (put_stream (c, s)) = c_conn_type c"
  "conn_flow_ctl (put_stream (c, s)) = conn_flow_ctl c" "c_conn_err (put_stream (c, s)) = c_conn_err c"
  by (auto simp: put_stream_def fun_eq_iff stream_filed_def cur_local_def max_remote_def send_limit_def recv_limit_def)

lemma put_stream_wf:
  assumes "streams_wf c" "streams_hash c i = Some s" "same_table c c'" "same_stream s s'"
  shows "streams_wf (put_stream (c', s'))"
proof -
  have f: "stream_filed c i s" using assms(1,2) by (simp add: streams_wf_def)
  then have i: "stream_id s' = i" "stream_filed c' i s'"
    using assms(3,4) by (auto simp: stream_filed_def same_stream_def same_table_def cur_local_def max_remote_def)
  have w: "streams_wf c'" using same_table_wf [OF assms(3)] assms(1) by simp
  then show ?thesis using i by (simp add: streams_wf_def)
qed

lemma upd_flag_keeps [keeps]: "same_stream s0 s \<Longrightarrow> same_stream s0 (upd_flag f s)"
  by (simp add: upd_flag_def same_stream_def)

lemma emit_keeps [keeps]: "same_table c0 c \<Longrightarrow> same_table c0 (emit e c)"
  by (simp add: emit_def same_table_def)

lemma engine_activate_keeps [keeps]: "same_table c0 c \<Longrightarrow> same_table c0 (engine_activate c)"
  by (simp add: engine_activate_def same_table_def)

lemma conn_error_keeps [keeps]: "same_table c0 c \<Longrightarrow> same_table c0 (conn_error e c)"
  by (simp add: conn_error_def same_table_def)

definition keep :: "rqc_conn_streams \<Rightarrow> rqc_stream \<Rightarrow> conn_stream \<Rightarrow> bool" where
  "keep c0 s0 cs \<longleftrightarrow> same_table c0 (fst cs) \<and> same_stream s0 (snd cs)"

lemma keep_refl [simp]: "keep c s (c, s)"
  by (simp add: keep_def same_stream_def)

lemma ready_shutdown_keep [keeps]:
  "keep c0 s0 cs \<Longrightarrow> keep c0 s0 (rqc_stream_ready_to_write cs)"
  "keep c0 s0 cs \<Longrightarrow> keep c0 s0 (rqc_stream_ready_to_read cs)"
  "keep c0 s0 cs \<Longrightarrow> keep c0 s0 (rqc_stream_shutdown_write cs)"
  "keep c0 s0 cs \<Longrightarrow> keep c0 s0 (rqc_stream_shutdown_read cs)"
  by (cases cs; auto simp: keep_def rqc_stream_ready_to_write_def rqc_stream_ready_to_read_def
      rqc_stream_shutdown_write_def rqc_stream_shutdown_read_def engine_activate_def upd_flag_def same_table_def same_stream_def)+

lemma schedule_close_keep [keeps]: "keep c0 s0 cs \<Longrightarrow> keep c0 s0 (schedule_close env cs)"
  by (cases cs) (auto simp: schedule_close_def Let_def upd_flag_def intro!: keeps,
      auto simp: keep_def same_table_def same_stream_def)

lemma close_keep [keeps]:
  "keep c0 s0 cs \<Longrightarrow> keep c0 s0 (rqc_stream_maybe_need_close env cs)"
  "keep c0 s0 cs \<Longrightarrow> keep c0 s0 (rqc_stream_close_discarded_stream env cs)"
  by (simp_all add: rqc_stream_maybe_need_close_def rqc_stream_close_discarded_stream_def keeps)

lemma write_keep [keeps]:
  "keep c0 s0 cs \<Longrightarrow> keep c0 s0 (rqc_write_reset_stream_to_packet e n cs)"
  "keep c0 s0 cs \<Longrightarrow> keep c0 s0 (rqc_write_stop_sending_to_packet e cs)"
  by (cases cs; auto simp: keep_def rqc_write_reset_stream_to_packet_def rqc_write_stop_sending_to_packet_def
      rqc_stream_send_state_update_def rqc_stream_atomic_clear_pending_def emit_def Let_def same_table_def same_stream_def)+

lemma keep_conn [keeps]:
  "keep c0 s0 (c, s) \<Longrightarrow> keep c0 s0 (emit e c, s)"
  "keep c0 s0 (c, s) \<Longrightarrow> keep c0 s0 (engine_activate c, s)"
  "keep c0 s0 (c, s) \<Longrightarrow> keep c0 s0 (c\<lparr>c_conn_flag := x\<rparr>, s)"
  "keep c0 s0 (c, s) \<Longrightarrow> fc_max_streams_bidi_can_send f = fc_max_streams_bidi_can_send (conn_flow_ctl c) \<Longrightarrow>
   fc_max_streams_uni_can_send f = fc_max_streams_uni_can_send (conn_flow_ctl c) \<Longrightarrow>
   keep c0 s0 (c\<lparr>conn_flow_ctl := f\<rparr>, s)"
  by (simp_all add: keep_def emit_def engine_activate_def same_table_def)

lemma keep_stream [keeps]:
  "keep c0 s0 (c, s) \<Longrightarrow> keep c0 s0 (c, upd_flag g s)"
  "keep c0 s0 (c, s) \<Longrightarrow> keep c0 s0 (c, s\<lparr>stream_flow_ctl := x\<rparr>)"
  by (simp_all add: keep_def upd_flag_def same_stream_def)

lemma send_flow_ctl_keep [keeps]: "keep c0 s0 cs \<Longrightarrow> keep c0 s0 (snd (rqc_stream_do_send_flow_ctl cs))"
  by (cases cs) (simp add: rqc_stream_do_send_flow_ctl_def rqc_write_data_blocked_to_packet_def
      rqc_write_stream_data_blocked_to_packet_def split_def Let_def keeps)

lemma window_keep [keeps]:
  "keep c0 s0 cs \<Longrightarrow> keep c0 s0 (snd (stream_window_update env cs))"
  "keep c0 s0 cs \<Longrightarrow> keep c0 s0 (snd (conn_window_update env cs))"
  by (cases cs; simp add: stream_window_update_def conn_window_update_def Let_def rqc_write_max_stream_data_to_packet_def
      rqc_write_max_data_to_packet_def keeps)+

lemma recv_flow_ctl_keep [keeps]: "keep c0 s0 cs \<Longrightarrow> keep c0 s0 (rqc_stream_do_recv_flow_ctl env cs)"
  using window_keep(2) [OF window_keep(1), of c0 s0 cs env env]
  by (simp add: rqc_stream_do_recv_flow_ctl_def split_def Let_def keeps)

lemma recv_steps_keep [keeps]:
  "keep c0 s0 cs \<Longrightarrow> keep c0 s0 (recv_fin env fin cs)"
  "keep c0 s0 cs \<Longrightarrow> keep c0 s0 (add_data_read n cs)"
proof -
  assume k: "keep c0 s0 cs"
  obtain c s where cs: "cs = (c, s)" by (rule prod.exhaust)
  have "keep c0 s0 (c, rqc_stream_recv_state_update RQC_RECV_STREAM_ST_DATA_READ s)"
    using k cs by (simp add: keep_def same_stream_def rqc_stream_recv_state_update_def)
  then show "keep c0 s0 (recv_fin env fin cs)" using k cs by (simp add: recv_fin_def keeps)
  show "keep c0 s0 (add_data_read n cs)" using k cs by (simp add: add_data_read_def keep_def same_table_def)
qed

lemma recv_keep:
  assumes "rqc_stream_recv env n (c, s) = Inr (ret, bs, fin, cs)"
  shows "keep c s cs"
proof (cases "stream_state_recv s \<ge> RQC_RECV_STREAM_ST_RESET_RECVD")
  case True
  have "keep c s (c, s\<lparr>stream_state_recv := RQC_RECV_STREAM_ST_RESET_READ\<rparr>)" by (simp add: keep_def same_stream_def)
  with True assms show ?thesis by (auto simp: rqc_stream_recv_def keeps)
next
  case False
  then obtain buf d where "stream_read n (stream_data_in s) = Inr (buf, d)"
    using assms by (auto simp: rqc_stream_recv_def res_bind_eq_Inr)
  moreover have "keep c s (c, s\<lparr>stream_data_in := d\<rparr>)" by (simp add: keep_def same_stream_def)
  ultimately show ?thesis using False assms by (auto simp: rqc_stream_recv_def Let_def keeps)
qed

lemma peek_keep:
  assumes "rqc_stream_peek env n (c, s) = Inr (ret, bs, readable, fin, cs)"
  shows "keep c s cs"
proof -
  have "keep c s (c, s\<lparr>stream_state_recv := RQC_RECV_STREAM_ST_RESET_READ\<rparr>)" by (simp add: keep_def same_stream_def)
  then have "keep c s (rqc_stream_maybe_need_close env (rqc_stream_shutdown_read (c, s\<lparr>stream_state_recv := RQC_RECV_STREAM_ST_RESET_READ\<rparr>)))"
    "keep c s (rqc_stream_shutdown_read (c, s))" by (simp_all add: keeps)
  then show ?thesis using assms
    by (auto simp: rqc_stream_peek_def res_bind_eq_Inr Let_def split: if_splits)
qed

subsection \<open>Creation, specified\<close>

lemma create_flow_ctl_local:
  "rqc_stream_do_create_flow_ctl c RQC_UNDEFINE_STREAM_ID t =
     (if cur_local c t < send_limit c t then (RQC_OK, c)
      else (- RQC_EPROTO, emit (Sq_Frame (Streams_Blocked (send_limit c t) (is_bid t))) c))"
  by (simp add: rqc_stream_do_create_flow_ctl_def cur_local_def send_limit_def rqc_write_streams_blocked_to_packet_def Let_def
      flip: not_less)

text \<open>
  The limit for the peer's streams: an identifier at or above it is a connection error, and from half
  of it on it is raised.
\<close>

definition id_limit :: "rqc_conn_streams \<Rightarrow> u64 \<Rightarrow> u64" where
  "id_limit c i = 4 * recv_limit c (rqc_get_stream_type i) + stream_type_val (rqc_get_stream_type i)"

lemma create_flow_ctl_remote:
  assumes "i \<noteq> RQC_UNDEFINE_STREAM_ID"
  shows "id_limit c i \<le> i \<Longrightarrow> rqc_stream_do_create_flow_ctl c i t = (- RQC_EPROTO, conn_error TRA_STREAM_LIMIT_ERROR c)"
    and "i < id_limit c i \<Longrightarrow> \<exists>c'. rqc_stream_do_create_flow_ctl c i t = (RQC_OK, c') \<and> same_table c c' \<and>
      c_conn_err c' = c_conn_err c \<and> c_conn_state c' = c_conn_state c \<and> local_settings c' = local_settings c \<and>
      remote_settings c' = remote_settings c"
  using assms
  by (cases "is_bid (rqc_get_stream_type i)"; simp add: rqc_stream_do_create_flow_ctl_def id_limit_def recv_limit_def Let_def
      rqc_write_max_streams_to_packet_def emit_def same_table_def flip: not_less)+

text \<open>The stream as it is created, up to its flags and its rate.\<close>

definition new_stream :: "rqc_conn_streams \<Rightarrow> u64 \<Rightarrow> rqc_stream_type \<Rightarrow> rqc_stream \<Rightarrow> bool" where
  "new_stream c i t s \<longleftrightarrow> stream_id s = i \<and> stream_type s = t \<and>
     stream_flow_ctl s = stream_flow_ctl (rqc_stream_set_flow_ctl (c, stream_zero)) \<and>
     stream_data_in s = stream_in_init \<and> stream_send_offset s = 0 \<and> stream_max_recv_offset s = 0 \<and>
     stream_state_send s = RQC_SEND_STREAM_ST_READY \<and> stream_state_recv s = RQC_RECV_STREAM_ST_RECV"

lemma set_flow_ctl_zero:
  "rqc_stream_set_flow_ctl (c, stream_zero) =
     stream_zero\<lparr>stream_flow_ctl := stream_flow_ctl (rqc_stream_set_flow_ctl (c, stream_zero))\<rparr>"
  by (simp add: rqc_stream_set_flow_ctl_def set_limits_def Let_def)

lemma new_stream_upd:
  "new_stream c i t s \<Longrightarrow> new_stream c i t (upd_flag g s)"
  "new_stream c i t s \<Longrightarrow> new_stream c i t (s\<lparr>recv_rate_bytes_per_sec := r\<rparr>)"
  by (simp_all add: new_stream_def upd_flag_def)

lemma finish_create_spec:
  assumes "new_stream c0 i t s"
  shows "\<exists>s' c'. finish_create notify locally rate (c, s) = (Some s', put_stream (c', s')) \<and> new_stream c0 i t s' \<and>
    same_table c c' \<and> c_conn_err c' = c_conn_err c \<and> local_settings c' = local_settings c \<and> recv_limit c' = recv_limit c"
proof -
  obtain c' s1 where w: "(if locally then rqc_stream_ready_to_write (c, s) else (c, s)) = (c', s1)"
    by (metis surj_pair)
  have 1: "new_stream c0 i t s1" "same_table c c'" "c_conn_err c' = c_conn_err c" "local_settings c' = local_settings c"
    "recv_limit c' = recv_limit c"
    using w assms by (auto simp: rqc_stream_ready_to_write_def engine_activate_def same_table_def recv_limit_def fun_eq_iff
        new_stream_upd split: if_splits)
  define s2 where "s2 = (case rate of Some r \<Rightarrow> if enable_stream_rate_limit c' \<and> stream_type s1 = RQC_CLI_BID
     then s1\<lparr>recv_rate_bytes_per_sec := r\<rparr> else s1 | None \<Rightarrow> s1)"
  have 2: "new_stream c0 i t s2" using 1(1) by (simp add: s2_def new_stream_upd split: option.split)
  define s3 where "s3 = (case notify of Some f \<Rightarrow> if f (stream_id s2) \<noteq> RQC_OK
     then upd_flag (\<lambda>f. f OR RQC_STREAM_FLAG_DISCARDED) s2 else s2 | None \<Rightarrow> s2)"
  have "new_stream c0 i t s3" using 2 by (simp add: s3_def new_stream_upd split: option.split)
  moreover have "finish_create notify locally rate (c, s) = (Some s3, put_stream (c', s3))"
    unfolding finish_create_def prod.case w Let_def s2_def [symmetric] s3_def [symmetric] ..
  ultimately show ?thesis using 1 by blast
qed

lemma new_stream_zero:
  "new_stream c i t ((rqc_stream_set_flow_ctl (c, stream_zero))\<lparr>stream_type := t, stream_id := i\<rparr>)"
  "new_stream c i t ((rqc_stream_set_flow_ctl (c, stream_zero))\<lparr>stream_id := i, stream_type := t\<rparr>)"
  by (subst set_flow_ctl_zero, simp add: new_stream_def stream_zero_def)+

lemma set_flow_ctl_conn:
  "c_conn_type c' = c_conn_type c \<Longrightarrow> local_settings c' = local_settings c \<Longrightarrow> remote_settings c' = remote_settings c \<Longrightarrow>
   rqc_stream_set_flow_ctl (c', s) = rqc_stream_set_flow_ctl (c, s)"
  by (simp only: rqc_stream_set_flow_ctl_def prod.case)

lemma new_stream_conn:
  "c_conn_type c' = c_conn_type c \<Longrightarrow> local_settings c' = local_settings c \<Longrightarrow> remote_settings c' = remote_settings c \<Longrightarrow>
   new_stream c' i t s \<longleftrightarrow> new_stream c i t s"
  using set_flow_ctl_conn [of c' c stream_zero] by (simp only: new_stream_def)

text \<open>This end opens a stream.\<close>

definition bump_local :: "rqc_conn_streams \<Rightarrow> rqc_stream_type \<Rightarrow> rqc_conn_streams" where
  "bump_local c t = snd (rqc_gen_stream_id c t)"

lemma gen_stream_id_eq: "rqc_gen_stream_id c t = (mk_stream_id (cur_local c t) t, bump_local c t)"
  by (simp add: rqc_gen_stream_id_def mk_stream_id_def cur_local_def bump_local_def)

lemma create_local_spec:
  assumes "\<not> conn_is_closing c" "cur_local c t < send_limit c t" "streams_hash c (mk_stream_id (cur_local c t) t) = None"
  shows "\<exists>s c'. rqc_create_stream_with_conn notify c RQC_UNDEFINE_STREAM_ID t rate = (Some s, put_stream (c', s)) \<and>
    new_stream c (mk_stream_id (cur_local c t) t) t s \<and> same_table (bump_local c t) c' \<and> c_conn_err c' = c_conn_err c"
proof -
  let ?i = "mk_stream_id (cur_local c t) t"
  let ?s = "(rqc_stream_set_flow_ctl (c, stream_zero))\<lparr>stream_type := t, stream_id := ?i\<rparr>"
  let ?c = "(bump_local c t)\<lparr>conn_all_streams := conn_all_streams (bump_local c t) @ [?i]\<rparr>"
  have "streams_hash ?c ?i = None" using assms(3) by (simp add: bump_local_def rqc_gen_stream_id_def)
  then have "rqc_create_stream_with_conn notify c RQC_UNDEFINE_STREAM_ID t rate = finish_create notify True rate (?c, ?s)"
    using assms(1,2) by (simp add: rqc_create_stream_with_conn_def create_flow_ctl_local gen_stream_id_eq Let_def)
  moreover have "c_conn_err ?c = c_conn_err c" by (simp add: bump_local_def rqc_gen_stream_id_def)
  moreover have "same_table (bump_local c t) ?c" by (simp add: same_table_def)
  ultimately show ?thesis
    using finish_create_spec [OF new_stream_zero(1) [of c ?i t], of notify True rate ?c] same_table_trans by fastforce
qed

lemma bump_local_simps [simp]:
  "cur_local (bump_local c t) t' = (if is_bid t' = is_bid t then cur_local c t + 1 else cur_local c t')"
  "max_remote (bump_local c t) = max_remote c" "send_limit (bump_local c t) = send_limit c"
  "c_conn_type (bump_local c t) = c_conn_type c" "streams_hash (bump_local c t) = streams_hash c"
  "passive_streams_hash (bump_local c t) = passive_streams_hash c"
  by (auto simp: bump_local_def rqc_gen_stream_id_def cur_local_def max_remote_def send_limit_def fun_eq_iff)

lemma streams_wfD:
  assumes "streams_wf c"
  shows "streams_hash c i = Some s \<Longrightarrow> stream_filed c i s" "unat (cur_local c t) \<le> 2 ^ 60" "unat (send_limit c t) \<le> 2 ^ 60"
    "- 1 \<le> max_remote c t"
  using assms by (auto simp: streams_wf_def)

lemma local_id_fresh:
  assumes "streams_wf c" "local_type (c_conn_type c) t"
  shows "streams_hash c (mk_stream_id (cur_local c t) t) = None"
proof (rule ccontr)
  assume "streams_hash c (mk_stream_id (cur_local c t) t) \<noteq> None"
  then obtain s where "stream_filed c (mk_stream_id (cur_local c t) t) s" using streams_wfD(1) [OF assms(1)] by blast
  moreover have "unat (cur_local c t) < 2 ^ 62" using streams_wfD(2) [OF assms(1), of t] by simp
  ultimately show False using assms(2) by (simp add: stream_filed_def drop_mk_stream_id)
qed

lemma bump_local_wf:
  assumes w: "streams_wf c" and lt: "cur_local c t < send_limit c t"
  shows "streams_wf (bump_local c t)"
    and "local_type (c_conn_type c) t \<Longrightarrow> stream_id s = mk_stream_id (cur_local c t) t \<Longrightarrow> stream_type s = t \<Longrightarrow>
      stream_filed (bump_local c t) (mk_stream_id (cur_local c t) t) s"
proof -
  have lim: "unat (cur_local c t) < 2 ^ 60" using lt streams_wfD(3) [OF w, of t] by (simp add: word_less_nat_alt)
  have inc: "unat (cur_local c t + 1) = unat (cur_local c t) + 1" using lim unat_add_of_nat [of "cur_local c t" 1] by simp
  have grow: "cur_local c t' \<le> cur_local (bump_local c t) t'" for t'
  proof (cases "is_bid t' = is_bid t")
    case True
    then have "cur_local c t' = cur_local c t" by (simp add: cur_local_def)
    then show ?thesis using True inc by (simp add: word_le_nat_alt)
  qed simp
  have "stream_filed (bump_local c t) i x" if "stream_filed c i x" for i x
    using that grow [of "rqc_get_stream_type i"] by (auto simp: stream_filed_def)
  moreover have "unat (cur_local (bump_local c t) t') \<le> 2 ^ 60" for t'
    using inc lim streams_wfD(2) [OF w, of t'] by simp
  ultimately show "streams_wf (bump_local c t)"
    using w unfolding streams_wf_def by (auto simp del: bump_local_simps(1))
  assume "local_type (c_conn_type c) t" "stream_id s = mk_stream_id (cur_local c t) t" "stream_type s = t"
  then show "stream_filed (bump_local c t) (mk_stream_id (cur_local c t) t) s"
    using lim inc by (simp add: stream_filed_def drop_mk_stream_id word_less_nat_alt)
qed

lemma put_filed_wf: "streams_wf c \<Longrightarrow> stream_filed c (stream_id s) s \<Longrightarrow> streams_wf (put_stream (c, s))"
  by (simp add: streams_wf_def)

lemma same_table_filed: "same_table c c' \<Longrightarrow> stream_filed c' = stream_filed c"
  by (simp add: same_table_def stream_filed_def cur_local_def max_remote_def fun_eq_iff)

text \<open>The passive identifiers.\<close>

definition passive_range :: "int \<Rightarrow> u64 \<Rightarrow> u64 set" where
  "passive_range m i = (\<lambda>n. mk_stream_id (of_int n) (rqc_get_stream_type i)) ` {m + 1 .. uint (drop_bit 2 i)}"

lemma conn_error_shape: "\<exists>err fl. conn_error e c = c\<lparr>c_conn_err := err, c_conn_flag := fl\<rparr>"
proof (cases "c_conn_err c = 0")
  case False
  then show ?thesis by (intro exI [of _ "c_conn_err c"] exI [of _ "c_conn_flag c"]) (simp add: conn_error_def)
qed (auto simp: conn_error_def)

lemma insert_passive_fold:
  fixes c :: rqc_conn_streams and g :: "int \<Rightarrow> u64" and e :: u64
  defines "step \<equiv> \<lambda>n c. if g n \<in> passive_streams_hash c then conn_error e c
     else c\<lparr>passive_streams_hash := insert (g n) (passive_streams_hash c)\<rparr>"
  shows "\<exists>err fl. fold step ns c = c\<lparr>passive_streams_hash := passive_streams_hash c \<union> g ` set ns, c_conn_err := err, c_conn_flag := fl\<rparr>"
proof (induction ns arbitrary: c)
  case Nil
  show ?case by (intro exI [of _ "c_conn_err c"] exI [of _ "c_conn_flag c"]) simp
next
  case (Cons n ns)
  obtain err fl where "step n c = c\<lparr>passive_streams_hash := insert (g n) (passive_streams_hash c), c_conn_err := err, c_conn_flag := fl\<rparr>"
  proof (cases "g n \<in> passive_streams_hash c")
    case True
    then show ?thesis using that conn_error_shape [of e c] by (auto simp: step_def insert_absorb)
  next
    case False
    then show ?thesis using that [of "c_conn_flag c" "c_conn_err c"] by (simp add: step_def)
  qed
  with Cons.IH [of "step n c"] show ?case by (auto simp: Un_commute)
qed

lemma insert_passive_spec:
  "\<exists>err fl. rqc_insert_passive_stream_hash c m i =
     c\<lparr>passive_streams_hash := passive_streams_hash c \<union> passive_range m i, c_conn_err := err, c_conn_flag := fl\<rparr>"
  using insert_passive_fold [of "\<lambda>n. mk_stream_id (of_int n) (rqc_get_stream_type i)" TRA_INTERNAL_ERROR "[m + 1 .. uint (drop_bit 2 i)]" c]
  unfolding rqc_insert_passive_stream_hash_def passive_range_def mk_stream_id_def Let_def set_upto .

lemma uint_drop2: "uint (drop_bit 2 (i :: u64)) < 2 ^ 62"
proof -
  have "uint (drop_bit 2 i) = uint i div 4" by (simp add: drop_bit_eq_div uint_div_distrib)
  moreover have "uint i < 18446744073709551616" by (rule order.strict_trans2 [OF unsigned_less]) simp
  ultimately have "uint (drop_bit 2 i) < 4611686018427387904" by linarith
  then show ?thesis by simp
qed

lemma passive_range_id:
  assumes "j \<in> passive_range m i" "- 1 \<le> m"
  shows "rqc_get_stream_type j = rqc_get_stream_type i \<and> m < uint (drop_bit 2 j) \<and> uint (drop_bit 2 j) \<le> uint (drop_bit 2 i)"
proof -
  obtain n where n: "m + 1 \<le> n" "n \<le> uint (drop_bit 2 i)" "j = mk_stream_id (of_int n) (rqc_get_stream_type i)"
    using assms(1) by (auto simp: passive_range_def)
  have b: "0 \<le> n" "n < 2 ^ 62" using n(1,2) assms(2) uint_drop2 [of i] by auto
  then have u: "uint (of_int n :: u64) = n" by (simp add: uint_word_of_int_eq take_bit_int_eq_self)
  then have "unat (of_int n :: u64) < 2 ^ 62" using b unfolding unat_eq_nat_uint by simp
  then show ?thesis using n u by (simp add: drop_mk_stream_id)
qed

lemma passive_range_self: "m < uint (drop_bit 2 i) \<Longrightarrow> i \<in> passive_range m i"
  unfolding passive_range_def by (rule image_eqI [of _ _ "uint (drop_bit 2 i)"]) (simp_all add: mk_stream_id_surj)

text \<open>The first part of \<open>rqc_passive_create_stream\<close>: the peer's identifiers up to a new one become known.\<close>

definition raise_remote :: "rqc_conn_streams \<Rightarrow> u64 \<Rightarrow> rqc_conn_streams" where
  "raise_remote c i =
     (if uint (drop_bit 2 i) \<le> max_remote c (rqc_get_stream_type i) then c
      else if is_bid (rqc_get_stream_type i)
      then (rqc_insert_passive_stream_hash c (max_stream_id_bidi_remote c) i)\<lparr>max_stream_id_bidi_remote := uint (drop_bit 2 i)\<rparr>
      else (rqc_insert_passive_stream_hash c (max_stream_id_uni_remote c) i)\<lparr>max_stream_id_uni_remote := uint (drop_bit 2 i)\<rparr>)"

lemma raise_remote_spec:
  assumes "max_remote c (rqc_get_stream_type i) < uint (drop_bit 2 i)"
  shows "\<exists>err fl. raise_remote c i = (if is_bid (rqc_get_stream_type i)
      then c\<lparr>passive_streams_hash := passive_streams_hash c \<union> passive_range (max_remote c (rqc_get_stream_type i)) i,
             c_conn_err := err, c_conn_flag := fl, max_stream_id_bidi_remote := uint (drop_bit 2 i)\<rparr>
      else c\<lparr>passive_streams_hash := passive_streams_hash c \<union> passive_range (max_remote c (rqc_get_stream_type i)) i,
             c_conn_err := err, c_conn_flag := fl, max_stream_id_uni_remote := uint (drop_bit 2 i)\<rparr>)"
proof -
  obtain err fl where "rqc_insert_passive_stream_hash c (max_remote c (rqc_get_stream_type i)) i =
      c\<lparr>passive_streams_hash := passive_streams_hash c \<union> passive_range (max_remote c (rqc_get_stream_type i)) i,
        c_conn_err := err, c_conn_flag := fl\<rparr>" using insert_passive_spec by blast
  with assms show ?thesis
    by (intro exI [of _ err] exI [of _ fl]) (cases "is_bid (rqc_get_stream_type i)"; simp add: raise_remote_def max_remote_def)
qed

lemma raise_remote_simps:
  "streams_hash (raise_remote c i) = streams_hash c" "c_conn_type (raise_remote c i) = c_conn_type c"
  "c_conn_state (raise_remote c i) = c_conn_state c" "conn_flow_ctl (raise_remote c i) = conn_flow_ctl c"
  "local_settings (raise_remote c i) = local_settings c" "remote_settings (raise_remote c i) = remote_settings c"
  "cur_local (raise_remote c i) = cur_local c"
  "max_remote (raise_remote c i) t = (if is_bid t = is_bid (rqc_get_stream_type i)
     then max (max_remote c t) (uint (drop_bit 2 i)) else max_remote c t)"
  "passive_streams_hash (raise_remote c i) = (if max_remote c (rqc_get_stream_type i) < uint (drop_bit 2 i)
     then passive_streams_hash c \<union> passive_range (max_remote c (rqc_get_stream_type i)) i else passive_streams_hash c)"
proof -
  consider (new) "max_remote c (rqc_get_stream_type i) < uint (drop_bit 2 i)"
    | (old) "raise_remote c i = c" "uint (drop_bit 2 i) \<le> max_remote c (rqc_get_stream_type i)"
    by (fastforce simp: raise_remote_def)
  then have "streams_hash (raise_remote c i) = streams_hash c \<and> c_conn_type (raise_remote c i) = c_conn_type c \<and>
    c_conn_state (raise_remote c i) = c_conn_state c \<and> conn_flow_ctl (raise_remote c i) = conn_flow_ctl c \<and>
    local_settings (raise_remote c i) = local_settings c \<and> remote_settings (raise_remote c i) = remote_settings c \<and>
    cur_local (raise_remote c i) = cur_local c \<and>
    max_remote (raise_remote c i) t = (if is_bid t = is_bid (rqc_get_stream_type i)
       then max (max_remote c t) (uint (drop_bit 2 i)) else max_remote c t) \<and>
    passive_streams_hash (raise_remote c i) = (if max_remote c (rqc_get_stream_type i) < uint (drop_bit 2 i)
       then passive_streams_hash c \<union> passive_range (max_remote c (rqc_get_stream_type i)) i else passive_streams_hash c)"
  proof cases
    case new
    then show ?thesis using raise_remote_spec [OF new]
      by (cases "is_bid (rqc_get_stream_type i)") (auto simp: cur_local_def max_remote_def fun_eq_iff)
  next
    case old
    then show ?thesis by (auto simp: max_remote_def)
  qed
  then show "streams_hash (raise_remote c i) = streams_hash c" "c_conn_type (raise_remote c i) = c_conn_type c"
    "c_conn_state (raise_remote c i) = c_conn_state c" "conn_flow_ctl (raise_remote c i) = conn_flow_ctl c"
    "local_settings (raise_remote c i) = local_settings c" "remote_settings (raise_remote c i) = remote_settings c"
    "cur_local (raise_remote c i) = cur_local c"
    "max_remote (raise_remote c i) t = (if is_bid t = is_bid (rqc_get_stream_type i)
       then max (max_remote c t) (uint (drop_bit 2 i)) else max_remote c t)"
    "passive_streams_hash (raise_remote c i) = (if max_remote c (rqc_get_stream_type i) < uint (drop_bit 2 i)
       then passive_streams_hash c \<union> passive_range (max_remote c (rqc_get_stream_type i)) i else passive_streams_hash c)"
    by auto
qed

lemma raise_remote_wf:
  assumes w: "streams_wf c" and r: "\<not> local_type (c_conn_type c) (rqc_get_stream_type i)"
  shows "streams_wf (raise_remote c i)"
proof -
  let ?t = "rqc_get_stream_type i"
  have same: "max_remote c t = max_remote c ?t" if "is_bid t = is_bid ?t" for t using that by (simp add: max_remote_def)
  have "stream_filed (raise_remote c i) j s" if "stream_filed c j s" for j s
    using that by (auto simp: stream_filed_def raise_remote_simps)
  moreover have "\<not> local_type (c_conn_type c) (rqc_get_stream_type j) \<and>
      uint (drop_bit 2 j) \<le> max_remote (raise_remote c i) (rqc_get_stream_type j)"
    if "j \<in> passive_streams_hash (raise_remote c i)" for j
  proof (cases "j \<in> passive_streams_hash c")
    case True
    then show ?thesis using w by (auto simp: streams_wf_def raise_remote_simps)
  next
    case False
    then have "j \<in> passive_range (max_remote c ?t) i" using that by (auto simp: raise_remote_simps split: if_splits)
    from passive_range_id [OF this streams_wfD(4) [OF w]] show ?thesis using r by (auto simp: raise_remote_simps)
  qed
  moreover have "- 1 \<le> max_remote (raise_remote c i) t" for t using streams_wfD(4) [OF w, of t] by (auto simp: raise_remote_simps)
  moreover have "send_limit (raise_remote c i) = send_limit c" by (simp add: send_limit_def raise_remote_simps fun_eq_iff)
  ultimately show ?thesis using w by (simp add: streams_wf_def raise_remote_simps)
qed

lemma raise_remote_filed:
  assumes "streams_wf c" "\<not> local_type (c_conn_type c) (rqc_get_stream_type i)" "i \<in> passive_streams_hash (raise_remote c i)"
    "stream_id s = i" "stream_type s = rqc_get_stream_type i"
  shows "stream_filed (raise_remote c i) i s"
  using assms(2-5) by (auto simp: stream_filed_def raise_remote_simps)

lemma passive_create_eq:
  "rqc_passive_create_stream notify c i =
     (let (ret, c) = rqc_stream_do_create_flow_ctl c i (rqc_get_stream_type i) in
      if ret \<noteq> RQC_OK then (None, c)
      else if i \<notin> passive_streams_hash (raise_remote c i) then (None, raise_remote c i)
      else case rqc_create_stream_with_conn notify (raise_remote c i) i RQC_CLI_BID None of
             (None, c) \<Rightarrow> (None, conn_error TRA_INTERNAL_ERROR c)
           | (Some s, c) \<Rightarrow>
               (Some s,
                if rqc_get_stream_type i = RQC_CLI_BID then c\<lparr>cli_bidi_streams := cli_bidi_streams c + 1\<rparr>
                else if rqc_get_stream_type i = RQC_SVR_BID then c\<lparr>svr_bidi_streams := svr_bidi_streams c + 1\<rparr>
                else c))"
proof -
  let ?known = "\<lambda>c. if rqc_stream_is_bidi i then \<not> uint (drop_bit 2 i) > max_stream_id_bidi_remote c
                     else \<not> uint (drop_bit 2 i) > max_stream_id_uni_remote c"
  have k: "?known c \<longleftrightarrow> uint (drop_bit 2 i) \<le> max_remote c (rqc_get_stream_type i)" for c
    by (auto simp: bidi_iff_type max_remote_def)
  have r: "(if ?known c then c
         else if rqc_stream_is_bidi i then
           (rqc_insert_passive_stream_hash c (max_stream_id_bidi_remote c) i)\<lparr>max_stream_id_bidi_remote := uint (drop_bit 2 i)\<rparr>
         else (rqc_insert_passive_stream_hash c (max_stream_id_uni_remote c) i)\<lparr>max_stream_id_uni_remote := uint (drop_bit 2 i)\<rparr>)
       = raise_remote c i" for c unfolding k by (simp add: raise_remote_def bidi_iff_type)
  have kk: "(?known c \<and> i \<notin> passive_streams_hash (raise_remote c i)) = (i \<notin> passive_streams_hash (raise_remote c i))" for c
    using passive_range_self [of "max_remote c (rqc_get_stream_type i)" i] unfolding k by (auto simp: raise_remote_simps)
  show ?thesis unfolding rqc_passive_create_stream_def Let_def r kk ..
qed

lemma create_remote_spec:
  assumes "\<not> conn_is_closing c" "i \<noteq> RQC_UNDEFINE_STREAM_ID" "i < id_limit c i" "streams_hash c i = None"
  shows "\<exists>s c'. rqc_create_stream_with_conn notify c i t rate = (Some s, put_stream (c', s)) \<and>
    new_stream c i (rqc_get_stream_type i) s \<and> same_table c c' \<and> c_conn_err c' = c_conn_err c"
proof -
  obtain c1 where c1: "rqc_stream_do_create_flow_ctl c i t = (RQC_OK, c1)" "same_table c c1" "c_conn_err c1 = c_conn_err c"
      "c_conn_state c1 = c_conn_state c" "local_settings c1 = local_settings c" "remote_settings c1 = remote_settings c"
    using create_flow_ctl_remote(2) [OF assms(2,3)] by blast
  have ct: "c_conn_type c1 = c_conn_type c" using c1(2) by (simp add: same_table_def)
  let ?s = "(rqc_stream_set_flow_ctl (c1, stream_zero))\<lparr>stream_id := i, stream_type := rqc_get_stream_type i\<rparr>"
  let ?c = "c1\<lparr>conn_all_streams := conn_all_streams c1 @ [i]\<rparr>"
  have "streams_hash ?c i = None" using assms(4) c1(2) by (simp add: same_table_def)
  then have "rqc_create_stream_with_conn notify c i t rate = finish_create notify False rate (?c, ?s)"
    using assms(1,2) c1(1) by (simp add: rqc_create_stream_with_conn_def Let_def)
  moreover have "same_table c ?c" using c1(2) by (simp add: same_table_def)
  moreover have "new_stream c i (rqc_get_stream_type i) ?s"
    using new_stream_zero(2) [of c1 i "rqc_get_stream_type i"] new_stream_conn [OF ct c1(5,6)] by simp
  ultimately show ?thesis
    using finish_create_spec [of c i "rqc_get_stream_type i" ?s notify False rate ?c] same_table_trans c1(3) by fastforce
qed

text \<open>A refused creation leaves the table alone.\<close>

lemma create_remote_refused:
  assumes "conn_is_closing c \<or> id_limit c i \<le> i" "i \<noteq> RQC_UNDEFINE_STREAM_ID"
  shows "\<exists>c'. rqc_create_stream_with_conn notify c i t rate = (None, c') \<and> same_table c c'"
  using assms create_flow_ctl_remote(1) [of i c t] conn_error_keeps [OF same_table_refl, of c TRA_STREAM_LIMIT_ERROR]
  by (auto simp: rqc_create_stream_with_conn_def)

text \<open>
  An identifier of the peer that was known and is not any more: its stream was destroyed. Nothing but
  the numbers above the largest one seen enters \<open>passive_streams_hash\<close>, so it stays so.
\<close>

definition retired :: "rqc_conn_streams \<Rightarrow> u64 \<Rightarrow> bool" where
  "retired c j \<longleftrightarrow> \<not> local_type (c_conn_type c) (rqc_get_stream_type j) \<and>
     uint (drop_bit 2 j) \<le> max_remote c (rqc_get_stream_type j) \<and> j \<notin> passive_streams_hash c"

lemma same_table_retired: "same_table c c' \<Longrightarrow> retired c' = retired c"
  by (simp add: same_table_def retired_def max_remote_def fun_eq_iff)

lemma same_table_cur: "same_table c c' \<Longrightarrow> cur_local c' = cur_local c"
  by (simp add: same_table_def cur_local_def fun_eq_iff)

lemma put_stream_retired [simp]: "retired (put_stream (c, s)) = retired c"
  by (simp add: retired_def fun_eq_iff)

lemma raise_remote_retired:
  assumes "streams_wf c" "retired c j"
  shows "retired (raise_remote c i) j"
proof -
  have "j \<notin> passive_range (max_remote c (rqc_get_stream_type i)) i"
    using passive_range_id [OF _ streams_wfD(4) [OF assms(1)]] assms(2) by (fastforce simp: retired_def)
  then show ?thesis using assms(2) by (auto simp: retired_def raise_remote_simps)
qed

lemma passive_create_spec:
  assumes w: "streams_wf c" and r: "\<not> local_type (c_conn_type c) (rqc_get_stream_type i)"
    and i: "i \<noteq> RQC_UNDEFINE_STREAM_ID" "streams_hash c i = None"
    and e: "rqc_passive_create_stream notify c i = (so, c')"
  shows "streams_wf c' \<and>
    (case so of None \<Rightarrow> streams_hash c' = streams_hash c
     | Some s \<Rightarrow> streams_hash c' = (streams_hash c)(i \<mapsto> s) \<and> i < id_limit c i \<and> \<not> conn_is_closing c \<and>
         (max_remote c (rqc_get_stream_type i) < uint (drop_bit 2 i) \<or> i \<in> passive_streams_hash c) \<and>
         new_stream c i (rqc_get_stream_type i) s) \<and>
    c_conn_type c' = c_conn_type c \<and> cur_local c' = cur_local c \<and> (\<forall>j. retired c j \<longrightarrow> retired c' j)"
proof (cases "i < id_limit c i")
  case False
  then have c': "so = None" "c' = conn_error TRA_STREAM_LIMIT_ERROR c"
    using e create_flow_ctl_remote(1) [OF i(1), of c "rqc_get_stream_type i"] by (simp_all add: passive_create_eq not_less)
  have st: "same_table c c'" unfolding c' by (intro keeps) simp
  then show ?thesis using w c'(1) same_table_wf [OF st] same_table_retired [OF st] same_table_cur [OF st] by (simp add: same_table_def)
next
  case lim: True
  let ?t = "rqc_get_stream_type i"
  obtain c1 where c1: "rqc_stream_do_create_flow_ctl c i ?t = (RQC_OK, c1)" "same_table c c1" "c_conn_state c1 = c_conn_state c"
      "local_settings c1 = local_settings c" "remote_settings c1 = remote_settings c"
    using create_flow_ctl_remote(2) [OF i(1) lim] by blast
  let ?c = "raise_remote c1 i"
  have w1: "streams_wf c1" using w same_table_wf [OF c1(2)] by simp
  have t1: "c_conn_type c1 = c_conn_type c" "streams_hash c1 = streams_hash c" "max_remote c1 = max_remote c"
    "passive_streams_hash c1 = passive_streams_hash c" using c1(2) by (auto simp: same_table_def max_remote_def)
  have w2: "streams_wf ?c" by (rule raise_remote_wf [OF w1]) (use r t1 in simp)
  have t2: "streams_hash ?c = streams_hash c" "c_conn_type ?c = c_conn_type c" "conn_is_closing ?c = conn_is_closing c"
    "local_settings ?c = local_settings c" "remote_settings ?c = remote_settings c" "cur_local ?c = cur_local c"
    by (simp_all add: raise_remote_simps t1 c1 conn_is_closing_def same_table_cur [OF c1(2)])
  have r2: "\<forall>j. retired c j \<longrightarrow> retired ?c j" using raise_remote_retired [OF w1] same_table_retired [OF c1(2)] by simp
  consider (closed) "i \<notin> passive_streams_hash ?c" | (refused) "i \<in> passive_streams_hash ?c" "conn_is_closing ?c \<or> id_limit ?c i \<le> i"
    | (ok) "i \<in> passive_streams_hash ?c" "\<not> conn_is_closing ?c" "i < id_limit ?c i" by fastforce
  then show ?thesis
  proof cases
    case closed
    then have "so = None" "c' = ?c" using e c1(1) by (simp_all add: passive_create_eq)
    then show ?thesis using w2 t2 r2 by simp
  next
    case refused
    obtain c2 where c2: "rqc_create_stream_with_conn notify ?c i RQC_CLI_BID None = (None, c2)" "same_table ?c c2"
      using create_remote_refused [OF refused(2) i(1)] by blast
    then have c': "so = None" "c' = conn_error TRA_INTERNAL_ERROR c2" using e c1(1) refused(1) by (simp_all add: passive_create_eq)
    have st: "same_table ?c c'" unfolding c' by (intro keeps c2(2))
    then have "streams_hash c' = streams_hash ?c" "c_conn_type c' = c_conn_type ?c" by (simp_all add: same_table_def)
    then show ?thesis using w2 t2(1,2,6) c'(1) same_table_wf [OF st] same_table_retired [OF st] same_table_cur [OF st] r2 by simp
  next
    case ok
    obtain s c2 where c2: "rqc_create_stream_with_conn notify ?c i RQC_CLI_BID None = (Some s, put_stream (c2, s))"
        "new_stream ?c i ?t s" "same_table ?c c2"
      using create_remote_spec [OF ok(2) i(1) ok(3)] t2(1) i(2) by metis
    let ?p = "put_stream (c2, s)"
    have id: "stream_id s = i" "stream_type s = ?t" using c2(2) by (auto simp: new_stream_def)
    have "stream_filed c2 i s"
      using raise_remote_filed [OF w1 _ ok(1) id] r t1 same_table_filed [OF c2(3)] by simp
    then have wp: "streams_wf ?p" using id(1) same_table_wf [OF c2(3)] w2 by (intro put_filed_wf) simp_all
    have c': "so = Some s" "c' = (if ?t = RQC_CLI_BID then ?p\<lparr>cli_bidi_streams := cli_bidi_streams ?p + 1\<rparr>
        else if ?t = RQC_SVR_BID then ?p\<lparr>svr_bidi_streams := svr_bidi_streams ?p + 1\<rparr> else ?p)"
      using e unfolding passive_create_eq c1(1) Let_def prod.case c2(1) using ok(1) by simp_all
    have st: "same_table ?p c'" unfolding c'(2) by (simp add: same_table_def)
    have "streams_hash c' = streams_hash ?p" "c_conn_type c' = c_conn_type ?p" using st by (simp_all add: same_table_def)
    moreover have "streams_hash c2 = streams_hash c" "c_conn_type c2 = c_conn_type c" using c2(3) t2(1,2) by (simp_all add: same_table_def)
    ultimately have "streams_hash c' = (streams_hash c)(i \<mapsto> s)" "c_conn_type c' = c_conn_type c" using id(1) by simp_all
    moreover have "streams_wf c'" using same_table_wf [OF st] wp by simp
    moreover have "new_stream c i ?t s" using c2(2) new_stream_conn [OF t2(2,4,5)] by simp
    moreover have "max_remote c ?t < uint (drop_bit 2 i) \<or> i \<in> passive_streams_hash c"
      using ok(1) by (simp add: raise_remote_simps t1 split: if_splits)
    moreover have "\<forall>j. retired c j \<longrightarrow> retired c' j" using same_table_retired [OF st] same_table_retired [OF c2(3)] r2 by simp
    moreover have "cur_local c' = cur_local c" using same_table_cur [OF st] same_table_cur [OF c2(3)] t2(6) by simp
    ultimately show ?thesis using c'(1) lim ok(2) t2(3) by simp
  qed
qed

subsection \<open>Properties of creation\<close>

text \<open>
  C23: opening streams locally. In a well-formed table, below the peer's limit, \<open>rqc_create_stream_with_conn\<close>
  gives a stream whose identifier carries the requested type and the next number of its kind, was not in
  use, and is in the table afterwards; the table stays well formed and the next number differs. At
  the limit nothing is created and the peer is told with a STREAMS\_BLOCKED frame that names the limit.
\<close>

theorem create_stream_typed:
  assumes "streams_wf c" "local_type (c_conn_type c) t" "\<not> conn_is_closing c"
  shows "if cur_local c t < send_limit c t then
      \<exists>s c'. rqc_create_stream_with_conn notify c RQC_UNDEFINE_STREAM_ID t rate = (Some s, c') \<and> streams_wf c' \<and>
        rqc_get_stream_type (stream_id s) = t \<and> stream_type s = t \<and> drop_bit 2 (stream_id s) = cur_local c t \<and>
        streams_hash c (stream_id s) = None \<and> streams_hash c' = (streams_hash c)(stream_id s \<mapsto> s) \<and>
        unat (cur_local c' t) = unat (cur_local c t) + 1
    else rqc_create_stream_with_conn notify c RQC_UNDEFINE_STREAM_ID t rate =
      (None, emit (Sq_Frame (Streams_Blocked (send_limit c t) (is_bid t))) c)"
proof (cases "cur_local c t < send_limit c t")
  case True
  let ?i = "mk_stream_id (cur_local c t) t"
  have fresh: "streams_hash c ?i = None" by (rule local_id_fresh [OF assms(1,2)])
  obtain s c' where c': "rqc_create_stream_with_conn notify c RQC_UNDEFINE_STREAM_ID t rate = (Some s, put_stream (c', s))"
      "new_stream c ?i t s" "same_table (bump_local c t) c'"
    using create_local_spec [OF assms(3) True fresh] by blast
  have id: "stream_id s = ?i" "stream_type s = t" using c'(2) by (auto simp: new_stream_def)
  have "stream_filed c' ?i s" using bump_local_wf(2) [OF assms(1) True assms(2) id] same_table_filed [OF c'(3)] by simp
  then have "streams_wf (put_stream (c', s))"
    using bump_local_wf(1) [OF assms(1) True] same_table_wf [OF c'(3)] id(1) by (intro put_filed_wf) simp_all
  moreover have lim: "unat (cur_local c t) < 2 ^ 60" using True streams_wfD(3) [OF assms(1), of t] by (simp add: word_less_nat_alt)
  moreover have "cur_local c' t = cur_local c t + 1" "streams_hash c' = streams_hash c"
    using c'(3) bump_local_simps(1) [of c t t] by (auto simp: same_table_def cur_local_def)
  moreover have "unat (cur_local c t + 1) = unat (cur_local c t) + 1" using lim unat_add_of_nat [of "cur_local c t" 1] by simp
  ultimately show ?thesis using True c'(1) id fresh by (simp add: drop_mk_stream_id)
next
  case False
  then show ?thesis using assms(3) by (simp add: rqc_create_stream_with_conn_def create_flow_ctl_local)
qed

subsection \<open>The receive windows\<close>

lemma window_raise:
  fixes rd limit w :: u64
  assumes "rd \<le> limit" "unat limit < 2 ^ 62" "unat w < 2 ^ 62" "limit - rd < w"
  shows "unat (limit + (w - (limit - rd))) = unat rd + unat w" "limit < limit + (w - (limit - rd))"
proof -
  have a: "unat (limit - rd) = unat limit - unat rd" using assms(1) by (simp add: unat_sub)
  have lt: "unat limit - unat rd < unat w" "unat rd \<le> unat limit"
    using assms(1,4) by (simp_all add: word_less_nat_alt word_le_nat_alt a)
  have s: "unat (w - (limit - rd)) = unat w - (unat limit - unat rd)" using assms(4) by (simp add: unat_sub a)
  show e: "unat (limit + (w - (limit - rd))) = unat rd + unat w"
    using assms(2,3) lt by (subst unat_add_lem [THEN iffD1]) (simp_all add: s)
  show "limit < limit + (w - (limit - rd))" unfolding word_less_nat_alt e using lt by simp
qed

lemma stream_new_window_bound:
  "unat (fc_stream_recv_window_size (stream_flow_ctl s)) < 2 ^ 61 \<Longrightarrow> unat (stream_new_window env (c, s)) < 2 ^ 61"
  by (auto simp: stream_new_window_def Let_def min_def word_le_nat_alt)

lemma conn_new_window_bound:
  assumes "unat (fc_recv_windows_size (conn_flow_ctl c)) < 2 ^ 61" "unat (fc_stream_recv_window_size (stream_flow_ctl s)) < 2 ^ 61"
  shows "unat (conn_new_window env (c, s)) < 2 ^ 62"
proof -
  have "3 * unat (fc_stream_recv_window_size (stream_flow_ctl s)) div 2 < 2 ^ 62" using assms(2) by simp
  moreover from this have "unat (of_nat (3 * unat (fc_stream_recv_window_size (stream_flow_ctl s)) div 2) :: u64) < 2 ^ 62"
    by (subst unat_of_nat_small) simp_all
  ultimately show ?thesis using assms(1) by (auto simp: conn_new_window_def Let_def min_def word_le_nat_alt)
qed

text \<open>One level of flow control: the limit, the position of the reader, the window.\<close>

definition window_ok :: "u64 \<Rightarrow> u64 \<Rightarrow> u64 \<Rightarrow> bool" where
  "window_ok rd limit w \<longleftrightarrow> rd \<le> limit \<and> unat limit < 2 ^ 62 \<and> unat w < 2 ^ 61"

definition window_open :: "u64 \<Rightarrow> u64 \<Rightarrow> u64 \<Rightarrow> bool" where
  "window_open rd limit w \<longleftrightarrow> unat rd + unat w div 2 \<le> unat limit"

lemma not_window_low:
  fixes rd limit w :: u64
  assumes "rd \<le> limit" "\<not> limit - rd < w div 2"
  shows "window_open rd limit w"
proof -
  have "unat (limit - rd) = unat limit - unat rd" using assms(1) by (simp add: unat_sub)
  then show ?thesis using assms by (simp add: window_open_def word_less_nat_alt word_le_nat_alt unat_div)
qed

lemma window_enough:
  fixes rd limit w :: u64
  assumes "rd \<le> limit" "\<not> limit - rd < w"
  shows "window_open rd limit w"
proof -
  have "unat (limit - rd) = unat limit - unat rd" using assms(1) by (simp add: unat_sub)
  then show ?thesis using assms by (simp add: window_open_def word_less_nat_alt word_le_nat_alt)
qed

lemma stream_window_update_spec:
  fixes c :: rqc_conn_streams and s :: rqc_stream
  defines "fc \<equiv> stream_flow_ctl s" and "rd \<equiv> next_read_offset (stream_data_in s)"
  assumes ok: "window_ok rd (fc_max_stream_data_can_recv fc) (fc_stream_recv_window_size fc)"
  shows "\<exists>fc' q. stream_window_update env (c, s) =
      (q, (if q then rqc_write_max_stream_data_to_packet c (stream_id s) (fc_max_stream_data_can_recv fc') else c),
       s\<lparr>stream_flow_ctl := fc'\<rparr>) \<and>
    window_open rd (fc_max_stream_data_can_recv fc') (fc_stream_recv_window_size fc') \<and>
    (if q then fc_max_stream_data_can_recv fc < fc_max_stream_data_can_recv fc'
     else fc_max_stream_data_can_recv fc' = fc_max_stream_data_can_recv fc) \<and>
    unat (fc_stream_recv_window_size fc') < 2 ^ 61"
proof -
  let ?lim = "fc_max_stream_data_can_recv fc" and ?w = "stream_new_window env (c, s)"
  let ?av = "?lim - rd"
  let ?fc1 = "fc\<lparr>fc_stream_recv_window_size := ?w, fc_stream_last_window_update_time := env_now env\<rparr>"
  have o: "rd \<le> ?lim" "unat ?lim < 2 ^ 62" using ok by (auto simp: window_ok_def)
  have w1: "unat ?w < 2 ^ 61" by (rule stream_new_window_bound) (use ok in \<open>simp add: window_ok_def fc_def\<close>)
  then have w: "unat ?w < 2 ^ 62" by simp
  consider (high) "\<not> ?av < fc_stream_recv_window_size fc div 2"
    | (keep) "?av < fc_stream_recv_window_size fc div 2" "\<not> ?av < ?w"
    | (raise) "?av < fc_stream_recv_window_size fc div 2" "?av < ?w" by blast
  then show ?thesis
  proof cases
    case high
    then have "stream_window_update env (c, s) = (False, c, s\<lparr>stream_flow_ctl := fc\<rparr>)"
      unfolding stream_window_update_def prod.case Let_def fc_def [symmetric] rd_def [symmetric] by (simp add: fc_def)
    moreover note not_window_low [OF o(1) high]
    moreover have "unat (fc_stream_recv_window_size fc) < 2 ^ 61" using ok by (simp add: window_ok_def)
    ultimately show ?thesis by (intro exI [of _ fc] exI [of _ False]) simp
  next
    case keep
    then have "stream_window_update env (c, s) = (False, c, s\<lparr>stream_flow_ctl := ?fc1\<rparr>)"
      unfolding stream_window_update_def prod.case Let_def fc_def [symmetric] rd_def [symmetric] by simp
    moreover note window_enough [OF o(1) keep(2)]
    ultimately show ?thesis by (intro exI [of _ ?fc1] exI [of _ False]) (use w1 in simp)
  next
    case raise
    let ?fc2 = "?fc1\<lparr>fc_max_stream_data_can_recv := ?lim + (?w - ?av)\<rparr>"
    from raise have "stream_window_update env (c, s) =
        (True, rqc_write_max_stream_data_to_packet c (stream_id s) (?lim + (?w - ?av)), s\<lparr>stream_flow_ctl := ?fc2\<rparr>)"
      unfolding stream_window_update_def prod.case Let_def fc_def [symmetric] rd_def [symmetric] by simp
    moreover have "window_open rd (?lim + (?w - ?av)) ?w"
      unfolding window_open_def window_raise(1) [OF o w raise(2)] by simp
    moreover note window_raise(2) [OF o w raise(2)]
    ultimately show ?thesis by (intro exI [of _ ?fc2] exI [of _ True]) (use w1 in simp)
  qed
qed

lemma conn_window_update_spec:
  fixes c :: rqc_conn_streams and s :: rqc_stream
  defines "fc \<equiv> conn_flow_ctl c"
  assumes ok: "window_ok (fc_data_read fc) (fc_max_data_can_recv fc) (fc_recv_windows_size fc)"
    and sw: "unat (fc_stream_recv_window_size (stream_flow_ctl s)) < 2 ^ 61"
  shows "\<exists>fc' q. conn_window_update env (c, s) =
      (q, (if q then rqc_write_max_data_to_packet (c\<lparr>conn_flow_ctl := fc'\<rparr>) (fc_max_data_can_recv fc') else c\<lparr>conn_flow_ctl := fc'\<rparr>), s) \<and>
    window_open (fc_data_read fc) (fc_max_data_can_recv fc') (fc_recv_windows_size fc') \<and>
    (if q then fc_max_data_can_recv fc < fc_max_data_can_recv fc' else fc_max_data_can_recv fc' = fc_max_data_can_recv fc)"
proof -
  let ?lim = "fc_max_data_can_recv fc" and ?w = "conn_new_window env (c, s)" and ?rd = "fc_data_read fc"
  let ?av = "?lim - ?rd"
  let ?fc1 = "fc\<lparr>fc_recv_windows_size := ?w, fc_last_window_update_time := env_now env\<rparr>"
  have o: "?rd \<le> ?lim" "unat ?lim < 2 ^ 62" using ok by (auto simp: window_ok_def)
  have w: "unat ?w < 2 ^ 62" by (rule conn_new_window_bound [OF _ sw]) (use ok in \<open>simp add: window_ok_def fc_def\<close>)
  consider (high) "\<not> ?av < fc_recv_windows_size fc div 2"
    | (keep) "?av < fc_recv_windows_size fc div 2" "\<not> ?av < ?w"
    | (raise) "?av < fc_recv_windows_size fc div 2" "?av < ?w" by blast
  then show ?thesis
  proof cases
    case high
    then have "conn_window_update env (c, s) = (False, c\<lparr>conn_flow_ctl := fc\<rparr>, s)"
      unfolding conn_window_update_def prod.case Let_def fc_def [symmetric] by (simp add: fc_def)
    moreover note not_window_low [OF o(1) high]
    ultimately show ?thesis by (intro exI [of _ fc] exI [of _ False]) simp
  next
    case keep
    then have "conn_window_update env (c, s) = (False, c\<lparr>conn_flow_ctl := ?fc1\<rparr>, s)"
      unfolding conn_window_update_def prod.case Let_def fc_def [symmetric] by simp
    moreover note window_enough [OF o(1) keep(2)]
    ultimately show ?thesis by (intro exI [of _ ?fc1] exI [of _ False]) simp
  next
    case raise
    let ?fc2 = "?fc1\<lparr>fc_max_data_can_recv := ?lim + (?w - ?av)\<rparr>"
    from raise have "conn_window_update env (c, s) =
        (True, rqc_write_max_data_to_packet (c\<lparr>conn_flow_ctl := ?fc2\<rparr>) (?lim + (?w - ?av)), s)"
      unfolding conn_window_update_def prod.case Let_def fc_def [symmetric] by simp
    moreover have "window_open ?rd (?lim + (?w - ?av)) ?w"
      unfolding window_open_def window_raise(1) [OF o w raise(2)] by simp
    moreover note window_raise(2) [OF o w raise(2)]
    ultimately show ?thesis by (intro exI [of _ ?fc2] exI [of _ True]) simp
  qed
qed

text \<open>
  C22: no deadlock of flow control. After a read, \<open>rqc_stream_do_recv_flow_ctl\<close> leaves the peer at
  least half of the receive window as credit beyond what the application has read, for the stream and
  for the connection; the limits never shrink, and each limit that was raised is announced in exactly
  one frame with the new value.
\<close>

theorem recv_flow_ctl_reopens:
  assumes ok: "window_ok (next_read_offset (stream_data_in s)) (fc_max_stream_data_can_recv (stream_flow_ctl s))
      (fc_stream_recv_window_size (stream_flow_ctl s))"
    and okc: "window_ok (fc_data_read (conn_flow_ctl c)) (fc_max_data_can_recv (conn_flow_ctl c)) (fc_recv_windows_size (conn_flow_ctl c))"
  shows "\<exists>c' s'. rqc_stream_do_recv_flow_ctl env (c, s) = (c', s') \<and>
    window_open (next_read_offset (stream_data_in s)) (fc_max_stream_data_can_recv (stream_flow_ctl s'))
      (fc_stream_recv_window_size (stream_flow_ctl s')) \<and>
    window_open (fc_data_read (conn_flow_ctl c)) (fc_max_data_can_recv (conn_flow_ctl c')) (fc_recv_windows_size (conn_flow_ctl c')) \<and>
    fc_max_stream_data_can_recv (stream_flow_ctl s) \<le> fc_max_stream_data_can_recv (stream_flow_ctl s') \<and>
    fc_max_data_can_recv (conn_flow_ctl c) \<le> fc_max_data_can_recv (conn_flow_ctl c') \<and>
    sndq_ops c' = sndq_ops c @
      (if fc_max_stream_data_can_recv (stream_flow_ctl s') = fc_max_stream_data_can_recv (stream_flow_ctl s) then []
       else [Sq_Frame (Max_Stream_Data (stream_id s) (fc_max_stream_data_can_recv (stream_flow_ctl s')))]) @
      (if fc_max_data_can_recv (conn_flow_ctl c') = fc_max_data_can_recv (conn_flow_ctl c) then []
       else [Sq_Frame (Max_Data (fc_max_data_can_recv (conn_flow_ctl c')))])"
proof -
  obtain f q where u: "stream_window_update env (c, s) =
      (q, (if q then rqc_write_max_stream_data_to_packet c (stream_id s) (fc_max_stream_data_can_recv f) else c), s\<lparr>stream_flow_ctl := f\<rparr>)"
    "window_open (next_read_offset (stream_data_in s)) (fc_max_stream_data_can_recv f) (fc_stream_recv_window_size f)"
    "if q then fc_max_stream_data_can_recv (stream_flow_ctl s) < fc_max_stream_data_can_recv f
     else fc_max_stream_data_can_recv f = fc_max_stream_data_can_recv (stream_flow_ctl s)"
    "unat (fc_stream_recv_window_size f) < 2 ^ 61" using stream_window_update_spec [OF ok] by blast
  define c1 where "c1 = (if q then rqc_write_max_stream_data_to_packet c (stream_id s) (fc_max_stream_data_can_recv f) else c)"
  have c1: "conn_flow_ctl c1 = conn_flow_ctl c" "sndq_ops c1 = sndq_ops c @
      (if q then [Sq_Frame (Max_Stream_Data (stream_id s) (fc_max_stream_data_can_recv f))] else [])"
    by (simp_all add: c1_def rqc_write_max_stream_data_to_packet_def emit_def)
  have okc1: "window_ok (fc_data_read (conn_flow_ctl c1)) (fc_max_data_can_recv (conn_flow_ctl c1)) (fc_recv_windows_size (conn_flow_ctl c1))"
    using okc c1(1) by simp
  have sw: "unat (fc_stream_recv_window_size (stream_flow_ctl (s\<lparr>stream_flow_ctl := f\<rparr>))) < 2 ^ 61" using u(4) by simp
  obtain g p where v: "conn_window_update env (c1, s\<lparr>stream_flow_ctl := f\<rparr>) =
      (p, (if p then rqc_write_max_data_to_packet (c1\<lparr>conn_flow_ctl := g\<rparr>) (fc_max_data_can_recv g) else c1\<lparr>conn_flow_ctl := g\<rparr>), s\<lparr>stream_flow_ctl := f\<rparr>)"
    "window_open (fc_data_read (conn_flow_ctl c)) (fc_max_data_can_recv g) (fc_recv_windows_size g)"
    "if p then fc_max_data_can_recv (conn_flow_ctl c) < fc_max_data_can_recv g
     else fc_max_data_can_recv g = fc_max_data_can_recv (conn_flow_ctl c)"
    using conn_window_update_spec [OF okc1 sw, of env] unfolding c1(1) by blast
  define c2 where "c2 = (if p then rqc_write_max_data_to_packet (c1\<lparr>conn_flow_ctl := g\<rparr>) (fc_max_data_can_recv g) else c1\<lparr>conn_flow_ctl := g\<rparr>)"
  have c2: "conn_flow_ctl c2 = g" "sndq_ops c2 = sndq_ops c1 @ (if p then [Sq_Frame (Max_Data (fc_max_data_can_recv g))] else [])"
    by (simp_all add: c2_def rqc_write_max_data_to_packet_def emit_def)
  define c3 where "c3 = (if (q \<or> p) \<and> \<not> env_running env then engine_activate c2 else c2)"
  have "rqc_stream_do_recv_flow_ctl env (c, s) = (c3, s\<lparr>stream_flow_ctl := f\<rparr>)"
    unfolding rqc_stream_do_recv_flow_ctl_def u(1) c1_def [symmetric] Let_def prod.case v(1) c2_def [symmetric]
    by (simp add: c3_def)
  moreover have "conn_flow_ctl c3 = g" "sndq_ops c3 = sndq_ops c2" using c2(1) by (simp_all add: c3_def engine_activate_def)
  moreover have "(fc_max_stream_data_can_recv f = fc_max_stream_data_can_recv (stream_flow_ctl s)) = (\<not> q)"
    "fc_max_stream_data_can_recv (stream_flow_ctl s) \<le> fc_max_stream_data_can_recv f" using u(3) by (auto split: if_splits)
  moreover have "(fc_max_data_can_recv g = fc_max_data_can_recv (conn_flow_ctl c)) = (\<not> p)"
    "fc_max_data_can_recv (conn_flow_ctl c) \<le> fc_max_data_can_recv g" using v(3) by (auto split: if_splits)
  ultimately show ?thesis using u(2) v(2) c2(2) c1(2)
    by (intro exI [of _ c3] exI [of _ "s\<lparr>stream_flow_ctl := f\<rparr>"]) simp
qed

text \<open>The settings that the limits of a stream come from do not change while it is created.\<close>

lemma create_flow_ctl_settings:
  "rqc_stream_do_create_flow_ctl c sid t = (ret, c') \<Longrightarrow>
     c_conn_type c' = c_conn_type c \<and> local_settings c' = local_settings c \<and> remote_settings c' = remote_settings c"
  by (auto simp: rqc_stream_do_create_flow_ctl_def Let_def rqc_write_streams_blocked_to_packet_def rqc_write_max_streams_to_packet_def
      conn_error_def emit_def split: if_splits)

lemma create_new_stream:
  assumes "rqc_create_stream_with_conn notify c sid t rate = (Some s, c')"
  shows "new_stream c (stream_id s) (if sid = RQC_UNDEFINE_STREAM_ID then t else rqc_get_stream_type sid) s"
proof -
  let ?t = "if sid = RQC_UNDEFINE_STREAM_ID then t else rqc_get_stream_type sid"
  obtain ret c1 where f: "rqc_stream_do_create_flow_ctl c sid t = (ret, c1)" by (rule prod.exhaust)
  define i where "i = (if sid = RQC_UNDEFINE_STREAM_ID then fst (rqc_gen_stream_id c1 t) else sid)"
  define c2 where "c2 = (if sid = RQC_UNDEFINE_STREAM_ID then snd (rqc_gen_stream_id c1 t) else c1)"
  define z where "z = rqc_stream_set_flow_ctl (c1, stream_zero)"
  define u where "u = (if sid = RQC_UNDEFINE_STREAM_ID then z\<lparr>stream_type := ?t, stream_id := i\<rparr> else z\<lparr>stream_id := i, stream_type := ?t\<rparr>)"
  let ?c = "c2\<lparr>conn_all_streams := conn_all_streams c2 @ [i]\<rparr>"
  have e: "(Some s, c') = finish_create notify (sid = RQC_UNDEFINE_STREAM_ID) rate (?c, u)"
    using assms by (auto simp: rqc_create_stream_with_conn_def f i_def c2_def u_def z_def Let_def split_def split: if_splits)
  have eq: "z = rqc_stream_set_flow_ctl (c, stream_zero)"
    using create_flow_ctl_settings [OF f] by (simp add: z_def rqc_stream_set_flow_ctl_def Let_def)
  have "new_stream c i ?t u" unfolding u_def eq using new_stream_zero by simp
  from finish_create_spec [OF this, of notify "sid = RQC_UNDEFINE_STREAM_ID" rate ?c] obtain s' c''
    where n: "finish_create notify (sid = RQC_UNDEFINE_STREAM_ID) rate (?c, u) = (Some s', c'')" "new_stream c i ?t s'" by blast
  have "s = s'" using e n(1) by simp
  moreover have "stream_id s' = i" using n(2) by (simp add: new_stream_def)
  ultimately show ?thesis using n(2) by simp
qed

text \<open>
  C26: the initial limits of every new stream, opened locally or by the peer, are those of a client-initiated
  bidirectional stream, whatever its type: the limits are set while the type is still the zero of \<open>rqc_calloc\<close>.
\<close>

theorem create_stream_limits:
  assumes "rqc_create_stream_with_conn notify c sid t rate = (Some s, c')"
  shows "stream_flow_ctl s = stream_flow_ctl (rqc_stream_set_flow_ctl (c, stream_zero\<lparr>stream_type := RQC_CLI_BID\<rparr>)) \<and>
    stream_type s = (if sid = RQC_UNDEFINE_STREAM_ID then t else rqc_get_stream_type sid)"
proof -
  have "stream_zero\<lparr>stream_type := RQC_CLI_BID\<rparr> = stream_zero" by (simp add: stream_zero_def)
  then show ?thesis using create_new_stream [OF assms] by (simp add: new_stream_def)
qed

text \<open>What the operations around a read keep: the received data and the state of the receiving side.\<close>

definition same_data :: "rqc_stream \<Rightarrow> rqc_stream \<Rightarrow> bool" where
  "same_data s s' \<longleftrightarrow> stream_data_in s' = stream_data_in s \<and> stream_state_recv s' = stream_state_recv s"

definition same_read :: "conn_stream \<Rightarrow> conn_stream \<Rightarrow> bool" where
  "same_read cs cs' \<longleftrightarrow> same_data (snd cs) (snd cs') \<and>
     fc_data_read (conn_flow_ctl (fst cs')) = fc_data_read (conn_flow_ctl (fst cs))"

lemma same_read_refl [simp]: "same_read cs cs"
  by (simp add: same_read_def same_data_def)

lemma same_read_trans: "same_read a b \<Longrightarrow> same_read b c \<Longrightarrow> same_read a c"
  by (simp add: same_read_def same_data_def)

lemma shutdown_same_read:
  "same_read cs (rqc_stream_shutdown_read cs)" "same_read cs (rqc_stream_shutdown_write cs)"
  by (cases cs; simp add: same_read_def same_data_def rqc_stream_shutdown_read_def rqc_stream_shutdown_write_def upd_flag_def)+

lemma close_same_read: "same_read cs (rqc_stream_maybe_need_close env cs)"
proof -
  obtain c s where cs: "cs = (c, s)" by (rule prod.exhaust)
  have 1: "same_read cs' (rqc_stream_shutdown_write (rqc_stream_shutdown_read cs'))" for cs'
    using same_read_trans [OF shutdown_same_read(1) shutdown_same_read(2)] .
  have "same_read (c, s) (schedule_close env (c, s))"
    unfolding schedule_close_def prod.case Let_def
    by (rule same_read_trans [OF _ 1]) (simp add: same_read_def same_data_def upd_flag_def)
  then show ?thesis by (simp add: rqc_stream_maybe_need_close_def cs)
qed

lemma flow_ctl_same_read: "same_read cs (rqc_stream_do_recv_flow_ctl env cs)"
proof -
  have s: "same_read cs (snd (stream_window_update env cs))" for cs
    by (cases cs) (simp add: same_read_def same_data_def stream_window_update_def Let_def rqc_write_max_stream_data_to_packet_def emit_def)
  have c: "same_read cs (snd (conn_window_update env cs))" for cs
    by (cases cs) (simp add: same_read_def same_data_def conn_window_update_def Let_def rqc_write_max_data_to_packet_def emit_def)
  have "same_read cs (snd (conn_window_update env (snd (stream_window_update env cs))))"
    by (rule same_read_trans [OF s c])
  then show ?thesis
    by (simp add: rqc_stream_do_recv_flow_ctl_def split_def Let_def same_read_def engine_activate_def)
qed

lemma recv_fin_read:
  "same_read (c, s\<lparr>stream_state_recv :=
      (if fin \<and> stream_state_recv s = RQC_RECV_STREAM_ST_DATA_RECVD then RQC_RECV_STREAM_ST_DATA_READ else stream_state_recv s)\<rparr>)
    (recv_fin env fin (c, s))"
  using close_same_read [of "(c, s\<lparr>stream_state_recv := RQC_RECV_STREAM_ST_DATA_READ\<rparr>)" env]
  by (simp add: recv_fin_def rqc_stream_recv_state_update_def)

text \<open>How much a call copies, and whether it reaches the end.\<close>

definition recv_count :: "u64 \<Rightarrow> rqc_stream_data_in \<Rightarrow> nat" where
  "recv_count n d = min (unat n) (unat (merged_offset_end d) - unat (next_read_offset d))"

definition recv_end :: "u64 \<Rightarrow> rqc_stream_data_in \<Rightarrow> bool" where
  "recv_end n d \<longleftrightarrow> stream_determined d \<and> unat (next_read_offset d) + recv_count n d = unat (stream_length d)"

definition recv_bytes :: "(nat \<Rightarrow> byte) \<Rightarrow> u64 \<Rightarrow> rqc_stream_data_in \<Rightarrow> byte list" where
  "recv_bytes S n d = map S [unat (next_read_offset d) ..< unat (next_read_offset d) + recv_count n d]"

lemma recv_bytes_length: "length (recv_bytes S n d) = recv_count n d" "recv_bytes S n d = [] \<longleftrightarrow> recv_count n d = 0"
  by (auto simp: recv_bytes_def)

lemma rqc_stream_recv_spec:
  assumes ok: "din_ok S (stream_data_in s)" and st: "stream_state_recv s < RQC_RECV_STREAM_ST_RESET_RECVD"
  defines "d \<equiv> stream_data_in s"
  shows "\<exists>c' s'. rqc_stream_recv env n (c, s) =
      Inr (if recv_count n d = 0 \<and> \<not> recv_end n d then - RQC_EAGAIN else int (recv_count n d), recv_bytes S n d, recv_end n d, c', s') \<and>
    din_ok S (stream_data_in s') \<and> unat (next_read_offset (stream_data_in s')) = unat (next_read_offset d) + recv_count n d \<and>
    received (stream_data_in s') = received d \<and> merged_offset_end (stream_data_in s') = merged_offset_end d \<and>
    stream_length (stream_data_in s') = stream_length d \<and> stream_determined (stream_data_in s') = stream_determined d \<and>
    stream_state_recv s' = (if recv_end n d \<and> stream_state_recv s = RQC_RECV_STREAM_ST_DATA_RECVD
      then RQC_RECV_STREAM_ST_DATA_READ else stream_state_recv s) \<and>
    fc_data_read (conn_flow_ctl c') = fc_data_read (conn_flow_ctl c) + of_nat (recv_count n d)"
proof -
  have ok: "din_ok S d" using ok by (simp add: d_def)
  have st': "\<not> stream_state_recv s \<ge> RQC_RECV_STREAM_ST_RESET_RECVD" using st by simp
  obtain d' where d': "stream_read n d = Inr (recv_bytes S n d, d')" "din_ok S d'"
      "unat (next_read_offset d') = unat (next_read_offset d) + recv_count n d" "received d' = received d"
      "merged_offset_end d' = merged_offset_end d" "stream_length d' = stream_length d" "stream_determined d' = stream_determined d"
    using stream_read_spec [OF ok, of n] unfolding recv_bytes_def recv_count_def by blast
  have fin: "(stream_determined d' \<and> next_read_offset d' = stream_length d') = recv_end n d"
    by (simp add: recv_end_def d' word_unat_eq_iff)
  define u where "u = recv_fin env (recv_end n d) (c, s\<lparr>stream_data_in := d'\<rparr>)"
  define r where "r = rqc_stream_do_recv_flow_ctl env (rqc_stream_shutdown_read (add_data_read (recv_count n d) u))"
  have e: "rqc_stream_recv env n (c, s) =
      Inr (if recv_count n d = 0 \<and> \<not> recv_end n d then - RQC_EAGAIN else int (recv_count n d), recv_bytes S n d, recv_end n d, r)"
    using st' d'(1) unfolding rqc_stream_recv_def prod.case d_def [symmetric] r_def u_def
    by (simp only: if_False res_bind_simps prod.case fin Let_def recv_bytes_length)
  have ur: "stream_data_in (snd u) = d'" "fc_data_read (conn_flow_ctl (fst u)) = fc_data_read (conn_flow_ctl c)"
    "stream_state_recv (snd u) = (if recv_end n d \<and> stream_state_recv s = RQC_RECV_STREAM_ST_DATA_RECVD
       then RQC_RECV_STREAM_ST_DATA_READ else stream_state_recv s)"
    using recv_fin_read [where c = c and s = "s\<lparr>stream_data_in := d'\<rparr>" and fin = "recv_end n d" and env = env]
    by (simp_all add: u_def [symmetric] same_read_def same_data_def)
  have "same_read (add_data_read (recv_count n d) u) r"
    unfolding r_def by (rule same_read_trans [OF shutdown_same_read(1) flow_ctl_same_read])
  then have "stream_data_in (snd r) = d'" "fc_data_read (conn_flow_ctl (fst r)) = fc_data_read (conn_flow_ctl c) + of_nat (recv_count n d)"
    "stream_state_recv (snd r) = stream_state_recv (snd u)"
    using ur by (simp_all add: same_read_def same_data_def add_data_read_def split_def)
  then show ?thesis using e ur(3) d'(2-7) by (intro exI [of _ "fst r"] exI [of _ "snd r"]) simp
qed

lemma rqc_stream_peek_spec:
  assumes ok: "din_ok S (stream_data_in s)" and st: "stream_state_recv s < RQC_RECV_STREAM_ST_RESET_RECVD"
  defines "d \<equiv> stream_data_in s"
  shows "rqc_stream_peek env n (c, s) =
      Inr (if merged_offset_end d = next_read_offset d \<and> \<not> (stream_determined d \<and> merged_offset_end d = stream_length d)
           then - RQC_EAGAIN else int (recv_count n d),
        recv_bytes S n d, merged_offset_end d - next_read_offset d,
        stream_determined d \<and> merged_offset_end d = stream_length d, rqc_stream_shutdown_read (c, s))"
proof -
  have ok: "din_ok S d" using ok by (simp add: d_def)
  have st': "(stream_state_recv s \<ge> RQC_RECV_STREAM_ST_RESET_RECVD) = False" using st by simp
  have le: "next_read_offset d \<le> merged_offset_end d" by (rule merged_least(3) [OF ok])
  then have lt: "(merged_offset_end d < next_read_offset d) = False"
    and un: "unat (merged_offset_end d - next_read_offset d) = unat (merged_offset_end d) - unat (next_read_offset d)"
    by (auto simp: unat_sub)
  have rd: "reading S (merged_offset_end d) (next_read_offset d) (frames_tailq d)" using ok by (simp add: din_ok_reading)
  have "(0 :: u64) \<le> n" "(0 :: u64) \<le> next_read_offset d" by simp_all
  from peek_loop_spec [OF rd this, of "[]"] obtain k where
    k: "peek_loop n (frames_tailq d) (next_read_offset d) 0 [] = Inr (k, recv_bytes S n d)" "unat k = recv_count n d"
    unfolding recv_bytes_def recv_count_def by auto
  have kl: "(k < min (merged_offset_end d - next_read_offset d) n) = False"
    using k(2) un by (auto simp: recv_count_def word_less_nat_alt min_def word_le_nat_alt split: if_splits)
  have "uint k = int (recv_count n d)" by (simp only: uint_nat k(2))
  moreover have "merged_offset_end d - next_read_offset d = 0 \<longleftrightarrow> merged_offset_end d = next_read_offset d" by simp
  ultimately show ?thesis
    unfolding rqc_stream_peek_def prod.case Let_def d_def [symmetric] st' lt if_False k(1) res_bind_simps kl by (simp only:)
qed

text \<open>
  C4: reading a stream. With the receiving state well formed and the stream not reset, \<open>rqc_stream_recv\<close>
  copies exactly the next \<open>min n available\<close> bytes of the sender's stream, moves the reader past them and
  counts them for flow control; it reports the end of the stream exactly when the final size is known
  and reached, marks a completely received stream as read then, and returns \<open>-RQC_EAGAIN\<close> exactly
  when there is neither data nor the end. \<open>rqc_stream_peek\<close> gives the same bytes and their number, or
  \<open>-RQC_EAGAIN\<close> when there is neither data nor the end, reports how many bytes are readable and whether
  they reach the final size, and leaves the connection and the stream as they are but for the read notification,
  which it acknowledges: the stream leaves the list of readable streams and its flag is cleared.
\<close>

theorem rqc_stream_recv_correct:
  assumes "din_ok S (stream_data_in s)" and "stream_state_recv s < RQC_RECV_STREAM_ST_RESET_RECVD"
  shows "(\<exists>c' s'. rqc_stream_recv env n (c, s) =
        Inr (if recv_count n (stream_data_in s) = 0 \<and> \<not> recv_end n (stream_data_in s) then - RQC_EAGAIN
             else int (recv_count n (stream_data_in s)),
             recv_bytes S n (stream_data_in s), recv_end n (stream_data_in s), c', s') \<and>
      din_ok S (stream_data_in s') \<and>
      unat (next_read_offset (stream_data_in s')) = unat (next_read_offset (stream_data_in s)) + recv_count n (stream_data_in s) \<and>
      received (stream_data_in s') = received (stream_data_in s) \<and>
      stream_state_recv s' = (if recv_end n (stream_data_in s) \<and> stream_state_recv s = RQC_RECV_STREAM_ST_DATA_RECVD
        then RQC_RECV_STREAM_ST_DATA_READ else stream_state_recv s) \<and>
      fc_data_read (conn_flow_ctl c') = fc_data_read (conn_flow_ctl c) + of_nat (recv_count n (stream_data_in s))) \<and>
    rqc_stream_peek env n (c, s) =
      Inr (if merged_offset_end (stream_data_in s) = next_read_offset (stream_data_in s) \<and>
              \<not> (stream_determined (stream_data_in s) \<and> merged_offset_end (stream_data_in s) = stream_length (stream_data_in s))
           then - RQC_EAGAIN else int (recv_count n (stream_data_in s)),
        recv_bytes S n (stream_data_in s), merged_offset_end (stream_data_in s) - next_read_offset (stream_data_in s),
        stream_determined (stream_data_in s) \<and> merged_offset_end (stream_data_in s) = stream_length (stream_data_in s),
        if has_flag RQC_STREAM_FLAG_READY_TO_READ s
        then (c\<lparr>conn_read_streams := remove1 (stream_id s) (conn_read_streams c)\<rparr>,
              s\<lparr>stream_flag := stream_flag s AND NOT RQC_STREAM_FLAG_READY_TO_READ\<rparr>)
        else (c, s))"
proof -
  have "rqc_stream_shutdown_read (c, s) =
      (if has_flag RQC_STREAM_FLAG_READY_TO_READ s
       then (c\<lparr>conn_read_streams := remove1 (stream_id s) (conn_read_streams c)\<rparr>,
             s\<lparr>stream_flag := stream_flag s AND NOT RQC_STREAM_FLAG_READY_TO_READ\<rparr>)
       else (c, s))" by (simp add: rqc_stream_shutdown_read_def upd_flag_def)
  then show ?thesis using rqc_stream_recv_spec [OF assms, of env n c] rqc_stream_peek_spec [OF assms, of env n c]
    by (intro conjI) (blast, simp only:)
qed

text \<open>A server with distinct limits per kind of stream.\<close>

definition ex_settings :: rqc_trans_settings where
  "ex_settings = \<lparr>max_data = 5000, max_stream_data_bidi_local = 1000, max_stream_data_bidi_remote = 2000,
     max_stream_data_uni = 300, max_streams_bidi = 8, max_streams_uni = 8\<rparr>"

definition ex_sconn :: rqc_conn_streams where
  "ex_sconn = \<lparr>c_conn_type = RQC_CONN_TYPE_SERVER, c_conn_state = RQC_CONN_STATE_ESTABED, c_conn_flag = 0, c_conn_err = 0,
     streams_hash = (\<lambda>_. None), passive_streams_hash = {}, conn_write_streams = [], conn_read_streams = [],
     conn_closing_streams = [], conn_all_streams = [], cur_stream_id_bidi_local = 0, cur_stream_id_uni_local = 3,
     max_stream_id_bidi_remote = -1, max_stream_id_uni_remote = -1, local_settings = ex_settings, remote_settings = ex_settings,
     conn_flow_ctl = \<lparr>fc_max_data_can_send = 5000, fc_data_sent = 0, fc_max_data_can_recv = 5000, fc_data_recved = 0, fc_data_read = 0,
       fc_max_streams_bidi_can_send = 8, fc_max_streams_bidi_can_recv = 8, fc_max_streams_uni_can_send = 8,
       fc_max_streams_uni_can_recv = 8, fc_recv_windows_size = 5000, fc_last_window_update_time = 0\<rparr>,
     init_recv_window = 0, conn_recv_rate_bytes_per_sec = 0, enable_stream_rate_limit = False, pkt_out_size = 1200,
     stream_close_timer = None, finished_streams = 0, cli_bidi_streams = 0, svr_bidi_streams = 0, sndq_ops = [], conn_active = False\<rparr>"

lemma ex_sconn_wf: "streams_wf ex_sconn" "\<not> conn_is_closing ex_sconn"
  by (auto simp: streams_wf_def ex_sconn_def conn_is_closing_def cur_local_def send_limit_def max_remote_def)

theorem create_stream_typed_witness:
  "\<exists>s c'. rqc_create_stream_with_conn None ex_sconn RQC_UNDEFINE_STREAM_ID RQC_SVR_UNI None = (Some s, c') \<and>
     rqc_get_stream_type (stream_id s) = RQC_SVR_UNI \<and> drop_bit 2 (stream_id s) = 3"
  using create_stream_typed [OF ex_sconn_wf(1) _ ex_sconn_wf(2), of RQC_SVR_UNI None None]
  by (auto simp: local_type_def ex_sconn_def cur_local_def send_limit_def is_bid_def)

text \<open>A unidirectional stream of the server, and one of the client (identifier 2).\<close>

theorem create_stream_limits_witness:
  "(case rqc_create_stream_with_conn None ex_sconn RQC_UNDEFINE_STREAM_ID RQC_SVR_UNI None of
     (Some s, _) \<Rightarrow> stream_type s = RQC_SVR_UNI \<and> fc_max_stream_data_can_recv (stream_flow_ctl s) = 2000
   | (None, _) \<Rightarrow> False) \<and>
   (case rqc_create_stream_with_conn None ex_sconn 2 RQC_CLI_UNI None of
     (Some s, _) \<Rightarrow> stream_type s = RQC_CLI_UNI \<and> fc_max_stream_data_can_recv (stream_flow_ctl s) = 2000
   | (None, _) \<Rightarrow> False) \<and> max_stream_data_uni (local_settings ex_sconn) = 300"
proof -
  have t: "local_type (c_conn_type ex_sconn) RQC_SVR_UNI" by (simp add: local_type_def ex_sconn_def)
  obtain s c' where e: "rqc_create_stream_with_conn None ex_sconn RQC_UNDEFINE_STREAM_ID RQC_SVR_UNI None = (Some s, c')"
    using create_local_spec [OF ex_sconn_wf(2) _ local_id_fresh [OF ex_sconn_wf(1) t], of None None]
    by (auto simp: ex_sconn_def cur_local_def send_limit_def is_bid_def)
  have u: "rqc_get_stream_type 2 = RQC_CLI_UNI" by (simp add: rqc_get_stream_type_def)
  have "fst (rqc_create_stream_with_conn None ex_sconn 2 RQC_CLI_UNI None) \<noteq> None"
    by (simp add: rqc_create_stream_with_conn_def rqc_stream_do_create_flow_ctl_def finish_create_def u Let_def is_bid_def ex_sconn_def
        conn_is_closing_def split_def)
  then obtain s2 c2 where e2: "rqc_create_stream_with_conn None ex_sconn 2 RQC_CLI_UNI None = (Some s2, c2)" by (metis fst_conv option.exhaust surj_pair)
  have l: "fc_max_stream_data_can_recv (stream_flow_ctl (rqc_stream_set_flow_ctl (ex_sconn, stream_zero\<lparr>stream_type := RQC_CLI_BID\<rparr>))) = 2000"
    by (simp add: rqc_stream_set_flow_ctl_def set_limits_def Let_def ex_sconn_def ex_settings_def)
  have "max_stream_data_uni (local_settings ex_sconn) = 300" by (simp add: ex_sconn_def ex_settings_def)
  then show ?thesis using create_stream_limits [OF e] create_stream_limits [OF e2] u unfolding e e2 by (simp add: l)
qed

definition ex_stream :: rqc_stream where
  "ex_stream = stream_zero\<lparr>stream_id := 4,
     stream_flow_ctl := \<lparr>fc_max_stream_data_can_send = 1000, fc_max_stream_data_can_recv = 1000,
       fc_stream_recv_window_size = 1000, fc_stream_last_window_update_time = 0\<rparr>,
     stream_data_in := stream_in_init\<lparr>merged_offset_end := 700, next_read_offset := 700\<rparr>\<rparr>"

theorem recv_flow_ctl_reopens_witness:
  "case rqc_stream_do_recv_flow_ctl \<lparr>env_now = 50, env_srtt = Some 10, env_pto = None, env_running = False\<rparr> (ex_sconn, ex_stream) of
     (c', s') \<Rightarrow> fc_max_stream_data_can_recv (stream_flow_ctl s') = 1700 \<and>
       window_open 700 (fc_max_stream_data_can_recv (stream_flow_ctl s')) (fc_stream_recv_window_size (stream_flow_ctl s')) \<and>
       sndq_ops c' = [Sq_Frame (Max_Stream_Data 4 1700)]"
proof -
  let ?env = "\<lparr>env_now = 50, env_srtt = Some 10, env_pto = None, env_running = False\<rparr> :: stream_env"
  have w: "window_ok (next_read_offset (stream_data_in ex_stream)) (fc_max_stream_data_can_recv (stream_flow_ctl ex_stream))
      (fc_stream_recv_window_size (stream_flow_ctl ex_stream))"
    "window_ok (fc_data_read (conn_flow_ctl ex_sconn)) (fc_max_data_can_recv (conn_flow_ctl ex_sconn)) (fc_recv_windows_size (conn_flow_ctl ex_sconn))"
    by (simp_all add: window_ok_def ex_stream_def ex_sconn_def)
  have e: "case rqc_stream_do_recv_flow_ctl ?env (ex_sconn, ex_stream) of (c', s') \<Rightarrow>
      fc_max_stream_data_can_recv (stream_flow_ctl s') = 1700 \<and> fc_max_data_can_recv (conn_flow_ctl c') = 5000"
    by (simp add: rqc_stream_do_recv_flow_ctl_def stream_window_update_def conn_window_update_def stream_new_window_def Let_def
        ex_stream_def ex_sconn_def stream_in_init_def stream_zero_def rqc_write_max_stream_data_to_packet_def emit_def engine_activate_def)
  obtain c' s' where r: "rqc_stream_do_recv_flow_ctl ?env (ex_sconn, ex_stream) = (c', s')" by (rule prod.exhaust)
  from recv_flow_ctl_reopens [OF w, of ?env] e show ?thesis unfolding r
    by (simp add: ex_stream_def ex_sconn_def)
qed

theorem rqc_stream_recv_correct_witness:
  "\<exists>c' s'. rqc_stream_recv \<lparr>env_now = 50, env_srtt = Some 10, env_pto = None, env_running = False\<rparr> 3
     (ex_sconn, stream_zero\<lparr>stream_data_in := snd (rqc_insert_stream_frame stream_in_init (ex_frame 0 5))\<rparr>) =
     Inr (3, [0, 1, 2], False, c', s')"
proof -
  let ?d = "snd (rqc_insert_stream_frame stream_in_init (ex_frame 0 5))" and ?s = "\<lambda>d. stream_zero\<lparr>stream_data_in := d\<rparr>"
  have "frame_ok of_nat 0 (ex_frame 0 5)" by (simp add: frame_ok_def ex_frame_def)
  then have ok: "din_ok of_nat (stream_data_in (?s ?d))" using insert_snd(1) [OF din_ok_init(1)] by simp
  have st: "stream_state_recv (?s ?d) < RQC_RECV_STREAM_ST_RESET_RECVD" by (simp add: stream_zero_def stream_state_order)
  have d: "merged_offset_end ?d = 5" "next_read_offset ?d = 0" "stream_determined ?d = False"
    by (simp_all add: rqc_insert_stream_frame_def stream_in_init_def ex_frame_def frame_end_def)
  show ?thesis using rqc_stream_recv_correct [OF ok st, of "\<lparr>env_now = 50, env_srtt = Some 10, env_pto = None, env_running = False\<rparr>" 3 ex_sconn,
      THEN conjunct1]
    by (auto simp: d recv_count_def recv_end_def recv_bytes_def upt_rec)
qed

end
