(* ===== verification/Rqc_Frame_Process.thy ===== *)
theory Rqc_Frame_Process
  imports Rqc_Stream
begin

text \<open>
  What received frames do to streams and flow control: the handlers of
  \<open>src/transport/rqc_frame.c\<close> for STREAM, RESET_STREAM, STOP_SENDING, and the frames of flow control.

  A handler parses the frame from the packet and acts on the connection; its result is the packet
  with its new position, or the error code it returns, and the connection. The part after the
  parser is a definition of its own (\<open>on_*\<close>), in which an error code is an integer.
\<close>

type_synonym handled = "rqc_packet_in res \<times> rqc_conn_streams"

abbreviation (input) "REQUEST_CANCELLED \<equiv> (0x10C :: u64)"

definition handle :: "rqc_conn_streams \<Rightarrow> (rqc_packet_in \<times> 'a) res \<Rightarrow> ('a \<Rightarrow> int \<times> rqc_conn_streams) \<Rightarrow> handled" where
  "handle c pres act =
     (case pres of
        Inl e \<Rightarrow> (Inl e, c)
      | Inr (pi, x) \<Rightarrow> (case act x of (ret, c) \<Rightarrow> (if ret \<noteq> RQC_OK then Err ret else Inr pi, c)))"

text \<open>Looking a stream up, creating it when the peer may initiate it.\<close>

definition peer_initiated :: "rqc_conn_streams \<Rightarrow> u64 \<Rightarrow> bool" where
  "peer_initiated c sid \<longleftrightarrow>
     (let t = rqc_get_stream_type sid in
      c_conn_type c = RQC_CONN_TYPE_SERVER \<and> (t = RQC_CLI_BID \<or> t = RQC_CLI_UNI) \<or>
      c_conn_type c = RQC_CONN_TYPE_CLIENT \<and> (t = RQC_SVR_BID \<or> t = RQC_SVR_UNI))"

definition find_or_create :: "(u64 \<Rightarrow> int) option \<Rightarrow> rqc_conn_streams \<Rightarrow> u64 \<Rightarrow> rqc_stream option \<times> rqc_conn_streams" where
  "find_or_create notify c sid =
     (case streams_hash c sid of
        Some s \<Rightarrow> (Some s, c)
      | None \<Rightarrow> if peer_initiated c sid then rqc_passive_create_stream notify c sid else (None, c))"

subsection \<open>STREAM\<close>

text \<open>
  The part of \<open>rqc_process_stream_frame\<close> that works on the receiving state: the checks of the final
  size, up to the insertion. The results are an early return with its code, or to go on.
\<close>

datatype stream_verdict = Drop_Frame | Final_Size_Error | Frame_Accepted

definition stream_final_size ::
  "rqc_stream_frame_in \<Rightarrow> rqc_stream \<Rightarrow> stream_verdict \<times> rqc_stream" where
  "stream_final_size f s =
     (let d = stream_data_in s in
      if stream_state_recv s \<ge> RQC_RECV_STREAM_ST_RESET_RECVD then (Drop_Frame, s)
      else if frame_end f \<le> merged_offset_end d
              \<and> \<not> (sf_fin f \<and> sf_data_length f = 0 \<and> stream_length d = 0) then (Drop_Frame, s)
      else if sf_fin f \<and> stream_determined d \<and> stream_length d \<noteq> frame_end f then (Final_Size_Error, s)
      else
        let s = (if sf_fin f then
                   let s = s\<lparr>stream_data_in := d\<lparr>stream_length := frame_end f, stream_determined := True\<rparr>\<rparr>
                   in if stream_state_recv s = RQC_RECV_STREAM_ST_RECV
                      then rqc_stream_recv_state_update RQC_RECV_STREAM_ST_SIZE_KNOWN s else s
                 else s);
            d = stream_data_in s
        in if stream_determined d \<and> frame_end f > stream_length d then (Final_Size_Error, s)
           else (Frame_Accepted, s))"

text \<open>The receiver's accounting of flow control, after the insertion.\<close>

definition recv_account :: "rqc_stream_frame_in \<Rightarrow> conn_stream \<Rightarrow> conn_stream" where
  "recv_account f cs = (case cs of (c, s) \<Rightarrow>
     if stream_max_recv_offset s < frame_end f then
       (c\<lparr>conn_flow_ctl := (conn_flow_ctl c)\<lparr>fc_data_recved :=
            fc_data_recved (conn_flow_ctl c) + (frame_end f - stream_max_recv_offset s)\<rparr>\<rparr>,
        s\<lparr>stream_max_recv_offset := frame_end f\<rparr>)
     else (c, s))"

definition stream_data_ready :: "conn_stream \<Rightarrow> conn_stream" where
  "stream_data_ready cs = (case cs of (c, s) \<Rightarrow>
     let d = stream_data_in s in
     if stream_determined d \<and> stream_length d = merged_offset_end d then
       rqc_stream_ready_to_read (c,
         if stream_state_recv s = RQC_RECV_STREAM_ST_SIZE_KNOWN
         then rqc_stream_recv_state_update RQC_RECV_STREAM_ST_DATA_RECVD s else s)
     else if next_read_offset d < merged_offset_end d then rqc_stream_ready_to_read (c, s)
     else (c, s))"

definition on_stream_frame :: "stream_env \<Rightarrow> rqc_stream_frame_in \<Rightarrow> conn_stream \<Rightarrow> int \<times> conn_stream" where
  "on_stream_frame env f cs = (case cs of (c, s) \<Rightarrow>
     case stream_final_size f s of
       (Drop_Frame, s) \<Rightarrow> (RQC_OK, c, s)
     | (Final_Size_Error, s) \<Rightarrow> (- RQC_EPROTO, conn_error TRA_FINAL_SIZE_ERROR c, s)
     | (Frame_Accepted, s) \<Rightarrow>
         if has_flag RQC_STREAM_FLAG_DISCARDED s then
           (RQC_OK, if sf_fin f then rqc_stream_close_discarded_stream env (c, s) else (c, s))
         else
           (case rqc_insert_stream_frame (stream_data_in s) f of (ret, d) \<Rightarrow>
              if ret = - RQC_EDUP_FRAME then (RQC_OK, c, s)
              else if ret \<noteq> 0 then (ret, c, s)
              else
                case recv_account f (c, s\<lparr>stream_data_in := d\<rparr>) of (c, s) \<Rightarrow>
                  if fc_data_recved (conn_flow_ctl c) > fc_max_data_can_recv (conn_flow_ctl c)
                  then (- RQC_EPROTO, conn_error TRA_FLOW_CONTROL_ERROR c, s)
                  else if stream_max_recv_offset s > fc_max_stream_data_can_recv (stream_flow_ctl s)
                  then (- RQC_EPROTO, conn_error TRA_FLOW_CONTROL_ERROR c, s)
                  else (RQC_OK, stream_data_ready (c, s))))"

definition store :: "int \<times> conn_stream \<Rightarrow> int \<times> rqc_conn_streams" where
  "store r = (fst r, put_stream (snd r))"

definition frame_in :: "rqc_stream_frame \<Rightarrow> rqc_stream_frame_in" where
  "frame_in f = rqc_stream_frame.extend f \<lparr>sf_next_read_offset = 0\<rparr>"

definition rqc_process_stream_frame ::
  "stream_env \<Rightarrow> (u64 \<Rightarrow> int) option \<Rightarrow> rqc_conn_streams \<Rightarrow> rqc_packet_in \<Rightarrow> handled" where
  "rqc_process_stream_frame env notify c pi =
     (case rqc_parse_stream_frame True pi (c_conn_err c) of (pres, err) \<Rightarrow>
        handle (if err \<noteq> c_conn_err c then conn_error err c else c) pres
          (\<lambda>(f, sid). case find_or_create notify c sid of
             (None, c) \<Rightarrow> (RQC_OK, c)
           | (Some s, c) \<Rightarrow> store (on_stream_frame env (frame_in f) (c, s))))"

subsection \<open>RESET\_STREAM and STOP\_SENDING\<close>

definition on_reset_stream :: "u64 \<Rightarrow> u64 \<Rightarrow> conn_stream \<Rightarrow> conn_stream" where
  "on_reset_stream err_code final_size cs = (case cs of (c, s) \<Rightarrow>
     let s = s\<lparr>stream_err := err_code\<rparr>;
         (c, s) = (if stream_state_send s < RQC_SEND_STREAM_ST_RESET_SENT
                   then rqc_write_reset_stream_to_packet err_code (stream_send_offset s)
                          (emit (Sq_Drop_Stream (stream_id s)) c, s)
                   else (c, s))
     in if stream_state_recv s < RQC_RECV_STREAM_ST_RESET_RECVD then
          let s = rqc_stream_recv_state_update RQC_RECV_STREAM_ST_RESET_RECVD s;
              fc = conn_flow_ctl c;
              fc = fc\<lparr>fc_data_recved := fc_data_recved fc + (final_size - stream_max_recv_offset s),
                      fc_data_read := fc_data_read fc + (final_size - next_read_offset (stream_data_in s))\<rparr>
          in rqc_stream_ready_to_read (c\<lparr>conn_flow_ctl := fc\<rparr>, rqc_destroy_frame_list s)
        else (c, s))"

definition rqc_process_reset_stream_frame ::
  "(u64 \<Rightarrow> int) option \<Rightarrow> rqc_conn_streams \<Rightarrow> rqc_packet_in \<Rightarrow> handled" where
  "rqc_process_reset_stream_frame notify c pi =
     handle c (rqc_parse_reset_stream_frame pi) (\<lambda>(sid, err_code, final_size).
       case find_or_create notify c sid of
         (None, c) \<Rightarrow> (RQC_OK, c)
       | (Some s, c) \<Rightarrow> (RQC_OK, put_stream (on_reset_stream err_code final_size (c, s))))"

definition rqc_process_stop_sending_frame ::
  "(u64 \<Rightarrow> int) option \<Rightarrow> rqc_conn_streams \<Rightarrow> rqc_packet_in \<Rightarrow> handled" where
  "rqc_process_stop_sending_frame notify c pi =
     handle c (rqc_parse_stop_sending_frame pi) (\<lambda>(sid, err_code).
       case find_or_create notify c sid of
         (None, c) \<Rightarrow> (RQC_OK, c)
       | (Some s, c) \<Rightarrow>
           (RQC_OK, put_stream (if stream_state_send s < RQC_SEND_STREAM_ST_RESET_SENT
              then rqc_write_reset_stream_to_packet REQUEST_CANCELLED (stream_send_offset s) (c, s) else (c, s))))"

subsection \<open>Flow control\<close>

definition on_data_blocked :: "u64 \<Rightarrow> rqc_conn_streams \<Rightarrow> rqc_conn_streams" where
  "on_data_blocked data_limit c =
     (let fc = conn_flow_ctl c; new_limit = fc_data_read fc + fc_recv_windows_size fc in
      if new_limit \<le> data_limit then c
      else if new_limit > fc_max_data_can_recv fc
      then rqc_write_max_data_to_packet (c\<lparr>conn_flow_ctl := fc\<lparr>fc_max_data_can_recv := new_limit\<rparr>\<rparr>) new_limit
      else c)"

definition rqc_process_data_blocked_frame :: "rqc_conn_streams \<Rightarrow> rqc_packet_in \<Rightarrow> handled" where
  "rqc_process_data_blocked_frame c pi =
     handle c (rqc_parse_data_blocked_frame pi) (\<lambda>data_limit. (RQC_OK, on_data_blocked data_limit c))"

definition on_stream_data_blocked :: "u64 \<Rightarrow> conn_stream \<Rightarrow> conn_stream" where
  "on_stream_data_blocked stream_data_limit cs = (case cs of (c, s) \<Rightarrow>
     let fc = stream_flow_ctl s;
         new_limit = next_read_offset (stream_data_in s) + fc_stream_recv_window_size fc
     in if new_limit \<le> stream_data_limit then (c, s)
        else if new_limit > fc_max_stream_data_can_recv fc
        then (rqc_write_max_stream_data_to_packet c (stream_id s) new_limit,
              s\<lparr>stream_flow_ctl := fc\<lparr>fc_max_stream_data_can_recv := new_limit\<rparr>\<rparr>)
        else (c, s))"

definition rqc_process_stream_data_blocked_frame ::
  "(u64 \<Rightarrow> int) option \<Rightarrow> rqc_conn_streams \<Rightarrow> rqc_packet_in \<Rightarrow> handled" where
  "rqc_process_stream_data_blocked_frame notify c pi =
     handle c (rqc_parse_stream_data_blocked_frame pi) (\<lambda>(sid, stream_data_limit).
       case find_or_create notify c sid of
         (None, c) \<Rightarrow> (RQC_OK, c)
       | (Some s, c) \<Rightarrow> (RQC_OK, put_stream (on_stream_data_blocked stream_data_limit (c, s))))"

definition on_streams_blocked :: "u64 \<Rightarrow> bool \<Rightarrow> rqc_conn_streams \<Rightarrow> int \<times> rqc_conn_streams" where
  "on_streams_blocked stream_limit bidirectional c =
     (let fc = conn_flow_ctl c;
          cur = (if bidirectional then fc_max_streams_bidi_can_recv fc else fc_max_streams_uni_can_recv fc);
          step = (if bidirectional then max_streams_bidi (local_settings c) else max_streams_uni (local_settings c))
      in if stream_limit < cur then (RQC_OK, c)
         else
           let new_max_streams = min (stream_limit + step) (cur + step);
               c = c\<lparr>conn_flow_ctl :=
                       (if bidirectional then fc\<lparr>fc_max_streams_bidi_can_recv := new_max_streams\<rparr>
                        else fc\<lparr>fc_max_streams_uni_can_recv := new_max_streams\<rparr>)\<rparr>;
               new_max_streams = (if stream_limit < RQC_MAX_STREAMS \<and> new_max_streams > RQC_MAX_STREAMS
                                  then RQC_MAX_STREAMS else new_max_streams)
           in rqc_write_max_streams_to_packet c new_max_streams bidirectional)"

definition rqc_process_streams_blocked_frame :: "rqc_conn_streams \<Rightarrow> rqc_packet_in \<Rightarrow> handled" where
  "rqc_process_streams_blocked_frame c pi =
     handle c (rqc_parse_streams_blocked_frame pi) (\<lambda>(stream_limit, bidirectional). on_streams_blocked stream_limit bidirectional c)"

definition on_max_data :: "u64 \<Rightarrow> rqc_conn_streams \<Rightarrow> rqc_conn_streams" where
  "on_max_data limit c =
     (if limit > fc_max_data_can_send (conn_flow_ctl c) then
        c\<lparr>conn_flow_ctl := (conn_flow_ctl c)\<lparr>fc_max_data_can_send := limit\<rparr>,
          c_conn_flag := c_conn_flag c AND NOT RQC_CONN_FLAG_DATA_BLOCKED\<rparr>
      else c)"

definition rqc_process_max_data_frame :: "rqc_conn_streams \<Rightarrow> rqc_packet_in \<Rightarrow> handled" where
  "rqc_process_max_data_frame c pi = handle c (rqc_parse_max_data_frame pi) (\<lambda>limit. (RQC_OK, on_max_data limit c))"

definition on_max_stream_data :: "u64 \<Rightarrow> rqc_stream \<Rightarrow> rqc_stream" where
  "on_max_stream_data limit s =
     (if limit > fc_max_stream_data_can_send (stream_flow_ctl s) then
        upd_flag (\<lambda>f. f AND NOT RQC_STREAM_FLAG_DATA_BLOCKED)
          (s\<lparr>stream_flow_ctl := (stream_flow_ctl s)\<lparr>fc_max_stream_data_can_send := limit\<rparr>\<rparr>)
      else s)"

definition rqc_process_max_stream_data_frame ::
  "(u64 \<Rightarrow> int) option \<Rightarrow> rqc_conn_streams \<Rightarrow> rqc_packet_in \<Rightarrow> handled" where
  "rqc_process_max_stream_data_frame notify c pi =
     handle c (rqc_parse_max_stream_data_frame pi) (\<lambda>(sid, limit).
       case find_or_create notify c sid of
         (None, c) \<Rightarrow> (RQC_OK, c)
       | (Some s, c) \<Rightarrow> (RQC_OK, put_stream (c, on_max_stream_data limit s)))"

definition on_max_streams :: "u64 \<Rightarrow> bool \<Rightarrow> rqc_conn_streams \<Rightarrow> int \<times> rqc_conn_streams" where
  "on_max_streams max_streams bidirectional c =
     (if max_streams > RQC_MAX_STREAMS then (- RQC_EPROTO, c)
      else
        let fc = conn_flow_ctl c in
        (RQC_OK,
         if bidirectional then
           (if max_streams > fc_max_streams_bidi_can_send fc
            then c\<lparr>conn_flow_ctl := fc\<lparr>fc_max_streams_bidi_can_send := max_streams\<rparr>\<rparr> else c)
         else
           (if max_streams > fc_max_streams_uni_can_send fc
            then c\<lparr>conn_flow_ctl := fc\<lparr>fc_max_streams_uni_can_send := max_streams\<rparr>\<rparr> else c)))"

definition rqc_process_max_streams_frame :: "rqc_conn_streams \<Rightarrow> rqc_packet_in \<Rightarrow> handled" where
  "rqc_process_max_streams_frame c pi =
     handle c (rqc_parse_max_streams_frame pi) (\<lambda>(max_streams, bidirectional). on_max_streams max_streams bidirectional c)"

subsection \<open>Receiving a stream from a consistent peer\<close>

text \<open>
  \<open>S\<close> is the sender's stream and \<open>N\<close> its final size. The receiving state follows the data: the size is
  known from the FIN on, all data has arrived exactly in \<open>DATA_RECVD\<close> and \<open>DATA_READ\<close>.
\<close>

definition recv_state_ok :: "nat \<Rightarrow> rqc_recv_stream_state \<Rightarrow> rqc_stream_data_in \<Rightarrow> bool" where
  "recv_state_ok N st d \<longleftrightarrow>
     (case st of
        RQC_RECV_STREAM_ST_RECV \<Rightarrow> \<not> stream_determined d
      | RQC_RECV_STREAM_ST_SIZE_KNOWN \<Rightarrow> stream_determined d \<and> unat (merged_offset_end d) < N
      | RQC_RECV_STREAM_ST_DATA_RECVD \<Rightarrow> stream_determined d \<and> unat (merged_offset_end d) = N
      | RQC_RECV_STREAM_ST_DATA_READ \<Rightarrow> stream_determined d \<and> unat (merged_offset_end d) = N \<and> unat (next_read_offset d) = N
      | _ \<Rightarrow> False)"

definition recv_inv :: "(nat \<Rightarrow> byte) \<Rightarrow> nat \<Rightarrow> rqc_stream \<Rightarrow> bool" where
  "recv_inv S N s \<longleftrightarrow> din_ok S (stream_data_in s) \<and> received (stream_data_in s) \<subseteq> {..< N} \<and>
     (if stream_determined (stream_data_in s) then unat (stream_length (stream_data_in s)) = N
      else stream_length (stream_data_in s) = 0) \<and>
     recv_state_ok N (stream_state_recv s) (stream_data_in s)"

definition from_peer :: "(nat \<Rightarrow> byte) \<Rightarrow> nat \<Rightarrow> rqc_stream_frame_in \<Rightarrow> bool" where
  "from_peer S N f \<longleftrightarrow> frame_ok S 0 f \<and> unat (frame_end f) \<le> N \<and> (sf_fin f \<longrightarrow> unat (frame_end f) = N)"

definition frame_dropped :: "rqc_stream_frame_in \<Rightarrow> rqc_stream_data_in \<Rightarrow> bool" where
  "frame_dropped f d \<longleftrightarrow> frame_end f \<le> merged_offset_end d \<and> \<not> (sf_fin f \<and> sf_data_length f = 0 \<and> stream_length d = 0)"

definition with_fin :: "rqc_stream_frame_in \<Rightarrow> rqc_stream \<Rightarrow> rqc_stream" where
  "with_fin f s =
     (if sf_fin f then
        s\<lparr>stream_data_in := (stream_data_in s)\<lparr>stream_length := frame_end f, stream_determined := True\<rparr>,
          stream_state_recv := (if stream_state_recv s = RQC_RECV_STREAM_ST_RECV then RQC_RECV_STREAM_ST_SIZE_KNOWN else stream_state_recv s)\<rparr>
      else s)"

lemma recv_inv_not_reset: "recv_inv S N s \<Longrightarrow> (RQC_RECV_STREAM_ST_RESET_RECVD \<le> stream_state_recv s) = False"
  by (cases "stream_state_recv s") (auto simp: recv_inv_def recv_state_ok_def stream_state_order)

lemma recv_inv_merged:
  assumes "recv_inv S N s"
  shows "unat (merged_offset_end (stream_data_in s)) \<le> N"
proof -
  have "{..< unat (merged_offset_end (stream_data_in s))} \<subseteq> received (stream_data_in s)"
    by (rule merged_least(2) [where S = S]) (use assms in \<open>simp add: recv_inv_def\<close>)
  moreover have "received (stream_data_in s) \<subseteq> {..< N}" using assms by (simp add: recv_inv_def)
  ultimately have "{..< unat (merged_offset_end (stream_data_in s))} \<subseteq> {..< N}" by (rule subset_trans)
  then show ?thesis by simp
qed

lemma final_size_spec:
  assumes inv: "recv_inv S N s" and f: "from_peer S N f"
  shows "stream_final_size f s = (if frame_dropped f (stream_data_in s) then (Drop_Frame, s) else (Frame_Accepted, with_fin f s))"
proof -
  let ?d = "stream_data_in s"
  have det: "stream_determined ?d \<Longrightarrow> unat (stream_length ?d) = N" using inv by (auto simp: recv_inv_def)
  have fe: "unat (frame_end f) \<le> N" "sf_fin f \<Longrightarrow> unat (frame_end f) = N" using f by (auto simp: from_peer_def)
  have 1: "(sf_fin f \<and> stream_determined ?d \<and> stream_length ?d \<noteq> frame_end f) = False"
    using det fe by (auto simp: word_unat_eq_iff)
  have 2: "(stream_determined ?d \<and> stream_length ?d < frame_end f) = False"
    using det fe(1) by (auto simp: word_less_nat_alt)
  show ?thesis
  proof (cases "sf_fin f")
    case True
    then show ?thesis using 1
      by (auto simp: stream_final_size_def Let_def recv_inv_not_reset [OF inv] frame_dropped_def with_fin_def rqc_stream_recv_state_update_def)
  next
    case False
    then show ?thesis using 2
      by (auto simp: stream_final_size_def Let_def recv_inv_not_reset [OF inv] frame_dropped_def with_fin_def)
  qed
qed

text \<open>A dropped frame brings no new data.\<close>

lemma frame_dropped_received:
  assumes "din_ok S d" "frame_ok S 0 f" "frame_dropped f d"
  shows "frame_range f \<subseteq> received d"
proof -
  have "frame_range f \<subseteq> {..< unat (merged_offset_end d)}"
    using assms(3) frame_range_end [OF assms(2)] by (auto simp: frame_dropped_def word_le_nat_alt)
  then show ?thesis using merged_least(2) [OF assms(1)] by blast
qed

lemma din_ok_fields [simp]:
  "din_ok S (d\<lparr>stream_length := l, stream_determined := b\<rparr>) = din_ok S d"
  "received (d\<lparr>stream_length := l, stream_determined := b\<rparr>) = received d"
  by (simp_all add: din_ok_def received_def)

lemma merged_eq_N:
  assumes "din_ok S d" "received d \<subseteq> {..< N}"
  shows "unat (merged_offset_end d) = N \<longleftrightarrow> {..< N} \<subseteq> received d"
proof
  assume "unat (merged_offset_end d) = N"
  then show "{..< N} \<subseteq> received d" using merged_least(2) [OF assms(1)] by simp
next
  assume a: "{..< N} \<subseteq> received d"
  have "unat (merged_offset_end d) \<notin> {..< N}" using merged_not_received [OF assms(1)] a by blast
  moreover have "{..< unat (merged_offset_end d)} \<subseteq> {..< N}" by (rule subset_trans [OF merged_least(2) [OF assms(1)] assms(2)])
  ultimately show "unat (merged_offset_end d) = N" by auto
qed


lemma ready_to_read_fields:
  assumes "rqc_stream_ready_to_read (c, s) = (c', s')"
  shows "stream_data_in s' = stream_data_in s" "stream_state_recv s' = stream_state_recv s" "c_conn_err c' = c_conn_err c"
    "stream_max_recv_offset s' = stream_max_recv_offset s" "stream_flow_ctl s' = stream_flow_ctl s" "conn_flow_ctl c' = conn_flow_ctl c"
  using assms by (auto simp: rqc_stream_ready_to_read_def engine_activate_def upd_flag_def split: if_splits)

lemma data_ready_fields:
  assumes "stream_data_ready (c, s) = (c', s')"
  shows "stream_data_in s' = stream_data_in s" "c_conn_err c' = c_conn_err c"
    "stream_state_recv s' =
       (if stream_determined (stream_data_in s) \<and> stream_length (stream_data_in s) = merged_offset_end (stream_data_in s)
           \<and> stream_state_recv s = RQC_RECV_STREAM_ST_SIZE_KNOWN
        then RQC_RECV_STREAM_ST_DATA_RECVD else stream_state_recv s)"
  using assms ready_to_read_fields(1-3) [of c _ c' s']
  by (auto simp: stream_data_ready_def Let_def rqc_stream_recv_state_update_def split: if_splits)

lemma account_fields:
  assumes "recv_account f (c, s) = (c', s')"
  shows "stream_data_in s' = stream_data_in s" "stream_state_recv s' = stream_state_recv s" "c_conn_err c' = c_conn_err c"
    "stream_flow_ctl s' = stream_flow_ctl s" "c_conn_flag c' = c_conn_flag c"
  using assms by (auto simp: recv_account_def split: if_splits)

text \<open>A frame that is not dropped leaves the stream in the state its new size asks for.\<close>

lemma with_fin_inv:
  assumes inv: "recv_inv S N s" and f: "from_peer S N f" and nd: "\<not> frame_dropped f (stream_data_in s)"
  shows "din_ok S (stream_data_in (with_fin f s))" "received (stream_data_in (with_fin f s)) = received (stream_data_in s)"
    "stream_determined (stream_data_in (with_fin f s)) \<longleftrightarrow> stream_determined (stream_data_in s) \<or> sf_fin f"
    "if stream_determined (stream_data_in (with_fin f s)) then unat (stream_length (stream_data_in (with_fin f s))) = N
     else stream_length (stream_data_in (with_fin f s)) = 0"
    "stream_flag (with_fin f s) = stream_flag s"
  using inv f by (auto simp: with_fin_def recv_inv_def from_peer_def)

lemma merged_grows:
  assumes "din_ok S d" "din_ok S d'" "received d \<subseteq> received d'" "received d' \<subseteq> {..< N}" "unat (merged_offset_end d) = N"
  shows "unat (merged_offset_end d') = N"
proof -
  have "received d \<subseteq> {..< N}" using assms(3,4) by (rule subset_trans)
  then have "{..< N} \<subseteq> received d'" using merged_eq_N [OF assms(1)] assms(3,5) by blast
  then show ?thesis using merged_eq_N [OF assms(2,4)] by blast
qed

definition settle :: "rqc_stream_data_in \<Rightarrow> rqc_recv_stream_state \<Rightarrow> rqc_recv_stream_state" where
  "settle d st = (if stream_determined d \<and> stream_length d = merged_offset_end d \<and> st = RQC_RECV_STREAM_ST_SIZE_KNOWN
     then RQC_RECV_STREAM_ST_DATA_RECVD else st)"

lemma settle_ok:
  assumes inv: "recv_inv S N s" and f: "from_peer S N f"
    and d': "din_ok S d'" "received (stream_data_in s) \<subseteq> received d'" "received d' \<subseteq> {..< N}"
      "next_read_offset d' = next_read_offset (stream_data_in s)"
      "stream_length d' = stream_length (stream_data_in (with_fin f s))"
      "stream_determined d' = stream_determined (stream_data_in (with_fin f s))"
  shows "recv_state_ok N (settle d' (stream_state_recv (with_fin f s))) d'"
proof -
  let ?d = "stream_data_in s"
  have ok: "din_ok S ?d" "recv_state_ok N (stream_state_recv s) ?d" using inv by (auto simp: recv_inv_def)
  have le: "unat (merged_offset_end d') \<le> N"
    using subset_trans [OF merged_least(2) [OF d'(1)] d'(3)] by simp
  have det: "stream_determined d' \<longleftrightarrow> stream_determined ?d \<or> sf_fin f" "stream_determined d' \<Longrightarrow> unat (stream_length d') = N"
    unfolding d'(5,6) using inv f by (auto simp: with_fin_def recv_inv_def from_peer_def)
  have full: "unat (merged_offset_end ?d) = N \<Longrightarrow> unat (merged_offset_end d') = N"
    by (rule merged_grows [OF ok(1) d'(1-3)])
  have eq: "stream_determined d' \<Longrightarrow> stream_length d' = merged_offset_end d' \<longleftrightarrow> unat (merged_offset_end d') = N"
    using det(2) by (auto simp: word_unat_eq_iff)
  have st: "stream_state_recv (with_fin f s) = (if sf_fin f \<and> stream_state_recv s = RQC_RECV_STREAM_ST_RECV
      then RQC_RECV_STREAM_ST_SIZE_KNOWN else stream_state_recv s)" by (simp add: with_fin_def)
  show ?thesis
  proof (cases "stream_state_recv s")
    case RQC_RECV_STREAM_ST_RECV
    then show ?thesis using ok(2) det(1) eq le unfolding st settle_def by (auto simp: recv_state_ok_def)
  next
    case RQC_RECV_STREAM_ST_SIZE_KNOWN
    then show ?thesis using ok(2) det(1) eq le unfolding st settle_def by (auto simp: recv_state_ok_def)
  qed (use ok(2) det(1) full d'(4) in \<open>auto simp: st settle_def recv_state_ok_def\<close>)
qed

text \<open>The insertion, as the handler sees it: a duplicate is no error and brings nothing new.\<close>

lemma insert_cases:
  assumes "recv_inv S N s" "from_peer S N f" "\<not> frame_dropped f (stream_data_in s)"
    and i: "rqc_insert_stream_frame (stream_data_in (with_fin f s)) f = (ret, d')"
  shows "din_ok S d'" "received d' = received (stream_data_in s) \<union> frame_range f" "received d' \<subseteq> {..< N}"
    "next_read_offset d' = next_read_offset (stream_data_in s)"
    "stream_length d' = stream_length (stream_data_in (with_fin f s))"
    "stream_determined d' = stream_determined (stream_data_in (with_fin f s))"
    "ret = RQC_OK \<or> ret = - RQC_EDUP_FRAME \<and> d' = stream_data_in (with_fin f s)"
proof -
  note w = with_fin_inv [OF assms(1-3)]
  have fr: "frame_ok S 0 f" using assms(2) by (simp add: from_peer_def)
  note spec = rqc_insert_stream_frame_spec [OF w(1) frame_ok_fresh [OF fr] i]
  show "din_ok S d'" "received d' = received (stream_data_in s) \<union> frame_range f"
    "stream_length d' = stream_length (stream_data_in (with_fin f s))"
    "stream_determined d' = stream_determined (stream_data_in (with_fin f s))"
    "ret = RQC_OK \<or> ret = - RQC_EDUP_FRAME \<and> d' = stream_data_in (with_fin f s)"
    using spec w(2) by auto
  show "next_read_offset d' = next_read_offset (stream_data_in s)" using spec by (simp add: with_fin_def split: if_splits)
  have "frame_range f \<subseteq> {..< N}" using assms(2) frame_range_end [OF fr] by (auto simp: from_peer_def)
  then show "received d' \<subseteq> {..< N}" using spec w(2) assms(1) by (auto simp: recv_inv_def)
qed

lemma dup_merged:
  assumes "rqc_insert_stream_frame d f = (- RQC_EDUP_FRAME, d')" "\<not> frame_dropped f d0" "merged_offset_end d = merged_offset_end d0"
  shows "merged_offset_end d < frame_end f"
proof -
  have "sf_data_length f > 0"
  proof (rule ccontr)
    assume z: "\<not> 0 < sf_data_length f"
    have "insert_scan f xs ys \<noteq> None" for xs ys
      using z by (induction xs arbitrary: ys) auto
    from this [of "rev (frames_tailq d)" "[]"] show False
      using assms(1) by (auto simp: rqc_insert_stream_frame_def split: option.splits prod.splits)
  qed
  then show ?thesis using assms(2,3) by (auto simp: frame_dropped_def)
qed

lemma settle_merged:
  "recv_state_ok N st d \<Longrightarrow> stream_determined d \<Longrightarrow> unat (merged_offset_end d) = N \<longleftrightarrow>
     st \<in> {RQC_RECV_STREAM_ST_DATA_RECVD, RQC_RECV_STREAM_ST_DATA_READ}"
  "recv_state_ok N st d \<Longrightarrow> \<not> stream_determined d \<Longrightarrow> st = RQC_RECV_STREAM_ST_RECV"
  by (cases st; simp add: recv_state_ok_def)+

definition over_limit :: "conn_stream \<Rightarrow> bool" where
  "over_limit cs = (case cs of (c, s) \<Rightarrow>
     fc_data_recved (conn_flow_ctl c) > fc_max_data_can_recv (conn_flow_ctl c) \<or>
     stream_max_recv_offset s > fc_max_stream_data_can_recv (stream_flow_ctl s))"

lemma on_stream_frame_spec:
  assumes inv: "recv_inv S N s" and f: "from_peer S N f" and nf: "\<not> has_flag RQC_STREAM_FLAG_DISCARDED s"
    and nd: "\<not> frame_dropped f (stream_data_in s)"
    and run: "on_stream_frame env f (c, s) = (ret, c', s')"
  shows "received (stream_data_in s') = received (stream_data_in s) \<union> frame_range f \<and>
    (stream_determined (stream_data_in s') \<longleftrightarrow> stream_determined (stream_data_in s) \<or> sf_fin f) \<and>
    (ret = RQC_OK \<and> c_conn_err c' = c_conn_err c \<and> recv_inv S N s' \<or>
     ret = - RQC_EPROTO \<and> c_conn_err c' \<noteq> 0 \<and> over_limit (c', s'))"
proof -
  let ?w = "with_fin f s"
  note w = with_fin_inv [OF inv f nd]
  have hf: "has_flag RQC_STREAM_FLAG_DISCARDED ?w = False" using nf w(5) by (simp add: has_flag_def)
  obtain r d' where i: "rqc_insert_stream_frame (stream_data_in ?w) f = (r, d')" by (rule prod.exhaust)
  note ic = insert_cases [OF inv f nd i]
  have sub: "received (stream_data_in s) \<subseteq> received d'" unfolding ic(2) by simp
  have len: "if stream_determined d' then unat (stream_length d') = N else stream_length d' = 0"
    using w(4) ic(5,6) by simp
  note st = settle_ok [OF inv f ic(1) sub ic(3-6)]
  have run: "(if r = - RQC_EDUP_FRAME then (RQC_OK, c, ?w) else if r \<noteq> 0 then (r, c, ?w)
      else case recv_account f (c, ?w\<lparr>stream_data_in := d'\<rparr>) of (c, s) \<Rightarrow>
        if fc_data_recved (conn_flow_ctl c) > fc_max_data_can_recv (conn_flow_ctl c)
        then (- RQC_EPROTO, conn_error TRA_FLOW_CONTROL_ERROR c, s)
        else if stream_max_recv_offset s > fc_max_stream_data_can_recv (stream_flow_ctl s)
        then (- RQC_EPROTO, conn_error TRA_FLOW_CONTROL_ERROR c, s)
        else (RQC_OK, stream_data_ready (c, s))) = (ret, c', s')"
    using run final_size_spec [OF inv f] nd unfolding on_stream_frame_def by (simp add: hf i)
  show ?thesis
  proof (cases "r = RQC_OK")
    case False
    then have dup: "r = - RQC_EDUP_FRAME" "d' = stream_data_in ?w" using ic(7) by auto
    then have res: "ret = RQC_OK" "c' = c" "s' = ?w" using run by auto
    have m: "merged_offset_end (stream_data_in ?w) = merged_offset_end (stream_data_in s)" by (simp add: with_fin_def)
    have "merged_offset_end d' < frame_end f" using dup_merged [OF i [unfolded dup(1)] nd m] dup(2) by simp
    then have "unat (merged_offset_end d') < N" using f by (auto simp: from_peer_def word_less_nat_alt)
    then have "settle d' (stream_state_recv ?w) = stream_state_recv ?w" using len by (auto simp: settle_def)
    then have "recv_inv S N ?w" using st dup(2) ic(1,3) w(4) by (simp add: recv_inv_def)
    then show ?thesis using res dup(2) ic(2) w(3) by simp
  next
    case True
    obtain c1 s1 where a: "recv_account f (c, ?w\<lparr>stream_data_in := d'\<rparr>) = (c1, s1)" by (rule prod.exhaust)
    note af = account_fields [OF a]
    obtain c2 s2 where g: "stream_data_ready (c1, s1) = (c2, s2)" by (rule prod.exhaust)
    note gf = data_ready_fields [OF g]
    have "stream_state_recv s2 = settle d' (stream_state_recv ?w)" unfolding gf(3) af(1,2) by (simp add: settle_def)
    then have "recv_inv S N s2" using gf(1) af(1) st ic(1,3) len by (simp add: recv_inv_def)
    then show ?thesis using run True af gf ic(2,6) w(3) unfolding a
      by (auto simp: g conn_error_def over_limit_def split: if_splits)
  qed
qed

subsection \<open>Properties of the receiving side\<close>

lemma stream_frame_step:
  assumes inv: "recv_inv S N s" and f: "from_peer S N f" and nf: "\<not> has_flag RQC_STREAM_FLAG_DISCARDED s"
    and run: "on_stream_frame env f (c, s) = (ret, c', s')"
  shows "received (stream_data_in s') = received (stream_data_in s) \<union> frame_range f \<and>
    (stream_determined (stream_data_in s') \<longleftrightarrow>
       stream_determined (stream_data_in s) \<or> sf_fin f \<and> \<not> frame_dropped f (stream_data_in s)) \<and>
    (ret = RQC_OK \<and> c_conn_err c' = c_conn_err c \<and> recv_inv S N s' \<and>
       (stream_state_recv s' \<in> {RQC_RECV_STREAM_ST_DATA_RECVD, RQC_RECV_STREAM_ST_DATA_READ} \<longleftrightarrow>
          stream_determined (stream_data_in s') \<and> {..< N} \<subseteq> received (stream_data_in s')) \<or>
     ret = - RQC_EPROTO \<and> c_conn_err c' \<noteq> 0 \<and> over_limit (c', s'))"
proof -
  have st: "stream_state_recv t \<in> {RQC_RECV_STREAM_ST_DATA_RECVD, RQC_RECV_STREAM_ST_DATA_READ} \<longleftrightarrow>
      stream_determined (stream_data_in t) \<and> {..< N} \<subseteq> received (stream_data_in t)" if "recv_inv S N t" for t
  proof -
    have t: "din_ok S (stream_data_in t)" "received (stream_data_in t) \<subseteq> {..< N}"
      "recv_state_ok N (stream_state_recv t) (stream_data_in t)" using that by (simp_all add: recv_inv_def)
    show ?thesis using settle_merged [OF t(3)] unfolding merged_eq_N [OF t(1,2)]
      by (cases "stream_determined (stream_data_in t)") auto
  qed
  show ?thesis
  proof (cases "frame_dropped f (stream_data_in s)")
    case True
    have "frame_range f \<subseteq> received (stream_data_in s)"
      by (rule frame_dropped_received [of S]) (use True inv f in \<open>simp_all add: recv_inv_def from_peer_def\<close>)
    moreover have "ret = RQC_OK" "c' = c" "s' = s"
      using run final_size_spec [OF inv f] True by (simp_all add: on_stream_frame_def)
    ultimately show ?thesis using inv st [OF inv] True by auto
  next
    case False
    then show ?thesis using on_stream_frame_spec [OF inv f nf False run] st [of s'] by auto
  qed
qed

text \<open>
  C5: processing a STREAM frame of a consistent peer. Such a frame carries the sender's bytes for its
  place, none beyond the final size, and a FIN exactly at the final size. The handler adds exactly
  the positions of the frame to what has arrived, keeps the invariant of the receiving side without
  a connection error, and answers with a flow control error only when a limit is exceeded. The size is
  known afterwards if it was or if the frame has the FIN and was not dropped as old data; and the
  stream is in \<open>DATA_RECVD\<close> or \<open>DATA_READ\<close> exactly when the size is known and everything has arrived.
\<close>

theorem stream_frame_progress:
  assumes inv: "recv_inv S N s" and f: "from_peer S N f" and nf: "\<not> has_flag RQC_STREAM_FLAG_DISCARDED s"
    and run: "on_stream_frame env f (c, s) = (ret, c', s')"
  shows "received (stream_data_in s') = received (stream_data_in s) \<union> frame_range f \<and>
    (stream_determined (stream_data_in s') \<longleftrightarrow>
       stream_determined (stream_data_in s) \<or> sf_fin f \<and> \<not> frame_dropped f (stream_data_in s)) \<and>
    (ret = RQC_OK \<and> c_conn_err c' = c_conn_err c \<and> recv_inv S N s' \<and>
       (stream_state_recv s' \<in> {RQC_RECV_STREAM_ST_DATA_RECVD, RQC_RECV_STREAM_ST_DATA_READ} \<longleftrightarrow>
          stream_determined (stream_data_in s') \<and> {..< N} \<subseteq> received (stream_data_in s')) \<or>
     ret = - RQC_EPROTO \<and> c_conn_err c' \<noteq> 0 \<and> over_limit (c', s'))"
  using stream_frame_step [OF assms] by blast

text \<open>
  C24: a FIN that comes with data that has already arrived is lost. When everything up to the final size
  has arrived without the FIN, a frame that carries the FIN together with data (a retransmission
  of the last data, now with the FIN) is dropped before the FIN is looked at: nothing
  changes, and the stream stays in \<open>RECV\<close> however often the peer repeats it.
\<close>

theorem fin_with_old_data_lost:
  assumes "recv_inv S N s" "from_peer S N f" "{..< N} \<subseteq> received (stream_data_in s)"
    and "sf_fin f" "0 < sf_data_length f" "\<not> stream_determined (stream_data_in s)"
  shows "on_stream_frame env f (c, s) = (RQC_OK, c, s) \<and> stream_state_recv s = RQC_RECV_STREAM_ST_RECV"
proof -
  have i: "din_ok S (stream_data_in s)" "received (stream_data_in s) \<subseteq> {..< N}"
    "recv_state_ok N (stream_state_recv s) (stream_data_in s)" using assms(1) by (simp_all add: recv_inv_def)
  have "unat (merged_offset_end (stream_data_in s)) = N" using merged_eq_N [OF i(1,2)] assms(3) by simp
  then have "frame_dropped f (stream_data_in s)"
    using assms(2,5) by (simp add: frame_dropped_def from_peer_def word_le_nat_alt)
  then show ?thesis using final_size_spec [OF assms(1,2)] settle_merged(2) [OF i(3) assms(6)] by (simp add: on_stream_frame_def)
qed

definition ex_env :: stream_env where
  "ex_env = \<lparr>env_now = 50, env_srtt = Some 10, env_pto = None, env_running = False\<rparr>"

definition ex_recv :: rqc_stream where
  "ex_recv = ex_stream\<lparr>stream_data_in := stream_in_init\<rparr>"

lemmas ex_recv_defs = ex_recv_def ex_stream_def ex_sconn_def stream_zero_def stream_in_init_def ex_frame_def frame_end_def

lemmas on_frame_defs = on_stream_frame_def stream_final_size_def rqc_insert_stream_frame_def recv_account_def
  stream_data_ready_def rqc_stream_ready_to_read_def engine_activate_def upd_flag_def has_flag_def
  rqc_stream_recv_state_update_def stream_state_order Let_def

lemma ex_recv_inv: "recv_inv S N ex_recv" "\<not> has_flag RQC_STREAM_FLAG_DISCARDED ex_recv"
  by (simp_all add: recv_inv_def din_ok_init recv_state_ok_def ex_recv_def ex_stream_def stream_zero_def has_flag_def)
     (simp_all add: stream_in_init_def)

lemma ex_frame_peer: "off + n < 2 ^ 62 \<Longrightarrow> off + n \<le> N \<Longrightarrow> from_peer of_nat N (ex_frame off n)"
  "N < 2 ^ 62 \<Longrightarrow> from_peer of_nat N ((ex_frame 0 N)\<lparr>sf_fin := True\<rparr>)"
  by (simp_all add: from_peer_def frame_ok_def ex_frame_def frame_end_def unat_of_nat_small unat_add_of_nat)

theorem stream_frame_progress_witness:
  "case on_stream_frame ex_env ((ex_frame 0 5)\<lparr>sf_fin := True\<rparr>) (ex_sconn, ex_recv) of (ret, c', s') \<Rightarrow>
     ret = RQC_OK \<and> stream_state_recv s' = RQC_RECV_STREAM_ST_DATA_RECVD \<and> received (stream_data_in s') = {..< 5}"
proof -
  let ?f = "(ex_frame 0 5)\<lparr>sf_fin := True\<rparr>"
  obtain ret c' s' where r: "on_stream_frame ex_env ?f (ex_sconn, ex_recv) = (ret, c', s')" by (metis surj_pair)
  have f: "from_peer of_nat 5 ?f" by (rule ex_frame_peer) simp
  note p = stream_frame_progress [OF ex_recv_inv(1) f ex_recv_inv(2) r]
  have e: "ret = RQC_OK" "stream_state_recv s' = RQC_RECV_STREAM_ST_DATA_RECVD"
    using r by (simp_all add: on_frame_defs ex_recv_defs) auto
  have "received (stream_data_in ex_recv) = {}" by (simp add: ex_recv_def din_ok_init(2))
  moreover have "frame_range ?f = {..< 5}" by (auto simp: frame_range_def ex_frame_def)
  ultimately show ?thesis using p e by (simp add: r)
qed

text \<open>The final size is fixed by the first FIN that is not dropped; nothing looks at the highest offset received.\<close>

lemma data_ready_keeps:
  "c_conn_err (fst (stream_data_ready (c, s))) = c_conn_err c \<and> stream_data_in (snd (stream_data_ready (c, s))) = stream_data_in s \<and>
   stream_max_recv_offset (snd (stream_data_ready (c, s))) = stream_max_recv_offset s"
  by (simp add: stream_data_ready_def rqc_stream_ready_to_read_def Let_def rqc_stream_recv_state_update_def engine_activate_def upd_flag_def)

lemma insert_keeps_size:
  "fst (rqc_insert_stream_frame d f) \<in> {RQC_OK, - RQC_EDUP_FRAME} \<and>
   stream_length (snd (rqc_insert_stream_frame d f)) = stream_length d \<and>
   stream_determined (snd (rqc_insert_stream_frame d f)) = stream_determined d"
  by (simp add: rqc_insert_stream_frame_def split: option.splits)

lemma early_fin_accepted:
  assumes st: "stream_state_recv s = RQC_RECV_STREAM_ST_RECV" "\<not> stream_determined (stream_data_in s)" "\<not> has_flag RQC_STREAM_FLAG_DISCARDED s"
    and lim: "\<not> over_limit (c, s)"
    and f: "sf_fin f" "merged_offset_end (stream_data_in s) < frame_end f" "frame_end f < stream_max_recv_offset s"
  shows "\<exists>c' s'. on_stream_frame env f (c, s) = (RQC_OK, c', s') \<and> c_conn_err c' = c_conn_err c \<and>
    stream_determined (stream_data_in s') \<and> stream_length (stream_data_in s') = frame_end f \<and>
    stream_max_recv_offset s' = stream_max_recv_offset s"
proof -
  define d where "d = (stream_data_in s)\<lparr>stream_length := frame_end f, stream_determined := True\<rparr>"
  have d: "stream_length d = frame_end f" "stream_determined d" by (simp_all add: d_def)
  define s1 where "s1 = s\<lparr>stream_data_in := d, stream_state_recv := RQC_RECV_STREAM_ST_SIZE_KNOWN\<rparr>"
  have nl: "(frame_end f \<le> merged_offset_end (stream_data_in s)) = False" using f(2) by simp
  have fs: "stream_final_size f s = (Frame_Accepted, s1)"
    using st f by (simp add: stream_final_size_def nl s1_def d_def Let_def rqc_stream_recv_state_update_def stream_state_order)
  have nd: "\<not> has_flag RQC_STREAM_FLAG_DISCARDED s1" using st(3) by (simp add: has_flag_def s1_def)
  obtain ret d' where r: "rqc_insert_stream_frame d f = (ret, d')" by (rule prod.exhaust)
  have k: "ret \<in> {RQC_OK, - RQC_EDUP_FRAME}" "stream_length d' = frame_end f" "stream_determined d'"
    using insert_keeps_size [of d f] d by (simp_all add: r)
  have s1: "stream_data_in s1 = d" "stream_max_recv_offset s1 = stream_max_recv_offset s" by (simp_all add: s1_def)
  show ?thesis
  proof (cases "ret = - RQC_EDUP_FRAME")
    case True
    then have "on_stream_frame env f (c, s) = (RQC_OK, c, s1)" by (simp add: on_stream_frame_def fs nd s1 r)
    then show ?thesis by (simp add: s1_def d_def)
  next
    case False
    then have "ret = RQC_OK" using k(1) by simp
    moreover have "recv_account f (c, s1\<lparr>stream_data_in := d'\<rparr>) = (c, s1\<lparr>stream_data_in := d'\<rparr>)"
      using f(3) by (simp add: recv_account_def s1)
    ultimately have "on_stream_frame env f (c, s) = (RQC_OK, stream_data_ready (c, s1\<lparr>stream_data_in := d'\<rparr>))"
      using lim False by (simp add: on_stream_frame_def fs nd s1 r over_limit_def) (simp add: s1_def)
    then show ?thesis using data_ready_keeps [of c "s1\<lparr>stream_data_in := d'\<rparr>"] k(2,3) s1(2)
      by (cases "stream_data_ready (c, s1\<lparr>stream_data_in := d'\<rparr>)") simp
  qed
qed

lemma early_reset_accepted:
  assumes st: "stream_state_recv s < RQC_RECV_STREAM_ST_RESET_RECVD"
    and f: "final_size < stream_max_recv_offset s" "stream_max_recv_offset s \<le> fc_data_recved (conn_flow_ctl c)"
  shows "\<exists>c' s'. on_reset_stream err_code final_size (c, s) = (c', s') \<and> c_conn_err c' = c_conn_err c \<and>
    stream_state_recv s' = RQC_RECV_STREAM_ST_RESET_RECVD \<and>
    unat (fc_data_recved (conn_flow_ctl c')) = unat (fc_data_recved (conn_flow_ctl c)) - (unat (stream_max_recv_offset s) - unat final_size)"
proof -
  let ?x = "fc_data_recved (conn_flow_ctl c)" and ?m = "stream_max_recv_offset s"
  have e: "?x + (final_size - ?m) = ?x - (?m - final_size)" by simp
  have l: "final_size \<le> ?m" "?m - final_size \<le> ?x"
    using f by (simp_all add: word_le_nat_alt word_less_nat_alt unat_sub)
  have u: "unat (?x + (final_size - ?m)) = unat ?x - (unat ?m - unat final_size)" unfolding e using l by (simp add: unat_sub)
  show ?thesis using st u
    by (simp add: on_reset_stream_def Let_def rqc_write_reset_stream_to_packet_def rqc_stream_send_state_update_def
        rqc_stream_recv_state_update_def rqc_stream_atomic_clear_pending_def rqc_destroy_frame_list_def
        rqc_stream_ready_to_read_def engine_activate_def upd_flag_def emit_def)
qed

text \<open>
  C25: the final size is not compared with what has arrived. On any stream that is receiving data within its
  limits, a FIN whose final size is above the contiguous data and below the highest offset received is accepted
  without an error, and the stream is left with a final size below data that has arrived; and a RESET\_STREAM
  with a final size below the highest offset received is accepted and takes the difference off
  the connection's count of received data.
\<close>

theorem final_size_unchecked:
  assumes "stream_state_recv s = RQC_RECV_STREAM_ST_RECV" and "\<not> stream_determined (stream_data_in s)"
    and "\<not> has_flag RQC_STREAM_FLAG_DISCARDED s" and "\<not> over_limit (c, s)"
    and "sf_fin f" and "merged_offset_end (stream_data_in s) < frame_end f" and "frame_end f < stream_max_recv_offset s"
    and "final_size < stream_max_recv_offset s" and "stream_max_recv_offset s \<le> fc_data_recved (conn_flow_ctl c)"
  shows "(\<exists>c' s'. on_stream_frame env f (c, s) = (RQC_OK, c', s') \<and> c_conn_err c' = c_conn_err c \<and>
      stream_determined (stream_data_in s') \<and> stream_length (stream_data_in s') = frame_end f \<and>
      stream_length (stream_data_in s') < stream_max_recv_offset s') \<and>
    (\<exists>c' s'. on_reset_stream err_code final_size (c, s) = (c', s') \<and> c_conn_err c' = c_conn_err c \<and>
      stream_state_recv s' = RQC_RECV_STREAM_ST_RESET_RECVD \<and>
      unat (fc_data_recved (conn_flow_ctl c')) =
        unat (fc_data_recved (conn_flow_ctl c)) - (unat (stream_max_recv_offset s) - unat final_size))"
proof -
  have "stream_state_recv s < RQC_RECV_STREAM_ST_RESET_RECVD" using assms(1) by (simp add: stream_state_order)
  from early_reset_accepted [OF this assms(8,9), of err_code] early_fin_accepted [OF assms(1-7), of env] assms(7)
  show ?thesis by auto
qed

theorem final_size_unchecked_witness:
  "case on_stream_frame ex_env (ex_frame 10 10) (ex_sconn, ex_recv) of (r1, c, s) \<Rightarrow> r1 = RQC_OK \<and>
     (\<exists>c' s'. on_stream_frame ex_env ((ex_frame 0 10)\<lparr>sf_fin := True\<rparr>) (c, s) = (RQC_OK, c', s') \<and> c_conn_err c' = 0 \<and>
        stream_length (stream_data_in s') = 10) \<and>
     (\<exists>c' s'. on_reset_stream 0 3 (c, s) = (c', s') \<and> c_conn_err c' = 0 \<and>
        unat (fc_data_recved (conn_flow_ctl c)) = 20 \<and> unat (fc_data_recved (conn_flow_ctl c')) = 3)"
proof -
  let ?f = "(ex_frame 0 10)\<lparr>sf_fin := True\<rparr>"
  obtain r1 c s where r: "on_stream_frame ex_env (ex_frame 10 10) (ex_sconn, ex_recv) = (r1, c, s)" by (metis surj_pair)
  have e: "r1 = RQC_OK \<and> stream_state_recv s = RQC_RECV_STREAM_ST_RECV \<and> \<not> stream_determined (stream_data_in s) \<and>
      \<not> has_flag RQC_STREAM_FLAG_DISCARDED s \<and> \<not> over_limit (c, s) \<and> merged_offset_end (stream_data_in s) = 0 \<and>
      stream_max_recv_offset s = 20 \<and> fc_data_recved (conn_flow_ctl c) = 20 \<and> c_conn_err c = 0"
    using r by (auto simp: on_frame_defs ex_recv_defs over_limit_def)
  have f: "sf_fin ?f" "frame_end ?f = 10" by (simp_all add: ex_frame_def frame_end_def)
  show ?thesis
    using final_size_unchecked [of s c ?f 3 ex_env 0] e f by (simp add: r) auto
qed

definition ex_recv5 :: rqc_stream where
  "ex_recv5 = snd (snd (on_stream_frame ex_env (ex_frame 0 5) (ex_sconn, ex_recv)))"

theorem fin_with_old_data_lost_witness:
  "on_stream_frame ex_env ((ex_frame 0 5)\<lparr>sf_fin := True\<rparr>) (ex_sconn, ex_recv5) = (RQC_OK, ex_sconn, ex_recv5) \<and>
   stream_state_recv ex_recv5 = RQC_RECV_STREAM_ST_RECV \<and> merged_offset_end (stream_data_in ex_recv5) = 5"
proof -
  have e: "merged_offset_end (stream_data_in ex_recv5) = 5" "\<not> stream_determined (stream_data_in ex_recv5)"
    "fst (on_stream_frame ex_env (ex_frame 0 5) (ex_sconn, ex_recv)) = RQC_OK"
    by (simp_all add: ex_recv5_def on_frame_defs ex_recv_defs)
  have f: "from_peer of_nat 5 (ex_frame 0 5)" by (rule ex_frame_peer) simp_all
  have "\<not> frame_dropped (ex_frame 0 5) (stream_data_in ex_recv)" by (simp add: frame_dropped_def ex_recv_defs)
  note spec = on_stream_frame_spec [OF ex_recv_inv(1) f ex_recv_inv(2) this]
  obtain r c' s' where run: "on_stream_frame ex_env (ex_frame 0 5) (ex_sconn, ex_recv) = (r, c', s')" by (metis surj_pair)
  have r: "r = RQC_OK" "s' = ex_recv5" using run e(3) by (simp_all add: ex_recv5_def)
  have "received (stream_data_in ex_recv) = {}" by (simp add: ex_recv_def din_ok_init(2))
  then have i: "recv_inv of_nat 5 ex_recv5" "received (stream_data_in ex_recv5) = {..< 5}"
    using spec [OF run] by (auto simp: r frame_range_def ex_frame_def)
  have g: "from_peer of_nat 5 ((ex_frame 0 5)\<lparr>sf_fin := True\<rparr>)" by (rule ex_frame_peer) simp
  show ?thesis
    using fin_with_old_data_lost [OF i(1) g, of ex_env ex_sconn] i(2) e by (simp add: ex_frame_def)
qed

end
