(* ===== verification/Rqc_Stream_Table.thy ===== *)
theory Rqc_Stream_Table
  imports Rqc_Frame_Process
begin

text \<open>
  The life of the table of streams: the operations of \<open>src/transport/rqc_stream.c\<close> and the frame
  handlers of \<open>src/transport/rqc_frame.c\<close> as one step relation, and what holds along every run.
\<close>

subsection \<open>The handlers keep a stream in its place\<close>

lemma keep_fields [keeps]:
  "keep c0 s0 (c, s) \<Longrightarrow> keep c0 s0 (c, s\<lparr>stream_data_in := d\<rparr>)"
  "keep c0 s0 (c, s) \<Longrightarrow> keep c0 s0 (c, s\<lparr>stream_err := e\<rparr>)"
  "keep c0 s0 (c, s) \<Longrightarrow> keep c0 s0 (c, s\<lparr>stream_max_recv_offset := m\<rparr>)"
  "keep c0 s0 (c, s) \<Longrightarrow> keep c0 s0 (c, rqc_stream_recv_state_update st s)"
  "keep c0 s0 (c, s) \<Longrightarrow> keep c0 s0 (c, rqc_destroy_frame_list s)"
  "keep c0 s0 (c, s) \<Longrightarrow> keep c0 s0 (conn_error err c, s)"
  by (simp_all add: keep_def same_stream_def rqc_stream_recv_state_update_def rqc_destroy_frame_list_def conn_error_keeps)

lemma final_size_keep:
  assumes "keep c0 s0 (c, s)" "stream_final_size f s = (v, s')"
  shows "keep c0 s0 (c, s')"
proof -
  have "s' = s \<or> s' = s\<lparr>stream_data_in := (stream_data_in s)\<lparr>stream_length := frame_end f, stream_determined := True\<rparr>\<rparr> \<or>
    s' = rqc_stream_recv_state_update RQC_RECV_STREAM_ST_SIZE_KNOWN
      (s\<lparr>stream_data_in := (stream_data_in s)\<lparr>stream_length := frame_end f, stream_determined := True\<rparr>\<rparr>)"
    using assms(2) by (auto simp: stream_final_size_def Let_def split: if_splits)
  then show ?thesis using assms(1) by (auto intro: keeps)
qed

lemma account_keep [keeps]: "keep c0 s0 cs \<Longrightarrow> keep c0 s0 (recv_account f cs)"
  by (cases cs) (simp add: recv_account_def keeps)

lemma data_ready_keep [keeps]: "keep c0 s0 cs \<Longrightarrow> keep c0 s0 (stream_data_ready cs)"
  by (cases cs) (simp add: stream_data_ready_def Let_def keeps)

lemma on_stream_frame_keep:
  assumes "on_stream_frame env f (c, s) = (ret, cs)"
  shows "keep c s cs"
proof -
  obtain v s1 where v: "stream_final_size f s = (v, s1)" by (rule prod.exhaust)
  have k: "keep c s (c, s1)" using final_size_keep [OF _ v] by simp
  obtain r d where i: "rqc_insert_stream_frame (stream_data_in s1) f = (r, d)" by (rule prod.exhaust)
  obtain c2 s2 where a: "recv_account f (c, s1\<lparr>stream_data_in := d\<rparr>) = (c2, s2)" by (rule prod.exhaust)
  have "keep c s (recv_account f (c, s1\<lparr>stream_data_in := d\<rparr>))" using k by (intro keeps)
  then have k2: "keep c s (c2, s2)" unfolding a .
  show ?thesis using assms k k2
    by (auto simp: on_stream_frame_def v i a intro: keeps split: stream_verdict.splits if_splits)
qed

lemma on_reset_stream_keep: "keep c s (on_reset_stream err n (c, s))"
proof -
  define s0 where "s0 = s\<lparr>stream_err := err\<rparr>"
  define w where "w = (if stream_state_send s0 < RQC_SEND_STREAM_ST_RESET_SENT
     then rqc_write_reset_stream_to_packet err (stream_send_offset s0) (emit (Sq_Drop_Stream (stream_id s0)) c, s0) else (c, s0))"
  have "keep c s (c, s0)" by (simp add: s0_def keeps)
  then have k: "keep c s w" by (simp add: w_def keeps)
  obtain c1 s1 where cs: "w = (c1, s1)" by (rule prod.exhaust)
  have k1: "keep c s (c1, s1)" using k cs by simp
  show ?thesis
    unfolding on_reset_stream_def prod.case Let_def s0_def [symmetric] w_def [symmetric] cs
    using k1 by (simp add: keeps)
qed

lemma stream_limits_keep:
  "keep c s (on_stream_data_blocked n (c, s))" "keep c s (c, on_max_stream_data n s)"
  "keep c s (rqc_write_reset_stream_to_packet e m (c, s))"
  by (simp_all add: on_stream_data_blocked_def on_max_stream_data_def rqc_write_max_stream_data_to_packet_def Let_def keeps)

lemma conn_limits_table:
  "same_table c (on_data_blocked n c)" "same_table c (snd (on_streams_blocked n b c))" "same_table c (on_max_data n c)"
  by (simp_all add: on_data_blocked_def on_streams_blocked_def on_max_data_def rqc_write_max_data_to_packet_def
      rqc_write_max_streams_to_packet_def emit_def same_table_def Let_def)

subsection \<open>Spent identifiers\<close>

text \<open>An identifier that was in use and whose stream is gone.\<close>

definition spent :: "rqc_conn_streams \<Rightarrow> u64 \<Rightarrow> bool" where
  "spent c j \<longleftrightarrow>
     (if local_type (c_conn_type c) (rqc_get_stream_type j)
      then drop_bit 2 j < cur_local c (rqc_get_stream_type j) \<and> streams_hash c j = None
      else retired c j)"

definition evolves :: "rqc_conn_streams \<Rightarrow> rqc_conn_streams \<Rightarrow> bool" where
  "evolves c c' \<longleftrightarrow> streams_wf c' \<and> c_conn_type c' = c_conn_type c \<and> (\<forall>j. spent c j \<longrightarrow> spent c' j)"

lemma evolves_refl: "streams_wf c \<Longrightarrow> evolves c c"
  by (simp add: evolves_def)

lemma evolves_trans: "evolves a b \<Longrightarrow> evolves b c \<Longrightarrow> evolves a c"
  by (simp add: evolves_def)

lemma spent_not_found: "streams_wf c \<Longrightarrow> spent c j \<Longrightarrow> streams_hash c j = None"
  using streams_wfD(1) [of c j]
  by (cases "streams_hash c j") (auto simp: spent_def stream_filed_def retired_def split: if_splits)

lemma evolves_same_table:
  assumes "streams_wf c" "same_table c c'"
  shows "evolves c c'"
proof -
  have "c_conn_type c' = c_conn_type c" "streams_hash c' = streams_hash c" using assms(2) by (simp_all add: same_table_def)
  then show ?thesis using assms(1) same_table_wf [OF assms(2)] same_table_retired [OF assms(2)] same_table_cur [OF assms(2)]
    by (simp add: evolves_def spent_def)
qed

lemma evolves_put:
  assumes "streams_wf c" "streams_hash c i = Some s" "keep c s cs"
  shows "evolves c (put_stream cs)"
proof -
  obtain c' s' where cs: "cs = (c', s')" by (rule prod.exhaust)
  have st: "same_table c c'" "same_stream s s'" using assms(3) cs by (simp_all add: keep_def)
  have id: "stream_id s' = i" using streams_wfD(1) [OF assms(1,2)] st(2) by (simp add: stream_filed_def same_stream_def)
  have "streams_wf (put_stream (c', s'))" by (rule put_stream_wf [OF assms(1,2) st])
  moreover have "c_conn_type c' = c_conn_type c" "streams_hash c' = streams_hash c" using st(1) by (simp_all add: same_table_def)
  ultimately show ?thesis
    using cs id assms(2) same_table_retired [OF st(1)] same_table_cur [OF st(1)] by (auto simp: evolves_def spent_def)
qed

text \<open>This end opens a stream.\<close>

lemma evolves_open:
  assumes w: "streams_wf c"
  shows "evolves c (snd (rqc_stream_create_with_direction notify c bidi))"
proof -
  define t where "t = (if c_conn_type c = RQC_CONN_TYPE_CLIENT then (if bidi then RQC_CLI_BID else RQC_CLI_UNI)
        else (if bidi then RQC_SVR_BID else RQC_SVR_UNI))"
  have l: "local_type (c_conn_type c) t" by (cases "c_conn_type c") (auto simp: t_def local_type_def)
  have run: "rqc_stream_create_with_direction notify c bidi = rqc_create_stream_with_conn notify c RQC_UNDEFINE_STREAM_ID t None"
    by (simp add: rqc_stream_create_with_direction_def t_def)
  consider (closing) "conn_is_closing c" | (full) "\<not> conn_is_closing c" "\<not> cur_local c t < send_limit c t"
    | (ok) "\<not> conn_is_closing c" "cur_local c t < send_limit c t" by blast
  then show ?thesis
  proof cases
    case closing
    then show ?thesis using w by (simp add: run rqc_create_stream_with_conn_def evolves_refl)
  next
    case full
    then have "snd (rqc_create_stream_with_conn notify c RQC_UNDEFINE_STREAM_ID t None) =
        emit (Sq_Frame (Streams_Blocked (send_limit c t) (is_bid t))) c"
      by (simp add: rqc_create_stream_with_conn_def create_flow_ctl_local)
    then show ?thesis unfolding run using evolves_same_table [OF w emit_keeps [OF same_table_refl]] by simp
  next
    case ok
    let ?i = "mk_stream_id (cur_local c t) t"
    obtain s c' where c': "rqc_create_stream_with_conn notify c RQC_UNDEFINE_STREAM_ID t None = (Some s, put_stream (c', s))"
        "new_stream c ?i t s" "same_table (bump_local c t) c'"
      using create_local_spec [OF ok local_id_fresh [OF w l]] by blast
    have id: "stream_id s = ?i" "stream_type s = t" using c'(2) by (auto simp: new_stream_def)
    have "stream_filed c' ?i s" using bump_local_wf(2) [OF w ok(2) l id] same_table_filed [OF c'(3)] by simp
    then have wf: "streams_wf (put_stream (c', s))"
      using bump_local_wf(1) [OF w ok(2)] same_table_wf [OF c'(3)] id(1) by (intro put_filed_wf) simp_all
    have tab: "c_conn_type c' = c_conn_type c" "streams_hash c' = streams_hash c" "cur_local c' = cur_local (bump_local c t)"
      "retired c' = retired c"
      using c'(3) same_table_cur [OF c'(3)] same_table_retired [OF c'(3)]
      by (simp_all add: same_table_def retired_def fun_eq_iff)
    have lim: "unat (cur_local c t) < 2 ^ 60" using ok(2) streams_wfD(3) [OF w, of t] by (simp add: word_less_nat_alt)
    then have inc: "unat (cur_local c t + 1) = unat (cur_local c t) + 1" using unat_add_of_nat [of "cur_local c t" 1] by simp
    have "spent (put_stream (c', s)) j" if "spent c j" for j
    proof (cases "local_type (c_conn_type c) (rqc_get_stream_type j)")
      case True
      then have j: "drop_bit 2 j < cur_local c (rqc_get_stream_type j)" "streams_hash c j = None"
        using that by (auto simp: spent_def)
      have "j \<noteq> ?i" using j(1) lim by (auto simp: drop_mk_stream_id)
      moreover have "drop_bit 2 j < cur_local (bump_local c t) (rqc_get_stream_type j)"
      proof (cases "is_bid (rqc_get_stream_type j) = is_bid t")
        case True
        then have "cur_local c (rqc_get_stream_type j) = cur_local c t" by (simp add: cur_local_def)
        then show ?thesis using True j(1) inc by (simp add: word_less_nat_alt)
      qed (use j(1) in simp)
      ultimately show ?thesis using True j(2) tab id(1) by (simp add: spent_def)
    qed (use that tab in \<open>simp add: spent_def\<close>)
    then show ?thesis unfolding run c'(1) using wf tab(1) by (simp add: evolves_def)
  qed
qed

text \<open>The peer opens a stream.\<close>

lemma evolves_find_or_create:
  assumes w: "streams_wf c" and i: "i < 2 ^ 62" and run: "find_or_create notify c i = (so, c')"
  shows "evolves c c'" "so = Some s \<Longrightarrow> streams_hash c' i = Some s"
proof -
  have u: "i \<noteq> RQC_UNDEFINE_STREAM_ID" using i by auto
  have "evolves c c' \<and> (so = Some s \<longrightarrow> streams_hash c' i = Some s)"
  proof (cases "streams_hash c i")
    case None
    show ?thesis
    proof (cases "peer_initiated c i")
      case True
      then have r: "\<not> local_type (c_conn_type c) (rqc_get_stream_type i)"
        by (auto simp: peer_initiated_def local_type_def Let_def)
      have p: "rqc_passive_create_stream notify c i = (so, c')" using run None True by (simp add: find_or_create_def)
      note spec = passive_create_spec [OF w r u None p]
      have h: "streams_hash c' = streams_hash c \<or> (\<exists>s. so = Some s \<and> streams_hash c' = (streams_hash c)(i \<mapsto> s))"
        using spec by (cases so) auto
      then have "spent c' j" if "spent c j" for j
        using that spec r by (cases "local_type (c_conn_type c) (rqc_get_stream_type j)") (auto simp: spent_def)
      then show ?thesis using spec by (auto simp: evolves_def split: option.splits)
    qed (use run None w in \<open>simp add: find_or_create_def evolves_refl\<close>)
  qed (use run w in \<open>auto simp: find_or_create_def evolves_refl\<close>)
  then show "evolves c c'" "so = Some s \<Longrightarrow> streams_hash c' i = Some s" by auto
qed

lemma evolves_destroy:
  assumes w: "streams_wf c" and s: "streams_hash c i = Some s"
  shows "evolves c (rqc_destroy_stream (c, s))" "spent (rqc_destroy_stream (c, s)) i"
proof -
  let ?d = "rqc_destroy_stream (c, s)"
  have f: "stream_filed c i s" by (rule streams_wfD(1) [OF w s])
  then have id: "stream_id s = i" by (simp add: stream_filed_def)
  have d: "c_conn_type ?d = c_conn_type c" "streams_hash ?d = (streams_hash c)(i := None)"
    "passive_streams_hash ?d = passive_streams_hash c - {i}" "cur_local ?d = cur_local c" "max_remote ?d = max_remote c"
    "send_limit ?d = send_limit c"
    using id by (simp_all add: rqc_destroy_stream_def Let_def rqc_stream_shutdown_read_def rqc_stream_shutdown_write_def
        cur_local_def max_remote_def send_limit_def fun_eq_iff)
  have filed: "stream_filed ?d j x" if "stream_filed c j x" "j \<noteq> i" for j x
    using that by (simp add: stream_filed_def d)
  have "streams_wf ?d" using w filed unfolding streams_wf_def by (simp add: d)
  then show "evolves c ?d" using d by (auto simp: evolves_def spent_def retired_def)
  show "spent ?d i" using f by (auto simp: spent_def retired_def stream_filed_def d)
qed

subsection \<open>The handlers\<close>

lemma parsed_ids:
  "rqc_parse_reset_stream_frame pi = Inr (pi', i, e, n) \<Longrightarrow> i < 2 ^ 62"
  "rqc_parse_stop_sending_frame pi = Inr (pi', i, e) \<Longrightarrow> i < 2 ^ 62"
  "rqc_parse_stream_data_blocked_frame pi = Inr (pi', i, n) \<Longrightarrow> i < 2 ^ 62"
  "rqc_parse_max_stream_data_frame pi = Inr (pi', i, n) \<Longrightarrow> i < 2 ^ 62"
  "parse_stream_fields pi = Inr (b, i, off, len, p) \<Longrightarrow> i < 2 ^ 62"
  by (auto simp: rqc_parse_reset_stream_frame_def rqc_parse_stop_sending_frame_def rqc_parse_stream_data_blocked_frame_def
      rqc_parse_max_stream_data_frame_def parse_stream_fields_def res_bind_eq_Inr dest: rd_vint_Inr)

lemma parsed_stream:
  assumes "rqc_parse_stream_frame True pi err = (pres, err')"
  shows "pres = Inr (pi', f, i) \<Longrightarrow> i < 2 ^ 62 \<and> err' = err"
  using assms parsed_ids(5) [of pi]
  by (auto simp: rqc_parse_stream_frame_def res_bind_eq_Inr split: sum.splits if_splits)

lemma handle_evolves:
  assumes "evolves c c1" "\<And>pi x. pres = Inr (pi, x) \<Longrightarrow> evolves c (snd (act x))" "handle c1 pres act = (r, c')"
  shows "evolves c c'"
  using assms by (cases pres) (auto simp: handle_def split: prod.splits)

lemma found_evolves:
  assumes "streams_wf c" "i < 2 ^ 62" "\<And>c s. keep c s (g c s)"
  shows "evolves c (snd (case find_or_create notify c i of (None, c) \<Rightarrow> (r, c) | (Some s, c) \<Rightarrow> (h c s, put_stream (g c s))))"
proof -
  obtain so c1 where f: "find_or_create notify c i = (so, c1)" by (rule prod.exhaust)
  note e = evolves_find_or_create [OF assms(1,2) f]
  show ?thesis
  proof (cases so)
    case (Some s)
    have "streams_wf c1" using e(1) by (simp add: evolves_def)
    then have "evolves c1 (put_stream (g c1 s))" using e(2) [OF Some] assms(3) by (rule evolves_put)
    then show ?thesis using e(1) evolves_trans by (simp add: f Some)
  qed (use e(1) f in simp)
qed

lemma stream_frame_evolves:
  assumes w: "streams_wf c" and run: "rqc_process_stream_frame env notify c pi = (r, c')"
  shows "evolves c c'"
proof -
  obtain pres err where p: "rqc_parse_stream_frame True pi (c_conn_err c) = (pres, err)" by (rule prod.exhaust)
  have e: "evolves c (if err \<noteq> c_conn_err c then conn_error err c else c)"
    using w by (simp add: evolves_refl evolves_same_table [OF _ conn_error_keeps])
  have act: "evolves c (snd (case find_or_create notify c i of (None, c) \<Rightarrow> (RQC_OK, c)
      | (Some s, c) \<Rightarrow> store (on_stream_frame env (frame_in f) (c, s))))" if "i < 2 ^ 62" for i f
    unfolding store_def by (rule found_evolves [OF w that]) (metis on_stream_frame_keep surjective_pairing)
  show ?thesis
    by (rule handle_evolves [OF e _ run [unfolded rqc_process_stream_frame_def p prod.case]])
       (use parsed_stream [OF p] act in auto)
qed

lemma stream_ctrl_evolves:
  assumes w: "streams_wf c"
  shows "rqc_process_reset_stream_frame notify c pi = (r, c') \<Longrightarrow> evolves c c'"
    "rqc_process_stop_sending_frame notify c pi = (r, c') \<Longrightarrow> evolves c c'"
    "rqc_process_stream_data_blocked_frame notify c pi = (r, c') \<Longrightarrow> evolves c c'"
    "rqc_process_max_stream_data_frame notify c pi = (r, c') \<Longrightarrow> evolves c c'"
proof -
  note h = handle_evolves [OF evolves_refl [OF w]] and f = found_evolves [OF w]
  show "rqc_process_reset_stream_frame notify c pi = (r, c') \<Longrightarrow> evolves c c'"
    unfolding rqc_process_reset_stream_frame_def
    by (erule h [rotated]) (auto intro!: f dest: parsed_ids simp: on_reset_stream_keep)
  show "rqc_process_stop_sending_frame notify c pi = (r, c') \<Longrightarrow> evolves c c'"
    unfolding rqc_process_stop_sending_frame_def
    by (erule h [rotated]) (auto intro!: f dest: parsed_ids simp: stream_limits_keep)
  show "rqc_process_stream_data_blocked_frame notify c pi = (r, c') \<Longrightarrow> evolves c c'"
    unfolding rqc_process_stream_data_blocked_frame_def
    by (erule h [rotated]) (auto intro!: f dest: parsed_ids simp: stream_limits_keep)
  show "rqc_process_max_stream_data_frame notify c pi = (r, c') \<Longrightarrow> evolves c c'"
    unfolding rqc_process_max_stream_data_frame_def
    by (erule h [rotated]) (auto intro!: f dest: parsed_ids simp: stream_limits_keep)
qed

lemma max_streams_evolves:
  assumes "streams_wf c" shows "evolves c (snd (on_max_streams n b c))"
proof -
  let ?c = "snd (on_max_streams n b c)"
  have d: "c_conn_type ?c = c_conn_type c" "streams_hash ?c = streams_hash c" "passive_streams_hash ?c = passive_streams_hash c"
    "cur_local ?c = cur_local c" "max_remote ?c = max_remote c"
    by (simp_all add: on_max_streams_def Let_def cur_local_def max_remote_def fun_eq_iff)
  have lim: "unat (send_limit ?c t) \<le> 2 ^ 60" for t
    using streams_wfD(3) [OF assms, of t] by (auto simp: on_max_streams_def Let_def send_limit_def not_less word_le_nat_alt)
  have "stream_filed ?c = stream_filed c" by (simp add: stream_filed_def fun_eq_iff d)
  then have "streams_wf ?c" using assms lim by (simp add: streams_wf_def d)
  then show ?thesis by (simp add: evolves_def spent_def retired_def d)
qed

lemma conn_ctrl_evolves:
  assumes w: "streams_wf c"
  shows "rqc_process_data_blocked_frame c pi = (r, c') \<Longrightarrow> evolves c c'"
    "rqc_process_streams_blocked_frame c pi = (r, c') \<Longrightarrow> evolves c c'"
    "rqc_process_max_data_frame c pi = (r, c') \<Longrightarrow> evolves c c'"
    "rqc_process_max_streams_frame c pi = (r, c') \<Longrightarrow> evolves c c'"
proof -
  note h = handle_evolves [OF evolves_refl [OF w]] and t = evolves_same_table [OF w]
  show "rqc_process_data_blocked_frame c pi = (r, c') \<Longrightarrow> evolves c c'"
    unfolding rqc_process_data_blocked_frame_def by (erule h [rotated]) (auto intro: t conn_limits_table)
  show "rqc_process_streams_blocked_frame c pi = (r, c') \<Longrightarrow> evolves c c'"
    unfolding rqc_process_streams_blocked_frame_def by (erule h [rotated]) (auto intro: t conn_limits_table)
  show "rqc_process_max_data_frame c pi = (r, c') \<Longrightarrow> evolves c c'"
    unfolding rqc_process_max_data_frame_def by (erule h [rotated]) (auto intro: t conn_limits_table)
  show "rqc_process_max_streams_frame c pi = (r, c') \<Longrightarrow> evolves c c'"
    unfolding rqc_process_max_streams_frame_def by (erule h [rotated]) (auto intro: max_streams_evolves [OF w])
qed

subsection \<open>Runs of a connection\<close>

text \<open>
  One call: a stream is opened, a frame of a received packet is processed, the application reads or
  peeks, a stream is destroyed. Time, round-trip times and the answers of the application are arbitrary
  at every step.
\<close>

inductive conn_step :: "rqc_conn_streams \<Rightarrow> rqc_conn_streams \<Rightarrow> bool" where
  open_stream: "rqc_stream_create_with_direction notify c bidi = (so, c') \<Longrightarrow> conn_step c c'"
| stream_frame: "rqc_process_stream_frame env notify c pi = (r, c') \<Longrightarrow> conn_step c c'"
| reset_stream: "rqc_process_reset_stream_frame notify c pi = (r, c') \<Longrightarrow> conn_step c c'"
| stop_sending: "rqc_process_stop_sending_frame notify c pi = (r, c') \<Longrightarrow> conn_step c c'"
| data_blocked: "rqc_process_data_blocked_frame c pi = (r, c') \<Longrightarrow> conn_step c c'"
| stream_data_blocked: "rqc_process_stream_data_blocked_frame notify c pi = (r, c') \<Longrightarrow> conn_step c c'"
| streams_blocked: "rqc_process_streams_blocked_frame c pi = (r, c') \<Longrightarrow> conn_step c c'"
| max_data: "rqc_process_max_data_frame c pi = (r, c') \<Longrightarrow> conn_step c c'"
| max_stream_data: "rqc_process_max_stream_data_frame notify c pi = (r, c') \<Longrightarrow> conn_step c c'"
| max_streams: "rqc_process_max_streams_frame c pi = (r, c') \<Longrightarrow> conn_step c c'"
| stream_recv: "streams_hash c i = Some s \<Longrightarrow> rqc_stream_recv env n (c, s) = Inr (ret, bs, fin, cs) \<Longrightarrow>
    conn_step c (put_stream cs)"
| stream_peek: "streams_hash c i = Some s \<Longrightarrow> rqc_stream_peek env n (c, s) = Inr (ret, bs, readable, fin, cs) \<Longrightarrow>
    conn_step c (put_stream cs)"
| destroy_stream: "streams_hash c i = Some s \<Longrightarrow> conn_step c (rqc_destroy_stream (c, s))"

lemma conn_step_evolves: "conn_step c c' \<Longrightarrow> streams_wf c \<Longrightarrow> evolves c c'"
proof (induction rule: conn_step.induct)
  case (open_stream notify c bidi so c')
  then show ?case using evolves_open [of c notify bidi] by simp
qed (simp_all add: stream_frame_evolves stream_ctrl_evolves conn_ctrl_evolves evolves_put recv_keep peek_keep evolves_destroy)

lemma conn_steps_evolve: "conn_step\<^sup>*\<^sup>* c c' \<Longrightarrow> streams_wf c \<Longrightarrow> evolves c c'"
proof (induction rule: rtranclp_induct)
  case (step a b)
  then have "evolves c a" "streams_wf a" by (simp_all add: evolves_def)
  then show ?case using evolves_trans conn_step_evolves [OF step.hyps(2)] by blast
qed (simp add: evolves_refl)

subsection \<open>Properties\<close>

text \<open>
  C7: the table of streams along every run. Whatever sequence of frames, openings, reads and
  destructions happens, the table stays well formed: every stream is filed under its identifier with the
  type in it, and its number was handed out by its end of the connection. The identifier of a
  destroyed stream is never used again, neither by this end nor by frames of the peer that arrive late.
\<close>

theorem stream_table_runs:
  assumes "streams_wf c" "streams_hash c i = Some s"
  shows "(conn_step\<^sup>*\<^sup>* c c' \<longrightarrow> streams_wf c' \<and>
      (\<forall>j t. streams_hash c' j = Some t \<longrightarrow> stream_id t = j \<and> stream_type t = rqc_get_stream_type j)) \<and>
    (conn_step\<^sup>*\<^sup>* (rqc_destroy_stream (c, s)) c' \<longrightarrow> streams_hash c' i = None)"
proof (intro conjI impI)
  assume "conn_step\<^sup>*\<^sup>* c c'"
  then have w: "streams_wf c'" using conn_steps_evolve [OF _ assms(1)] by (simp add: evolves_def)
  then show "streams_wf c'" .
  show "\<forall>j t. streams_hash c' j = Some t \<longrightarrow> stream_id t = j \<and> stream_type t = rqc_get_stream_type j"
    using streams_wfD(1) [OF w] by (auto simp: stream_filed_def)
next
  assume run: "conn_step\<^sup>*\<^sup>* (rqc_destroy_stream (c, s)) c'"
  have w: "streams_wf (rqc_destroy_stream (c, s))" using evolves_destroy(1) [OF assms] by (simp add: evolves_def)
  from conn_steps_evolve [OF run w] have "streams_wf c'" "spent c' i"
    using evolves_destroy(2) [OF assms] by (simp_all add: evolves_def)
  then show "streams_hash c' i = None" by (rule spent_not_found)
qed

definition ex_table :: rqc_conn_streams where
  "ex_table = ex_sconn\<lparr>max_stream_id_bidi_remote := 0, passive_streams_hash := {0}, streams_hash := [0 \<mapsto> stream_zero]\<rparr>"

theorem stream_table_runs_witness:
  "streams_hash (snd (rqc_process_stream_frame \<lparr>env_now = 50, env_srtt = Some 10, env_pto = None, env_running = False\<rparr> None
     (rqc_destroy_stream (ex_table, stream_zero)) (pi_example [0x08, 0x00, 0x61]))) 0 = None"
proof -
  have w: "streams_wf ex_table"
    by (auto simp: streams_wf_def stream_filed_def ex_table_def ex_sconn_def stream_zero_def stream_defs rqc_get_stream_type_def split: if_splits)
  have h: "streams_hash ex_table 0 = Some stream_zero" by (simp add: ex_table_def)
  show ?thesis
    by (rule stream_table_runs [OF w h, THEN conjunct2, THEN mp])
       (rule r_into_rtranclp, rule conn_step.stream_frame, rule surjective_pairing)
qed

end
