(* ===== verification/Rqc_Recv_Path.thy ===== *)
theory Rqc_Recv_Path
  imports Rqc_Frame_Ack Rqc_Packet_Header
begin

text \<open>
  When a received packet is acknowledged: \<open>rqc_conn_record_single\<close> (\<open>src/transport/rqc_conn.c\<close>), which
  runs after the frames of a packet have been processed, \<open>rqc_maybe_should_ack\<close>
  (\<open>src/transport/rqc_recv_record.c\<close>), the ACK timer (\<open>src/transport/rqc_timer.{h,c}\<close>) and
  \<open>rqc_write_ack_to_one_packet\<close> (\<open>src/transport/rqc_packet_out.c\<close>).

  \<open>ack_ctl\<close> holds the fields that these functions share, from \<open>rqc_send_ctl_t\<close>, \<open>rqc_pn_ctl_t\<close>,
  \<open>rqc_path_ctx_t\<close> and \<open>rqc_connection_t\<close>; the connection has one path, with identifier 0. \<open>ack_env\<close> are the
  settings and the state of the connection that they read. A duplicate packet does not stop its frames from being
  processed; what the record decides is which packets count as waiting for an acknowledgement.
\<close>

subsection \<open>State\<close>

record rqc_timer =
  timer_is_set :: bool
  expire_time :: u64

record ack_ctl =
  ctl_recv_record :: rqc_recv_record
  ctl_ack_eliciting_pkt :: u32
  ctl_largest_received :: u64
  ctl_largest_recv_time :: u64
  ctl_app_bytes_recv :: u64
  ctl_ack_sent_cnt :: u64
  timer_ack :: rqc_timer
  path_should_ack :: bool
  ack_flag :: u64
  ack_has_gap :: bool

record ack_env =
  env_conn_state :: rqc_conn_state
  env_handshake_done :: bool
  adaptive_ack_frequency :: bool
  ack_frequency :: u32
  max_ack_delay :: u64
  ack_delay_exponent :: nat

abbreviation (input) "RQC_MAX_UINT64_VALUE \<equiv> (0xFFFFFFFFFFFFFFFF :: u64)"

subsection \<open>The ACK timer\<close>

definition rqc_timer_set :: "u64 \<Rightarrow> u64 \<Rightarrow> rqc_timer" where
  "rqc_timer_set now inter_time = \<lparr>timer_is_set = True, expire_time = now + inter_time\<rparr>"

definition rqc_timer_unset :: rqc_timer where
  "rqc_timer_unset = \<lparr>timer_is_set = False, expire_time = 0\<rparr>"

definition rqc_timer_ack_timeout :: "ack_ctl \<Rightarrow> ack_ctl" where
  "rqc_timer_ack_timeout a = a\<lparr>path_should_ack := True, ack_flag := ack_flag a OR 1\<rparr>"

text \<open>One round of the loop of \<open>rqc_timer_expire\<close>, for the ACK timer.\<close>

definition ack_timer_expire :: "u64 \<Rightarrow> ack_ctl \<Rightarrow> ack_ctl" where
  "ack_timer_expire now a =
     (if timer_is_set (timer_ack a) \<and> expire_time (timer_ack a) \<le> now then
        let a = rqc_timer_ack_timeout a
        in if expire_time (timer_ack a) \<le> now then a\<lparr>timer_ack := rqc_timer_unset\<rparr> else a
      else a)"

subsection \<open>Recording a packet\<close>

definition rqc_get_ack_frequency :: "ack_env \<Rightarrow> ack_ctl \<Rightarrow> u32" where
  "rqc_get_ack_frequency env a =
     (if env_handshake_done env \<and> adaptive_ack_frequency env \<and> ctl_ack_sent_cnt a \<ge> 100
      then max (ack_frequency env) 10 else ack_frequency env)"

definition rqc_maybe_should_ack :: "ack_env \<Rightarrow> bool \<Rightarrow> u64 \<Rightarrow> ack_ctl \<Rightarrow> ack_ctl" where
  "rqc_maybe_should_ack env out_of_order now a =
     (if path_should_ack a then a
      else if ctl_ack_eliciting_pkt a \<ge> rqc_get_ack_frequency env a \<or>
              env_conn_state env \<noteq> RQC_CONN_STATE_ESTABED \<and> ctl_ack_eliciting_pkt a > 0 \<or>
              out_of_order \<and> ctl_ack_eliciting_pkt a > 0
      then a\<lparr>path_should_ack := True, ack_flag := ack_flag a OR 1, timer_ack := rqc_timer_unset\<rparr>
      else if ctl_ack_eliciting_pkt a > 0 \<and> \<not> timer_is_set (timer_ack a)
      then a\<lparr>timer_ack := rqc_timer_set now (max_ack_delay env * 1000)\<rparr>
      else a)"

text \<open>\<open>ok\<close> is whether the allocation of a new range succeeds.\<close>

definition rqc_conn_record_single :: "bool \<Rightarrow> ack_env \<Rightarrow> rqc_packet_in \<Rightarrow> ack_ctl \<Rightarrow> ack_ctl res" where
  "rqc_conn_record_single ok env packet_in a =
     (if \<not> rqc_has_packet_number (pi_pkt packet_in) then Inr a
      else
        let pn = pkt_num (pi_pkt packet_in);
            a = (if pi_frame_types packet_in AND RQC_FRAME_BIT_STREAM \<noteq> 0
                 then a\<lparr>ctl_app_bytes_recv := ctl_app_bytes_recv a + of_nat (length (pi_buf packet_in))\<rparr> else a)
        in res_bind (rqc_recv_record_add ok (ctl_recv_record a) pn) (\<lambda>(range_status, record).
             let a = a\<lparr>ctl_recv_record := record\<rparr> in
             if range_status = RQC_PKTRANGE_OK then
               let a = (if RQC_IS_ACK_ELICITING (pi_frame_types packet_in) then
                          let a = a\<lparr>ctl_ack_eliciting_pkt := ctl_ack_eliciting_pkt a + 1\<rparr>
                          in if pn > ctl_largest_received a \<or> ctl_largest_received a = RQC_MAX_UINT64_VALUE
                             then a\<lparr>ctl_largest_received := pn, ctl_largest_recv_time := pkt_recv_time packet_in\<rparr> else a
                        else a);
                   out_of_order = (pn \<noteq> rqc_recv_record_largest (ctl_recv_record a))
               in Inr (rqc_maybe_should_ack env out_of_order (pkt_recv_time packet_in) a)
             else Inr a))"

text \<open>The packets of a connection one after the other.\<close>

fun record_packets :: "ack_env \<Rightarrow> rqc_packet_in list \<Rightarrow> ack_ctl \<Rightarrow> ack_ctl res" where
  "record_packets env [] a = Inr a"
| "record_packets env (pi # pis) a = res_bind (rqc_conn_record_single True env pi a) (record_packets env pis)"

subsection \<open>Writing the acknowledgement\<close>

text \<open>
  On an error the packet goes back to the free list if it is empty, which is the business of the send queue.
\<close>

definition rqc_write_ack_to_one_packet :: "ack_env \<Rightarrow> u64 \<Rightarrow> rqc_packet_out \<Rightarrow> ack_ctl \<Rightarrow> unit res \<times> rqc_packet_out \<times> ack_ctl" where
  "rqc_write_ack_to_one_packet env now po a =
     (case rqc_gen_ack_frame po now (ack_delay_exponent env) (ctl_recv_record a) (ctl_largest_recv_time a) of
        (Inl f, po') \<Rightarrow> (Inl f, po', a)
      | (Inr (ret, has_gap, largest), po') \<Rightarrow>
          (Inr (), po'\<lparr>po_ack_offset := po_used_size po', po_used_size := po_used_size po' + ret, po_largest_ack := largest\<rparr>,
           a\<lparr>ctl_ack_eliciting_pkt := 0, ack_has_gap := has_gap, path_should_ack := False,
             ack_flag := ack_flag a AND NOT 1, ctl_ack_sent_cnt := ctl_ack_sent_cnt a + 1\<rparr>))"

subsection \<open>What waits for an acknowledgement\<close>

text \<open>
  The packets that count are those whose number arrives for the first time. \<open>ack_due\<close>: the two flags agree, and
  either an acknowledgement is to be written, or no packet waits for one, or the timer runs and, on an
  established connection, fewer packets wait than the acknowledgement frequency.
\<close>

fun first_arrivals :: "nat set \<Rightarrow> rqc_packet_in list \<Rightarrow> rqc_packet_in list" where
  "first_arrivals seen [] = []"
| "first_arrivals seen (pi # pis) =
     (if unat (pkt_num (pi_pkt pi)) \<in> seen then first_arrivals seen pis
      else pi # first_arrivals (insert (unat (pkt_num (pi_pkt pi))) seen) pis)"

definition flags_agree :: "ack_ctl \<Rightarrow> bool" where
  "flags_agree a \<longleftrightarrow> (path_should_ack a \<longleftrightarrow> ack_flag a \<noteq> 0)"

definition ack_due :: "ack_env \<Rightarrow> ack_ctl \<Rightarrow> bool" where
  "ack_due env a \<longleftrightarrow> flags_agree a \<and>
     (path_should_ack a \<or> ctl_ack_eliciting_pkt a = 0 \<or>
      timer_is_set (timer_ack a) \<and> env_conn_state env = RQC_CONN_STATE_ESTABED \<and> ctl_ack_eliciting_pkt a < rqc_get_ack_frequency env a)"

lemma maybe_should_ack_due: "flags_agree a \<Longrightarrow> ack_due env (rqc_maybe_should_ack env out_of_order now a)"
  by (auto simp: rqc_maybe_should_ack_def ack_due_def flags_agree_def rqc_timer_set_def rqc_get_ack_frequency_def word_gt_0
      or_eq_0_iff not_le not_less)

lemma maybe_should_ack_fields [simp]:
  "ctl_recv_record (rqc_maybe_should_ack env out_of_order now a) = ctl_recv_record a"
  "ctl_ack_eliciting_pkt (rqc_maybe_should_ack env out_of_order now a) = ctl_ack_eliciting_pkt a"
  by (simp_all add: rqc_maybe_should_ack_def)

lemma ack_due_other [simp]:
  "ack_due env (a\<lparr>ctl_app_bytes_recv := x\<rparr>) = ack_due env a" "ack_due env (a\<lparr>ctl_recv_record := rr\<rparr>) = ack_due env a"
  by (simp_all add: ack_due_def flags_agree_def rqc_get_ack_frequency_def)

abbreviation pi_num :: "rqc_packet_in \<Rightarrow> u64" where
  "pi_num pi \<equiv> pkt_num (pi_pkt pi)"

abbreviation eliciting :: "rqc_packet_in \<Rightarrow> bool" where
  "eliciting pi \<equiv> RQC_IS_ACK_ELICITING (pi_frame_types pi)"

text \<open>One packet, by the answer of the record.\<close>

lemma record_single:
  assumes h: "rqc_has_packet_number (pi_pkt pi)" and r: "rqc_recv_record_add True (ctl_recv_record a) (pi_num pi) = Inr (st, rr)"
    and st: "st = RQC_PKTRANGE_OK \<longleftrightarrow> new"
  shows "\<exists>b. rqc_conn_record_single True env pi a = Inr b \<and> ctl_recv_record b = rr \<and>
    ctl_ack_eliciting_pkt b = ctl_ack_eliciting_pkt a + (if new \<and> eliciting pi then 1 else 0) \<and>
    (ack_due env a \<longrightarrow> ack_due env b)"
proof (cases new)
  case False
  then have "st \<noteq> RQC_PKTRANGE_OK" using st by blast
  then show ?thesis using h r False
    by (simp add: rqc_conn_record_single_def Let_def res_bind_simps)
next
  case True
  define a1 where "a1 = (if pi_frame_types pi AND RQC_FRAME_BIT_STREAM \<noteq> 0
      then a\<lparr>ctl_app_bytes_recv := ctl_app_bytes_recv a + of_nat (length (pi_buf pi))\<rparr> else a)\<lparr>ctl_recv_record := rr\<rparr>"
  define a2 where "a2 = (if eliciting pi then
      let a = a1\<lparr>ctl_ack_eliciting_pkt := ctl_ack_eliciting_pkt a1 + 1\<rparr>
      in if pi_num pi > ctl_largest_received a \<or> ctl_largest_received a = RQC_MAX_UINT64_VALUE
         then a\<lparr>ctl_largest_received := pi_num pi, ctl_largest_recv_time := pkt_recv_time pi\<rparr> else a else a1)"
  have "rqc_conn_record_single True env pi a =
      Inr (rqc_maybe_should_ack env (pi_num pi \<noteq> rqc_recv_record_largest (ctl_recv_record a2)) (pkt_recv_time pi) a2)"
    using h r True st by (simp add: rqc_conn_record_single_def Let_def res_bind_simps a1_def a2_def)
  moreover have "ctl_recv_record a2 = rr" "ctl_ack_eliciting_pkt a2 = ctl_ack_eliciting_pkt a + (if eliciting pi then 1 else 0)"
    "flags_agree a2 = flags_agree a" by (simp_all add: a2_def a1_def Let_def flags_agree_def)
  ultimately show ?thesis using True maybe_should_ack_due [of a2] by (simp add: ack_due_def)
qed

lemma record_packets:
  assumes "rr_inv (ctl_recv_record a)" "\<forall>pi \<in> set pis. rqc_has_packet_number (pi_pkt pi) \<and> unat (pi_num pi) < 2 ^ 62"
    "room_for (\<lambda>rr. node_count rr < RQC_MAX_ACK_RANGE_CNT) (rqc_recv_record_add True) (ctl_recv_record a) (map pi_num pis)"
  shows "\<exists>b. record_packets env pis a = Inr b \<and> rr_inv (ctl_recv_record b) \<and>
    rr_set (ctl_recv_record b) = rr_set (ctl_recv_record a) \<union> unat ` pi_num ` set pis \<and>
    ctl_ack_eliciting_pkt b = ctl_ack_eliciting_pkt a +
      of_nat (length (filter eliciting (first_arrivals (rr_set (ctl_recv_record a)) pis))) \<and>
    (ack_due env a \<longrightarrow> ack_due env b)"
  using assms
proof (induction pis arbitrary: a)
  case (Cons pi pis)
  have "rr_inv (ctl_recv_record a)" "unat (pi_num pi) < 2 ^ 62" "node_count (ctl_recv_record a) < RQC_MAX_ACK_RANGE_CNT"
    using Cons.prems by auto
  then obtain st rr where n: "rqc_recv_record_add True (ctl_recv_record a) (pi_num pi) = Inr (st, rr)" "rr_inv rr"
    "rr_set rr = insert (unat (pi_num pi)) (rr_set (ctl_recv_record a))"
    "st = (if unat (pi_num pi) \<in> rr_set (ctl_recv_record a) then RQC_PKTRANGE_DUP else RQC_PKTRANGE_OK)" by (rule rr.add_new)
  have h: "rqc_has_packet_number (pi_pkt pi)" using Cons.prems(2) by simp
  have ok: "st = RQC_PKTRANGE_OK \<longleftrightarrow> unat (pi_num pi) \<notin> rr_set (ctl_recv_record a)" using n(4) by simp
  obtain b where
    b: "rqc_conn_record_single True env pi a = Inr b" "ctl_recv_record b = rr"
      "ctl_ack_eliciting_pkt b = ctl_ack_eliciting_pkt a + (if unat (pi_num pi) \<notin> rr_set (ctl_recv_record a) \<and> eliciting pi then 1 else 0)"
      "ack_due env a \<longrightarrow> ack_due env b" using record_single [OF h n(1) ok, of env] by blast
  have "room_for (\<lambda>rr. node_count rr < RQC_MAX_ACK_RANGE_CNT) (rqc_recv_record_add True) (ctl_recv_record b) (map pi_num pis)"
    using Cons.prems(3) n(1) b(2) by simp
  moreover have "\<forall>pi \<in> set pis. rqc_has_packet_number (pi_pkt pi) \<and> unat (pi_num pi) < 2 ^ 62" using Cons.prems(2) by simp
  moreover have "rr_inv (ctl_recv_record b)" using n(2) b(2) by simp
  ultimately obtain c where
    c: "record_packets env pis b = Inr c" "rr_inv (ctl_recv_record c)" "rr_set (ctl_recv_record c) = rr_set rr \<union> unat ` pi_num ` set pis"
      "ctl_ack_eliciting_pkt c = ctl_ack_eliciting_pkt b + of_nat (length (filter eliciting (first_arrivals (rr_set rr) pis)))"
      "ack_due env b \<longrightarrow> ack_due env c" using Cons.IH [of b] unfolding b(2) by blast
  have "ctl_ack_eliciting_pkt c = ctl_ack_eliciting_pkt a +
      of_nat (length (filter eliciting (first_arrivals (rr_set (ctl_recv_record a)) (pi # pis))))"
  proof (cases "unat (pi_num pi) \<in> rr_set (ctl_recv_record a)")
    case True
    then have "rr_set rr = rr_set (ctl_recv_record a)" using n(3) insert_absorb [OF True] by (simp only:)
    then show ?thesis using True c(4) b(3) by simp
  next
    case False
    then show ?thesis using c(4) b(3) n(3) by simp
  qed
  moreover have "record_packets env (pi # pis) a = Inr c" using b(1) c(1) by (simp add: res_bind_simps)
  moreover have "rr_set (ctl_recv_record c) = rr_set (ctl_recv_record a) \<union> unat ` pi_num ` set (pi # pis)" using c(3) n(3) by simp
  ultimately show ?case using c(2,5) b(4) by blast
qed simp

text \<open>The timer and the writing of an acknowledgement keep \<open>ack_due\<close> too; an expired timer makes it due at once.\<close>

lemma ack_timer_expire_due:
  assumes "ack_due env a"
  shows "ack_due env (ack_timer_expire now a)"
    "timer_is_set (timer_ack a) \<Longrightarrow> expire_time (timer_ack a) \<le> now \<Longrightarrow> path_should_ack (ack_timer_expire now a)"
  using assms by (auto simp: ack_timer_expire_def rqc_timer_ack_timeout_def ack_due_def flags_agree_def or_eq_0_iff Let_def)

subsection \<open>Properties\<close>

text \<open>
  C8: recording received packets. Take any sequence of packets with numbers below \<open>2 ^ 62\<close>, in any order and with
  duplicates, such that the record has room for another range at each of them. Then recording them ends with
  exactly the old and the received numbers on record; the count of packets that wait for an acknowledgement
  grows by one for each ack-eliciting packet whose number arrives for the first time, and by nothing for a
  duplicate; and no waiting packet is forgotten: if it was so before, then afterwards an acknowledgement is due, or
  nothing waits, or the ACK timer runs and fewer packets than the acknowledgement frequency wait on an
  established connection.
\<close>

theorem recv_path_records_once:
  assumes "rr_inv (ctl_recv_record a)" and "\<forall>pi \<in> set pis. rqc_has_packet_number (pi_pkt pi) \<and> unat (pi_num pi) < 2 ^ 62"
    and "room_for (\<lambda>rr. node_count rr < RQC_MAX_ACK_RANGE_CNT) (rqc_recv_record_add True) (ctl_recv_record a) (map pi_num pis)"
    and "ack_due env a"
  shows "\<exists>b. record_packets env pis a = Inr b \<and> rr_inv (ctl_recv_record b) \<and>
    rr_set (ctl_recv_record b) = rr_set (ctl_recv_record a) \<union> unat ` pi_num ` set pis \<and>
    ctl_ack_eliciting_pkt b = ctl_ack_eliciting_pkt a +
      of_nat (length (filter eliciting (first_arrivals (rr_set (ctl_recv_record a)) pis))) \<and>
    ack_due env b"
  using record_packets [OF assms(1-3), of env] assms(4) by blast

text \<open>A client in the middle of a connection gets packets 3, 1, 3, the second of them reordered, the third a duplicate.\<close>

definition ex_ack_ctl :: ack_ctl where
  "ex_ack_ctl = \<lparr>ctl_recv_record = \<lparr>list_head = [], rr_del_from = 0, node_count = 0\<rparr>, ctl_ack_eliciting_pkt = 0,
     ctl_largest_received = RQC_MAX_UINT64_VALUE, ctl_largest_recv_time = 0, ctl_app_bytes_recv = 0, ctl_ack_sent_cnt = 0,
     timer_ack = rqc_timer_unset, path_should_ack = False, ack_flag = 0, ack_has_gap = False\<rparr>"

definition ex_ack_env :: ack_env where
  "ex_ack_env = \<lparr>env_conn_state = RQC_CONN_STATE_ESTABED, env_handshake_done = True, adaptive_ack_frequency = False,
     ack_frequency = 10, max_ack_delay = 25, ack_delay_exponent = 3\<rparr>"

definition ex_ack_packet :: "u64 \<Rightarrow> rqc_packet_in" where
  "ex_ack_packet pn = (let cid = \<lparr>cid_len = 0, cid_buf = [], cid_seq_num = 0, cid_path_id = 0\<rparr> in
     \<lparr>pi_pkt = \<lparr>pkt_num = pn, pkt_type = RQC_PTYPE_SHORT_HEADER, pkt_dcid = cid, pkt_scid = cid, pkt_length = 0, pkt_num_offset = 0\<rparr>,
      pi_buf = [], pi_pos = 0, pi_last = 0, pkt_recv_time = 1000, pi_frame_types = RQC_FRAME_BIT_STREAM\<rparr>)"

lemma ex_ack_packet_fields [simp]:
  "pi_num (ex_ack_packet pn) = pn" "rqc_has_packet_number (pi_pkt (ex_ack_packet pn))" "eliciting (ex_ack_packet pn)"
  by (simp_all add: ex_ack_packet_def Let_def rqc_has_packet_number_def RQC_IS_ACK_ELICITING_def)

theorem recv_path_records_once_witness:
  "\<exists>b. record_packets ex_ack_env (map ex_ack_packet [3, 1, 3]) ex_ack_ctl = Inr b \<and> rr_set (ctl_recv_record b) = {1, 3} \<and>
     ctl_ack_eliciting_pkt b = 2 \<and> ack_due ex_ack_env b"
proof -
  let ?pis = "map ex_ack_packet [3, 1, 3]"
  have 1: "rr_inv (ctl_recv_record ex_ack_ctl)" "rr_set (ctl_recv_record ex_ack_ctl) = {}"
    by (simp_all add: ex_ack_ctl_def rr_inv_def rr_set_def)
  have 2: "\<forall>pi \<in> set ?pis. rqc_has_packet_number (pi_pkt pi) \<and> unat (pi_num pi) < 2 ^ 62" by simp
  have 3: "room_for (\<lambda>rr. node_count rr < RQC_MAX_ACK_RANGE_CNT) (rqc_recv_record_add True) (ctl_recv_record ex_ack_ctl) (map pi_num ?pis)"
    by (simp add: ex_ack_ctl_def rqc_recv_record_add_def rr_try_merge_def rqc_pktno_range_can_merge_def
        rr_join_def rr_insert_def word_le_nat_alt)
  have 4: "ack_due ex_ack_env ex_ack_ctl" by (simp add: ack_due_def flags_agree_def ex_ack_ctl_def)
  from recv_path_records_once [OF 1(1) 2 3 4] show ?thesis unfolding 1(2) by (elim ex_forward) (simp add: insert_commute ex_ack_ctl_def)
qed

end
