(* ===== verification/Spec2Isabelle.thy ===== *)
theory Spec2Isabelle
  imports Rqc_Ring_Array Rqc_Frame_Stream Rqc_Frame_Ack Rqc_Engine_Sched Rqc_Transport_Params Rqc_Stream_Table Rqc_Recv_Path
begin

text \<open>
  rquic: a verification development of the QUIC transport library under \<open>src/\<close>.

  \<^bold>\<open>The program.\<close> rquic is a user-space QUIC-like transport (no TLS). An engine owns connections and
  schedules them through two priority queues; a connection keeps identifiers, streams, one path
  with its send control, and timers; datagrams are split into packets, packets into frames. The
  development follows the data from the wire inwards: integers, packet headers, frames, the record
  of received packet numbers that feeds acknowledgements, and beside them the containers and the
  scheduler.

  \<^bold>\<open>Theories and sources.\<close>
  \<^item> \<open>Rqc_Prelude\<close>: machine integers, results, buffers, network byte order; error codes of
    \<open>include/rquic/rqc_errno.h\<close>.
  \<^item> \<open>Rqc_Vint\<close>: \<open>common/utils/vint\<close>, the variable-length integers. Reading back what was written,
    the agreement of the two encoders, bounds of the decoder, and the incremental decoder.
  \<^item> \<open>Rqc_Ring_Array\<close>: \<open>common/utils/ringarray\<close> as a bounded deque (locale \<open>ring_deque\<close> style interface,
    interpreted on the code's operations), and growing it.
  \<^item> \<open>Rqc_Recv_Record\<close>: \<open>transport/rqc_recv_record.c\<close>, the descending list of received ranges and the
    record of sent acknowledgements.
  \<^item> \<open>Rqc_Packet\<close>: the packet structures and the reading and writing primitives of the frame code.
  \<^item> \<open>Rqc_Frame_Ctrl\<close>, \<open>Rqc_Frame_Stream\<close>, \<open>Rqc_Frame_Ack\<close>: \<open>transport/rqc_frame_parser.c\<close>, every frame
    generator and parser: round trips, behaviour without space, safety on arbitrary bytes.
  \<^item> \<open>Rqc_Cid\<close>: \<open>transport/rqc_cid.c\<close>, connection identifiers and their per-path sets.
  \<^item> \<open>Rqc_Packet_Header\<close>: \<open>transport/rqc_packet_parser.c\<close>, \<open>rqc_packet.c\<close>, \<open>rqc_defs.c\<close> and the checks of
    \<open>rqc_conn.c\<close> they use: packet numbers, headers on the wire, version negotiation.
  \<^item> \<open>Rqc_Transport_Params\<close>: \<open>transport/rqc_transport_params.c\<close>.
  \<^item> \<open>Rqc_Priority_Q\<close>, \<open>Rqc_Engine_Sched\<close>: \<open>common/rqc_priority_q.h\<close> with its interface as a locale
    over multisets, and the engine's wake-up and active queues (\<open>rqc_engine.c\<close>, \<open>rqc_utils.c\<close>) on top of it.

  \<^bold>\<open>Conventions.\<close> A C function that returns a code is a function to \<open>'a res\<close>; a read or write outside a
  buffer is the value \<open>Inl Fault\<close>, whose absence is proved. State that a function changes through
  pointers is returned. Machine integers keep their width where they can wrap; sizes and offsets inside one
  buffer are natural numbers. Intrusive lists are HOL lists, pointers into them are positions. Allocation
  succeeds, except in the priority queue, where the block to grow into is an argument. Loops are
  structural or have a measure; only the wake-up loop of the engine has fuel, and one more round than
  there are waiting connections is proved to be enough.

  \<^bold>\<open>Not modelled.\<close> Congestion control (floating-point-like rate models of BBR), the socket
  and callback glue of the engine and the client, logging, memory pools, hashing and the random source
  are effects or heuristics without a contract in the code. Streams, send queues, timers, loss detection
  and frame processing are open.
\<close>

section \<open>Stream data from end to end\<close>

text \<open>What the generator of STREAM frames puts on the wire for a new frame with data.\<close>

lemma gen_stream_wire:
  assumes "po_ok po" "po_stream_frames_idx po < RQC_MAX_STREAM_FRAME_IN_PO" "\<not> can_combine po sid off"
    and "payload \<noteq> [] \<or> \<not> fin" "unat off + length payload < 2 ^ 62"
    and gen: "rqc_gen_stream_frame po sid off fin payload = (Inr n, w, po')"
  shows "w \<le> length payload" "w < 2 ^ 14" "po_frame po' n = sf_bytes sid off (fin \<and> w = length payload) (take w payload)"
proof -
  have "length payload < 2 ^ 63" using assms(5) by simp
  note spec = gen_stream_data_spec [OF assms(1) this, of sid off fin]
  have eq: "rqc_gen_stream_frame po sid off fin payload = gen_stream_data po sid off fin payload"
    using assms(2-4) by (auto simp: rqc_gen_stream_frame_def gen_stream_new_def Let_def)
  with gen spec(1) have room: "new_frame_room po sid off payload" by (auto split: if_splits)
  then have res: "w = stream_take po sid off payload"
      "n = length (sf_bytes sid off (fin \<and> w = length payload) (take w payload))"
      "po' = stream_record po (overwrite (po_buf po) (po_used_size po) (sf_bytes sid off (fin \<and> w = length payload) (take w payload)))
             (Some (po_used_size po + length (sf_header sid off True False))) sid off w (fin \<and> w = length payload)"
    using gen spec(1) eq by auto
  show "w \<le> length payload" "w < 2 ^ 14"
    using assms(1) by (auto simp: res(1) stream_take_def po_ok_def rqc_get_po_remained_size_def min_def)
  show "po_frame po' n = sf_bytes sid off (fin \<and> w = length payload) (take w payload)"
    unfolding res(3) using spec(2) [OF room] res(1,2) by simp
qed

text \<open>The frame the receiver builds from it.\<close>

lemma wire_from_peer:
  assumes "payload = map S [unat off ..< unat off + length payload]" "w \<le> length payload"
    "unat off + length payload \<le> N" "N < 2 ^ 62" "fin \<longrightarrow> unat off + length payload = N"
  defines "f \<equiv> frame_in \<lparr>sf_data = take w payload, sf_data_length = w, sf_data_offset = off, sf_fin = (fin \<and> w = length payload)\<rparr>"
  shows "from_peer S N f" "frame_range f = {unat off ..< unat off + w}"
proof -
  have f: "sf_data f = take w payload" "sf_data_length f = w" "sf_data_offset f = off"
    "sf_fin f = (fin \<and> w = length payload)" "sf_next_read_offset f = 0"
    by (simp_all add: f_def frame_in_def rqc_stream_frame.defs)
  have "take w payload = map S [unat off ..< unat off + w]"
    by (subst assms(1)) (use assms(2) in \<open>simp add: take_map\<close>)
  then have ok: "frame_ok S 0 f" using assms(2-4) by (simp add: frame_ok_def f)
  show "frame_range f = {unat off ..< unat off + w}" by (simp add: frame_range_def f)
  show "from_peer S N f" using ok assms(2,3,5) frame_okD(1) [OF ok] by (auto simp: from_peer_def f)
qed

text \<open>
  C6: stream data from the sender's buffer to the receiver's. The sender puts data of its stream \<open>S\<close>,
  of final size \<open>N\<close>, into a packet with \<open>rqc_gen_stream_frame\<close>; a packet that carries these bytes is processed by
  \<open>rqc_process_stream_frame\<close> of the peer, which has the stream open. Then the receiver has
  exactly the \<open>w\<close> positions that the generator reported as written in addition to what it had, its
  reassembly invariant for \<open>S\<close> holds again, no other stream is touched, and the
  only possible failure is a flow control error when a limit is exceeded.
\<close>

theorem stream_data_end_to_end:
  assumes po: "po_ok po" "po_stream_frames_idx po < RQC_MAX_STREAM_FRAME_IN_PO" "\<not> can_combine po sid off"
    and data: "payload = map S [unat off ..< unat off + length payload]" "payload \<noteq> []" "sid < 2 ^ 62"
      "unat off + length payload \<le> N" "N < 2 ^ 62" "fin \<longrightarrow> unat off + length payload = N"
    and gen: "rqc_gen_stream_frame po sid off fin payload = (Inr n, w, po')"
    and wire: "carries pi (pi_pos pi) (po_frame po' n)"
    and recv: "streams_wf c" "streams_hash c sid = Some s" "recv_inv S N s" "\<not> has_flag RQC_STREAM_FLAG_DISCARDED s"
  shows "\<exists>s'. streams_hash (snd (rqc_process_stream_frame env notify c pi)) = (streams_hash c)(sid \<mapsto> s') \<and>
    received (stream_data_in s') = received (stream_data_in s) \<union> {unat off ..< unat off + w} \<and>
    (fst (rqc_process_stream_frame env notify c pi) = Inr (pi_done pi (pi_pos pi + length (po_frame po' n)) RQC_FRAME_BIT_STREAM) \<and>
       recv_inv S N s' \<or>
     fst (rqc_process_stream_frame env notify c pi) = Err (- RQC_EPROTO) \<and>
       over_limit (snd (rqc_process_stream_frame env notify c pi), s'))"
proof -
  have lt: "unat off + length payload < 2 ^ 62" using data(4,5) by simp
  have nf: "payload \<noteq> [] \<or> \<not> fin" using data(2) by simp
  note g = gen_stream_wire [OF po nf lt gen]
  let ?sf = "\<lparr>sf_data = take w payload, sf_data_length = w, sf_data_offset = off, sf_fin = (fin \<and> w = length payload)\<rparr>"
  let ?pi = "pi_done pi (pi_pos pi + length (po_frame po' n)) RQC_FRAME_BIT_STREAM"
  have p: "rqc_parse_stream_frame True pi (c_conn_err c) = (Inr (?pi, ?sf, sid), c_conn_err c)"
    using parse_sf_bytes [OF wire [unfolded g(3)] data(3)] g lt by (simp add: min_absorb2)
  note f = wire_from_peer [OF data(1) g(1) data(4-6)]
  obtain ret c1 s1 where r: "on_stream_frame env (frame_in ?sf) (c, s) = (ret, c1, s1)" by (metis surj_pair)
  note step = stream_frame_step [OF recv(3) f(1) recv(4) r]
  have k: "same_table c c1" "same_stream s s1" using on_stream_frame_keep [OF r] by (simp_all add: keep_def)
  have "stream_id s = sid" using streams_wfD(1) [OF recv(1,2)] by (simp add: stream_filed_def)
  then have h: "streams_hash (put_stream (c1, s1)) = (streams_hash c)(sid \<mapsto> s1)"
    using k by (simp add: same_table_def same_stream_def)
  have run: "rqc_process_stream_frame env notify c pi = (if ret \<noteq> RQC_OK then Err ret else Inr ?pi, put_stream (c1, s1))"
    by (simp add: rqc_process_stream_frame_def p handle_def find_or_create_def recv(2) r store_def)
  show ?thesis unfolding run fst_conv snd_conv h
    by (rule exI [of _ s1]) (use step f(2) in \<open>auto simp: over_limit_def\<close>)
qed

definition ex_receiver :: rqc_conn_streams where
  "ex_receiver = ex_sconn\<lparr>max_stream_id_bidi_remote := 1, passive_streams_hash := {4}, streams_hash := [4 \<mapsto> ex_recv]\<rparr>"

theorem stream_data_end_to_end_witness:
  "\<exists>n po'. rqc_gen_stream_frame po_example 4 0 True [0, 1, 2] = (Inr n, 3, po') \<and>
     (\<exists>s'. streams_hash (snd (rqc_process_stream_frame ex_env None ex_receiver (pi_example (po_frame po' n)))) 4 = Some s' \<and>
        received (stream_data_in s') = {..< 3})"
proof -
  have h: "length (sf_header 4 0 True False) = 2" by (simp add: length_off_bytes rqc_vint_get_2bit_def)
  have w: "stream_take po_example 4 0 [0, 1, 2] = 3" by (simp add: stream_take_def h del: length_sf_header)
  have room: "new_frame_room po_example 4 0 [0, 1, 2]" by (simp add: new_frame_room_def stream_room_def h del: length_sf_header)
  have po: "po_ok po_example" "po_stream_frames_idx po_example < RQC_MAX_STREAM_FRAME_IN_PO" "\<not> can_combine po_example 4 0"
    by (simp_all add: can_combine_def)
  have "rqc_gen_stream_frame po_example 4 0 True [0, 1, 2] = gen_stream_data po_example 4 0 True [0, 1, 2]"
    using po by (simp add: rqc_gen_stream_frame_def gen_stream_new_def Let_def)
  then obtain n po' where gen: "rqc_gen_stream_frame po_example 4 0 True [0, 1, 2] = (Inr n, 3, po')"
    using gen_stream_data_spec(1) [OF po(1), of "[0, 1, 2]" 4 0 True] room w by auto
  let ?pi = "pi_example (po_frame po' n)"
  have wire: "carries ?pi (pi_pos ?pi) (po_frame po' n)" by (simp add: carries_def holds_at_def)
  have wf: "streams_wf ex_receiver" "streams_hash ex_receiver 4 = Some ex_recv"
    by (auto simp: streams_wf_def stream_filed_def ex_receiver_def ex_recv_def ex_stream_def ex_sconn_def stream_zero_def stream_defs
        rqc_get_stream_type_def drop_bit_eq_div split: if_splits)
  have d: "[0, 1, 2] = map of_nat [unat (0 :: u64) ..< unat (0 :: u64) + length [0, 1, 2 :: byte]]" by (simp add: upt_rec)
  obtain s' where "streams_hash (snd (rqc_process_stream_frame ex_env None ex_receiver ?pi)) = (streams_hash ex_receiver)(4 \<mapsto> s')"
      "received (stream_data_in s') = received (stream_data_in ex_recv) \<union> {0 ..< 3}"
    using stream_data_end_to_end [OF po d _ _ _ _ _ gen wire wf ex_recv_inv(1) [of of_nat 3] ex_recv_inv(2), of ex_env None] by auto
  moreover have "received (stream_data_in ex_recv) = {}" by (simp add: ex_recv_def din_ok_init(2))
  ultimately show ?thesis using gen by auto
qed

end
